(* ===== verification/Prelude.thy ===== *)
theory Prelude
  imports Main "HOL-Library.Word"
begin

text \<open>
  Shared material of the development: the collections of simplification rules, the generic
  lemmas on lists that several components use, C arrays whose accesses can fault, the C
  conversions between integer types, and the interface of transition systems (reachable
  states, invariants, bounded runs) that every concurrent component is proved through.
\<close>

section \<open>Collections of rules\<close>

named_theorems cfg_defs "definitions of the constants and tables of a program"
named_theorems exec_defs "definitions of the operations of a component"
named_theorems inv_defs "definitions of the parts of an invariant"

section \<open>Lists of processes\<close>

text \<open>
  The processes of a program form a list, and one step replaces one element. The quantities an
  invariant speaks of (how many processes are inside their critical section, how much work is
  left) are sums over that list, so one rule tells how a step changes each of them.
\<close>

definition tally :: "('a \<Rightarrow> int) \<Rightarrow> 'a list \<Rightarrow> int" where
  "tally f xs = (\<Sum>x\<leftarrow>xs. f x)"

lemma tally_Nil [simp]: "tally f [] = 0"
  by (simp add: tally_def)

lemma tally_Cons [simp]: "tally f (x # xs) = f x + tally f xs"
  by (simp add: tally_def)

lemma tally_append [simp]: "tally f (xs @ ys) = tally f xs + tally f ys"
  by (simp add: tally_def)

lemma tally_update:
  "i < length xs \<Longrightarrow> tally f (xs[i := y]) = tally f xs - f (xs ! i) + f y"
proof (induction xs arbitrary: i)
  case (Cons x xs)
  then show ?case by (cases i) auto
qed simp

lemma tally_nonneg: "(\<And>x. x \<in> set xs \<Longrightarrow> 0 \<le> f x) \<Longrightarrow> 0 \<le> tally f xs"
  by (induction xs) auto

lemma tally_mono: "(\<And>x. x \<in> set xs \<Longrightarrow> f x \<le> g x) \<Longrightarrow> tally f xs \<le> tally g xs"
  by (induction xs) (auto intro: add_mono)

lemma tally_le_length:
  assumes "\<And>x. f x \<le> 1" shows "tally f xs \<le> int (length xs)"
proof (induction xs)
  case (Cons x xs)
  then show ?case using assms [of x] by simp
qed simp

lemma tally_compl: "tally (\<lambda>x. 1 - f x) xs = int (length xs) - tally f xs"
  by (induction xs) auto

lemma tally_sum: "tally (\<lambda>x. f x + g x) xs = tally f xs + tally g xs"
  by (induction xs) auto

lemma tally_split:
  "i < length xs \<Longrightarrow> tally f xs = f (xs ! i) + tally f (take i xs @ drop (Suc i) xs)"
  using id_take_nth_drop [of i xs] by (metis add.left_commute tally_Cons tally_append)

lemma tally_member:
  assumes "\<And>x. x \<in> set xs \<Longrightarrow> 0 \<le> f x" and "x \<in> set xs" shows "f x \<le> tally f xs"
  using assms
proof (induction xs)
  case (Cons y ys)
  have nn: "0 \<le> tally f ys" "0 \<le> f y" using Cons.prems by (auto intro: tally_nonneg)
  show ?case
  proof (cases "x = y")
    case False
    with Cons have "f x \<le> tally f ys" by auto
    with nn(2) show ?thesis unfolding tally_Cons by linarith
  qed (use nn in simp)
qed simp

lemma tally_eq_0: "(\<And>x. x \<in> set xs \<Longrightarrow> f x = 0) \<Longrightarrow> tally f xs = 0"
  by (induction xs) auto

lemma tally_ge_one: "(\<And>x. 0 \<le> f x) \<Longrightarrow> i < length xs \<Longrightarrow> f (xs ! i) \<le> tally f xs"
  by (simp add: tally_member)

lemma tally_ge_two:
  assumes "\<And>x. 0 \<le> f x" "i < length xs" "j < length xs" "i \<noteq> j"
  shows "f (xs ! i) + f (xs ! j) \<le> tally f xs"
proof -
  have "xs ! j \<in> set (take i xs @ drop (Suc i) xs)"
  proof (cases "j < i")
    case True
    with assms show ?thesis by (auto simp: in_set_conv_nth)
  next
    case False
    then have "drop (Suc i) xs ! (j - Suc i) = xs ! j" "j - Suc i < length (drop (Suc i) xs)"
      using assms by auto
    then show ?thesis by (metis Un_iff nth_mem set_append)
  qed
  then have "f (xs ! j) \<le> tally f (take i xs @ drop (Suc i) xs)"
    using assms(1) by (intro tally_member)
  with tally_split [OF assms(2), of f] show ?thesis by simp
qed

lemma tally_zero_iff:
  assumes "\<And>x. 0 \<le> f x"
  shows "tally f xs = 0 \<longleftrightarrow> (\<forall>x \<in> set xs. f x = 0)"
proof (induction xs)
  case (Cons x xs)
  have "0 \<le> tally f xs" by (intro tally_nonneg assms)
  then show ?case using Cons assms [of x] by (auto simp: add_nonneg_eq_0_iff)
qed simp

lemma tally_pos_ex:
  assumes "0 < tally f xs" shows "\<exists>i < length xs. 0 < f (xs ! i)"
proof (rule ccontr)
  assume "\<not> ?thesis"
  then have "tally f xs \<le> tally (\<lambda>_. 0) xs"
    by (intro tally_mono) (metis in_set_conv_nth not_less)
  moreover have "tally (\<lambda>_. 0) xs = 0" by (induction xs) auto
  ultimately show False using assms by simp
qed

text \<open>
  When a weight \<open>f\<close> allows one process at a time (\<open>tally f xs \<le> 1\<close>) and process \<open>i\<close> is the one,
  then every smaller weight is the weight of process \<open>i\<close>, and a property of the others survives a
  change that only matters to a process inside.
\<close>

lemma tally_zero:
  assumes "\<And>x. 0 \<le> g x" "\<And>x. g x \<le> f x" "tally f xs \<le> 0"
  shows "tally g xs = 0"
  using assms tally_mono [of xs g f] tally_nonneg [of xs g] by fastforce

lemma tally_own:
  assumes "\<And>x. 0 \<le> g x" "\<And>x. g x \<le> f x"
    and "i < length xs" "f (xs ! i) = 1" "tally f xs \<le> 1"
  shows "tally g xs = g (xs ! i)"
proof -
  have "tally f (take i xs @ drop (Suc i) xs) \<le> 0"
    using tally_split [OF assms(3), of f] assms(4,5) by simp
  then have "tally g (take i xs @ drop (Suc i) xs) = 0" by (rule tally_zero [OF assms(1,2)])
  with tally_split [OF assms(3), of g] show ?thesis by simp
qed

lemma ball_update: "\<forall>q \<in> set xs. P q \<Longrightarrow> P p \<Longrightarrow> \<forall>q \<in> set (xs[i := p]). P q"
  using set_update_subset_insert [of xs i p] by blast

lemma ball_update_alone:
  assumes "\<forall>q \<in> set xs. P q" "Q p" and i: "i < length xs" "f (xs ! i) = 1" "tally f xs \<le> 1"
    and f: "\<And>q. 0 \<le> f q" and keep: "\<And>q. f q = (0::int) \<Longrightarrow> P q \<Longrightarrow> Q q"
  shows "\<forall>q \<in> set (xs[i := p]). Q q"
proof
  fix q assume "q \<in> set (xs[i := p])"
  then obtain j where j: "j < length xs" "q = xs[i := p] ! j" by (auto simp: in_set_conv_nth)
  show "Q q"
  proof (cases "j = i")
    case False
    with f i j have "f (xs ! i) + f (xs ! j) \<le> tally f xs" by (intro tally_ge_two) auto
    with i f [of "xs ! j"] have "f (xs ! j) = 0" by linarith
    with False j assms(1) keep show ?thesis by simp
  qed (use i j assms(2) in simp)
qed

section \<open>C objects: arrays whose accesses can fault\<close>

text \<open>
  An access outside the object it was meant for is undefined in C. The model makes it a value:
  a fault that ends the run it happens in.
\<close>

datatype c_fault = Null_Deref | Out_Of_Bounds | Use_After_Free | Uninitialised

definition load :: "'a list \<Rightarrow> int \<Rightarrow> c_fault + 'a" where
  "load xs i = (if 0 \<le> i \<and> i < int (length xs) then Inr (xs ! nat i) else Inl Out_Of_Bounds)"

definition store :: "'a list \<Rightarrow> int \<Rightarrow> 'a \<Rightarrow> c_fault + 'a list" where
  "store xs i x =
     (if 0 \<le> i \<and> i < int (length xs) then Inr (xs[nat i := x]) else Inl Out_Of_Bounds)"

text \<open>Copying a block of bytes to an offset of an object (\<open>memcpy\<close> and its kin).\<close>

definition store_block :: "'a list \<Rightarrow> int \<Rightarrow> 'a list \<Rightarrow> c_fault + 'a list" where
  "store_block xs i ys =
     (if ys = [] then Inr xs
      else if 0 \<le> i \<and> i + int (length ys) \<le> int (length xs)
      then Inr (take (nat i) xs @ ys @ drop (nat i + length ys) xs)
      else Inl Out_Of_Bounds)"

text \<open>
  \<open>strlen\<close>: the distance to the first zero byte; reading past the end of the object without
  having met one is a fault.
\<close>

definition nul :: char where
  "nul = CHR 0x00"

fun c_strlen :: "char list \<Rightarrow> c_fault + nat" where
  "c_strlen [] = Inl Out_Of_Bounds"
| "c_strlen (c # cs) =
     (if c = nul then Inr 0
      else case c_strlen cs of Inl e \<Rightarrow> Inl e | Inr n \<Rightarrow> Inr (Suc n))"

text \<open>The string a \<open>char *\<close> points to: the bytes before the first zero byte.\<close>

definition c_str :: "char list \<Rightarrow> char list" where
  "c_str cs = takeWhile (\<lambda>c. c \<noteq> nul) cs"

lemma c_strlen_eq:
  "c_strlen cs = (if nul \<in> set cs then Inr (length (c_str cs)) else Inl Out_Of_Bounds)"
  by (induction cs) (auto simp: c_str_def)

lemma c_strlen_str: "c_strlen cs = Inr n \<longleftrightarrow> nul \<in> set cs \<and> n = length (c_str cs)"
  by (auto simp: c_strlen_eq)

lemma c_strlen_append: "nul \<notin> set s \<Longrightarrow> c_strlen (s @ nul # r) = Inr (length s)"
  by (induction s) auto

lemma c_str_append: "nul \<notin> set s \<Longrightarrow> c_str (s @ nul # r) = s"
  unfolding c_str_def by (subst takeWhile_append2) auto

lemma c_strlen_bound: "i < length cs \<Longrightarrow> cs ! i = nul \<Longrightarrow> \<exists>n. c_strlen cs = Inr n \<and> n \<le> i"
proof (induction cs arbitrary: i)
  case (Cons c cs)
  show ?case
  proof (cases "c = nul")
    case False
    with Cons.prems obtain k where "i = Suc k" by (cases i) auto
    with Cons False show ?thesis by fastforce
  qed simp
qed simp

lemma length_store_block: "store_block xs i ys = Inr zs \<Longrightarrow> length zs = length xs"
  by (auto simp: store_block_def split: if_splits)

lemma length_store: "store xs i x = Inr ys \<Longrightarrow> length ys = length xs"
  by (auto simp: store_def split: if_splits)

section \<open>C integer conversions\<close>

text \<open>
  \<open>int\<close> is 32 bits, \<open>size_t\<close> and \<open>unsigned long\<close> are 64 bits (the programs were built for
  x86-64). A conversion to a signed type keeps the value modulo the width, as gcc documents.
\<close>

definition to_u64 :: "int \<Rightarrow> int" where
  "to_u64 z = z mod 2 ^ 64"

definition to_s32 :: "int \<Rightarrow> int" where
  "to_s32 z = (z + 2 ^ 31) mod 2 ^ 32 - 2 ^ 31"

definition to_s8 :: "int \<Rightarrow> int" where
  "to_s8 z = (z + 2 ^ 7) mod 2 ^ 8 - 2 ^ 7"

definition to_u32 :: "int \<Rightarrow> int" where
  "to_u32 z = z mod 2 ^ 32"

lemma to_u64_small [simp]: "0 \<le> z \<Longrightarrow> z < 2 ^ 64 \<Longrightarrow> to_u64 z = z"
  by (simp add: to_u64_def)

lemma to_u32_small [simp]: "0 \<le> z \<Longrightarrow> z < 2 ^ 32 \<Longrightarrow> to_u32 z = z"
  by (simp add: to_u32_def)

lemma to_s32_small [simp]: "- (2 ^ 31) \<le> z \<Longrightarrow> z < 2 ^ 31 \<Longrightarrow> to_s32 z = z"
  by (simp add: to_s32_def)

lemma to_s8_small [simp]: "- (2 ^ 7) \<le> z \<Longrightarrow> z < 2 ^ 7 \<Longrightarrow> to_s8 z = z"
  by (simp add: to_s8_def)

section \<open>Transition systems\<close>

inductive reachable :: "('s \<Rightarrow> bool) \<Rightarrow> ('s \<Rightarrow> 's \<Rightarrow> bool) \<Rightarrow> 's \<Rightarrow> bool"
  for init step where
  reach_init: "init s \<Longrightarrow> reachable init step s"
| reach_step: "reachable init step s \<Longrightarrow> step s t \<Longrightarrow> reachable init step t"

text \<open>A run of a given number of steps.\<close>

inductive steps :: "('s \<Rightarrow> 's \<Rightarrow> bool) \<Rightarrow> nat \<Rightarrow> 's \<Rightarrow> 's \<Rightarrow> bool" for step where
  steps_0: "steps step 0 s s"
| steps_Suc: "steps step n s t \<Longrightarrow> step t u \<Longrightarrow> steps step (Suc n) s u"

lemma reachable_steps:
  assumes "steps step n s t" and "reachable init step s"
  shows "reachable init step t"
  using assms by induction (auto intro: reach_step)

text \<open>
  The contract of an invariant: it holds initially and every step keeps it. What it gives: every
  reachable state satisfies it, and so does every state of a run that starts in one.
\<close>

locale invariant =
  fixes init :: "'s \<Rightarrow> bool" and step :: "'s \<Rightarrow> 's \<Rightarrow> bool" and inv :: "'s \<Rightarrow> bool"
  assumes inv_init: "init s \<Longrightarrow> inv s"
    and inv_step: "inv s \<Longrightarrow> step s t \<Longrightarrow> inv t"
begin

lemma reachable_inv: "reachable init step s \<Longrightarrow> inv s"
  by (induction rule: reachable.induct) (blast intro: inv_init inv_step)+

lemma steps_inv: "steps step n s t \<Longrightarrow> inv s \<Longrightarrow> inv t"
  by (induction rule: steps.induct) (blast intro: inv_step)+

end

text \<open>
  A system whose steps use up a measure: no run is longer than the measure of the state it starts
  from, so the program cannot run forever.
\<close>

locale terminating = invariant +
  fixes left :: "'s \<Rightarrow> nat"
  assumes left_step: "inv s \<Longrightarrow> step s t \<Longrightarrow> left t < left s"
begin

lemma run_bound: "steps step n s t \<Longrightarrow> inv s \<Longrightarrow> n + left t \<le> left s"
proof (induction rule: steps.induct)
  case (steps_Suc n s t u)
  then have "inv t" by (blast intro: steps_inv)
  with steps_Suc left_step [of t u] show ?case by fastforce
qed simp

text \<open>
  If the states without a successor are the final ones, every run can be extended to a final
  state: maximal runs end well.
\<close>

lemma reaches_final:
  assumes progress: "\<And>s. inv s \<Longrightarrow> (\<nexists>t. step s t) \<Longrightarrow> final s"
    and "inv s"
  shows "\<exists>n t. steps step n s t \<and> final t \<and> (\<nexists>u. step t u)"
  using \<open>inv s\<close>
proof (induction "left s" arbitrary: s rule: less_induct)
  case less
  show ?case
  proof (cases "\<exists>t. step s t")
    case True
    then obtain t where st: "step s t" by blast
    then have "inv t" "left t < left s" using less.prems by (blast intro: inv_step left_step)+
    then obtain n u where nu: "steps step n t u" "final u" "\<nexists>v. step u v"
      using less.hyps by blast
    from nu(1) st have "steps step (Suc n) s u"
    proof (induction rule: steps.induct)
      case (steps_0 s')
      then show ?case by (metis steps.steps_0 steps.steps_Suc)
    qed (blast intro: steps.steps_Suc)
    with nu show ?thesis by blast
  next
    case False
    with less.prems have "final s" using progress by blast
    with False show ?thesis by (blast intro: steps_0)
  qed
qed

end

end
