(* ===== verification/SysV_Sem.thy ===== *)
theory SysV_Sem
  imports Prelude
begin

text \<open>
  System V semaphore sets as POSIX describes \<open>semop\<close> and \<open>semctl (SETVAL)\<close>: the calls the
  programs of \<open>5-semestr/lab5\<close> synchronise their processes with. An array of operations is
  applied in array order and as one atomic action: either all of them, or, when one of them would
  have to wait or fails, none.
\<close>

section \<open>Operations on a semaphore set\<close>

datatype errno = EFBIG | EAGAIN | ERANGE | EINVAL

record sembuf =
  sem_num :: nat
  sem_op :: int
  sem_flg :: nat

type_synonym semset = "int list"

datatype sem_outcome = Sem_ok semset | Sem_block | Sem_err errno

definition SEMVMX :: int where
  "SEMVMX = 32767"

definition nowait :: "sembuf \<Rightarrow> bool" where
  "nowait b = odd (sem_flg b div 2048)"

definition sem_wait_outcome :: "sembuf \<Rightarrow> sem_outcome" where
  "sem_wait_outcome b = (if nowait b then Sem_err EAGAIN else Sem_block)"

fun semop_seq :: "semset \<Rightarrow> sembuf list \<Rightarrow> sem_outcome" where
  "semop_seq s [] = Sem_ok s"
| "semop_seq s (b # bs) =
     (let v = s ! sem_num b; w = v + sem_op b in
      if sem_op b = 0 then (if v \<noteq> 0 then sem_wait_outcome b else semop_seq s bs)
      else if w < 0 then sem_wait_outcome b
      else if w > SEMVMX then Sem_err ERANGE
      else semop_seq (s[sem_num b := w]) bs)"

definition semop :: "semset \<Rightarrow> sembuf list \<Rightarrow> sem_outcome" where
  "semop s bs =
     (if \<exists>b \<in> set bs. sem_num b \<ge> length s then Sem_err EFBIG else semop_seq s bs)"

definition semctl_setval :: "semset \<Rightarrow> nat \<Rightarrow> int \<Rightarrow> errno + semset" where
  "semctl_setval s n v =
     (if n \<ge> length s then Inl EINVAL
      else if v < 0 \<or> v > SEMVMX then Inl ERANGE
      else Inr (s[n := v]))"

section \<open>Laws\<close>

definition sem_inv :: "semset \<Rightarrow> bool" where
  "sem_inv s \<longleftrightarrow> (\<forall>v \<in> set s. 0 \<le> v \<and> v \<le> SEMVMX)"

lemma semop_seq_length: "semop_seq s bs = Sem_ok s' \<Longrightarrow> length s' = length s"
  by (induction s bs rule: semop_seq.induct)
     (auto simp: Let_def sem_wait_outcome_def split: if_splits)

lemma semop_length: "semop s bs = Sem_ok s' \<Longrightarrow> length s' = length s"
  by (auto simp: semop_def dest: semop_seq_length split: if_splits)

lemma semop_seq_inv: "semop_seq s bs = Sem_ok s' \<Longrightarrow> sem_inv s \<Longrightarrow> sem_inv s'"
proof (induction s bs rule: semop_seq.induct)
  case (2 s b bs)
  let ?w = "s ! sem_num b + sem_op b"
  show ?case
  proof (cases "sem_op b = 0")
    case False
    with 2 have "0 \<le> ?w" "?w \<le> SEMVMX" and r: "semop_seq (s[sem_num b := ?w]) bs = Sem_ok s'"
      by (auto simp: Let_def sem_wait_outcome_def split: if_splits)
    with 2 have "sem_inv (s[sem_num b := ?w])"
      by (auto simp: sem_inv_def dest!: set_update_subset_insert [THEN subsetD])
    with 2 False r \<open>0 \<le> ?w\<close> \<open>?w \<le> SEMVMX\<close> show ?thesis by fastforce
  qed (use 2 in \<open>auto simp: Let_def sem_wait_outcome_def split: if_splits\<close>)
qed simp

lemma semop_inv: "semop s bs = Sem_ok s' \<Longrightarrow> sem_inv s \<Longrightarrow> sem_inv s'"
  by (auto simp: semop_def dest: semop_seq_inv split: if_splits)

definition in_range :: "semset \<Rightarrow> sembuf list \<Rightarrow> bool" where
  "in_range s bs \<longleftrightarrow> (\<forall>b \<in> set bs. sem_num b < length s)"

lemma in_range_simps [simp]:
  "in_range s []" "in_range s (b # bs) \<longleftrightarrow> sem_num b < length s \<and> in_range s bs"
  "in_range (s[n := v]) bs = in_range s bs"
  by (auto simp: in_range_def)

abbreviation sem_P :: "nat \<Rightarrow> sembuf" where
  "sem_P n \<equiv> \<lparr>sem_num = n, sem_op = -1, sem_flg = 0\<rparr>"

abbreviation sem_V :: "nat \<Rightarrow> sembuf" where
  "sem_V n \<equiv> \<lparr>sem_num = n, sem_op = 1, sem_flg = 0\<rparr>"

abbreviation sem_Z :: "nat \<Rightarrow> sembuf" where
  "sem_Z n \<equiv> \<lparr>sem_num = n, sem_op = 0, sem_flg = 0\<rparr>"

text \<open>
  The contract the programs rely on, as POSIX states it: the operations of an array take effect
  one after the other; a decrement below zero and a wait for zero on a positive semaphore make the
  whole call wait. What the clients use follows from it: the effect of the arrays they call
  \<open>semop\<close> with.
\<close>

locale semaphore_service =
  fixes sop :: "semset \<Rightarrow> sembuf list \<Rightarrow> sem_outcome"
  assumes sop_Nil: "sop s [] = Sem_ok s"
    and sop_add: "in_range s (b # bs) \<Longrightarrow> sem_op b \<noteq> 0 \<Longrightarrow> 0 \<le> s ! sem_num b + sem_op b \<Longrightarrow>
      s ! sem_num b + sem_op b \<le> SEMVMX \<Longrightarrow>
      sop s (b # bs) = sop (s[sem_num b := s ! sem_num b + sem_op b]) bs"
    and sop_below: "in_range s (b # bs) \<Longrightarrow> sem_op b \<noteq> 0 \<Longrightarrow> s ! sem_num b + sem_op b < 0 \<Longrightarrow>
      sem_flg b = 0 \<Longrightarrow> sop s (b # bs) = Sem_block"
    and sop_zero: "in_range s (b # bs) \<Longrightarrow> sem_op b = 0 \<Longrightarrow> s ! sem_num b = 0 \<Longrightarrow>
      sop s (b # bs) = sop s bs"
    and sop_nonzero: "in_range s (b # bs) \<Longrightarrow> sem_op b = 0 \<Longrightarrow> s ! sem_num b \<noteq> 0 \<Longrightarrow>
      sem_flg b = 0 \<Longrightarrow> sop s (b # bs) = Sem_block"
begin

lemma acquire_two:
  assumes "x < length s" "y < length s" "x \<noteq> y" "0 \<le> s ! x" "s ! x \<le> SEMVMX"
    and "0 \<le> s ! y" "s ! y \<le> SEMVMX"
  shows "sop s [sem_P x, sem_P y] =
           (if 0 < s ! x \<and> 0 < s ! y then Sem_ok (s[x := s ! x - 1, y := s ! y - 1]) else Sem_block)"
  using assms by (cases "0 < s ! x"; cases "0 < s ! y") (simp_all add: sop_Nil sop_add sop_below)

lemma release_two:
  assumes "x < length s" "y < length s" "x \<noteq> y" "0 \<le> s ! x" "s ! x < SEMVMX"
    and "0 \<le> s ! y" "s ! y < SEMVMX"
  shows "sop s [sem_V x, sem_V y] = Sem_ok (s[x := s ! x + 1, y := s ! y + 1])"
  using assms by (simp add: sop_Nil sop_add)

lemma acquire_one:
  assumes "x < length s" "0 \<le> s ! x" "s ! x \<le> SEMVMX"
  shows "sop s [sem_P x] = (if 0 < s ! x then Sem_ok (s[x := s ! x - 1]) else Sem_block)"
  using assms by (simp add: sop_Nil sop_add sop_below)

text \<open>
  Announce, wait for two semaphores to be zero, take the announcement back, enter: since the call is
  atomic, its net effect does not show the announcement.
\<close>

lemma announce_and_enter:
  assumes "x < length s" "y < length s" "z < length s" "w < length s" "x \<noteq> y" "x \<noteq> z" "x \<noteq> w"
    and "0 \<le> s ! x" "s ! x < SEMVMX" "0 \<le> s ! w" "s ! w < SEMVMX"
  shows "sop s [sem_V x, sem_Z y, sem_Z z, sem_P x, sem_V w] =
           (if s ! y = 0 \<and> s ! z = 0 then Sem_ok (s[w := s ! w + 1]) else Sem_block)"
  using assms
  by (cases "s ! y = 0"; cases "s ! z = 0") (simp_all add: sop_Nil sop_add sop_zero sop_nonzero)

end

interpretation sysv: semaphore_service semop
  by unfold_locales
     (auto simp: semop_def in_range_def Let_def sem_wait_outcome_def nowait_def)

end
