(* ===== verification/Readers_Writers.thy ===== *)
theory Readers_Writers
  imports SysV_Sem
begin

text \<open>
  The readers and writers of \<open>5-semestr/lab5/task2.c\<close>: four writers increment a shared
  counter, four readers print it, and four System V semaphores keep them apart. The tables of
  semaphore operations, the bodies of \<open>writer\<close> and \<open>reader\<close> (one step per access to shared
  state), the process creation and the waiting of the parent are modelled; \<open>sleep\<close> is a step
  that changes nothing, and any interleaving of the processes is a run.
\<close>

section \<open>The semaphore tables\<close>

definition SEM_AW :: nat where "SEM_AW = 0"
definition SEM_WW :: nat where "SEM_WW = 1"
definition SEM_AR :: nat where "SEM_AR = 2"
definition SEM_WR :: nat where "SEM_WR = 3"
definition SEM_N :: nat where "SEM_N = 4"
definition INC :: int where "INC = 1"
definition DEC :: int where "DEC = -1"
definition SLP :: int where "SLP = 0"
definition WRITERS :: nat where "WRITERS = 4"
definition READERS :: nat where "READERS = 4"

definition start_read :: "sembuf list" where
  "start_read =
     [\<lparr>sem_num = SEM_WR, sem_op = INC, sem_flg = 0\<rparr>,
      \<lparr>sem_num = SEM_WW, sem_op = SLP, sem_flg = 0\<rparr>,
      \<lparr>sem_num = SEM_AW, sem_op = SLP, sem_flg = 0\<rparr>,
      \<lparr>sem_num = SEM_WR, sem_op = DEC, sem_flg = 0\<rparr>,
      \<lparr>sem_num = SEM_AR, sem_op = INC, sem_flg = 0\<rparr>]"

definition stop_read :: "sembuf list" where
  "stop_read = [\<lparr>sem_num = SEM_AR, sem_op = DEC, sem_flg = 0\<rparr>]"

definition start_write :: "sembuf list" where
  "start_write =
     [\<lparr>sem_num = SEM_WW, sem_op = INC, sem_flg = 0\<rparr>,
      \<lparr>sem_num = SEM_AW, sem_op = SLP, sem_flg = 0\<rparr>,
      \<lparr>sem_num = SEM_AR, sem_op = SLP, sem_flg = 0\<rparr>,
      \<lparr>sem_num = SEM_WW, sem_op = DEC, sem_flg = 0\<rparr>,
      \<lparr>sem_num = SEM_AW, sem_op = INC, sem_flg = 0\<rparr>]"

definition stop_write :: "sembuf list" where
  "stop_write = [\<lparr>sem_num = SEM_AW, sem_op = DEC, sem_flg = 0\<rparr>]"

lemmas rw_table_defs [cfg_defs] =
  start_read_def stop_read_def start_write_def stop_write_def
  SEM_AW_def SEM_WW_def SEM_AR_def SEM_WR_def SEM_N_def INC_def DEC_def SLP_def

section \<open>State\<close>

text \<open>
  A program counter names the statement a process executes next. \<open>(*shm)++\<close> is two accesses,
  a load into a register and a store, so that an interleaving between them is possible.
\<close>

datatype writer_pc = W_Enter | W_Load | W_Store "32 word" | W_Print | W_Leave | W_Sleep
datatype reader_pc = R_Enter | R_Print | R_Leave | R_Sleep
datatype rw_proc = Writer nat writer_pc | Reader nat reader_pc

datatype rw_event = Wrote nat "32 word" | Has_Read nat "32 word"

datatype parent_pc =
  P_Writers nat | P_Readers nat | P_Shmdt | P_Wait nat | P_Rmid | P_Exit nat

record rw_state =
  rw_sems :: semset
  rw_shm :: "32 word"
  rw_out :: "rw_event list"
  rw_procs :: "rw_proc list"
  rw_parent :: parent_pc
  rw_killed :: bool

section \<open>The processes\<close>

text \<open>
  One statement of a process. \<open>None\<close>: the process has to wait. The result of \<open>semop\<close> is not
  looked at by the code: after an error the process goes on as if the call had succeeded.
\<close>

definition rw_semop :: "sembuf list \<Rightarrow> rw_state \<Rightarrow> rw_state option" where
  "rw_semop bs s =
     (case semop (rw_sems s) bs of
        Sem_ok v \<Rightarrow> Some (s\<lparr>rw_sems := v\<rparr>)
      | Sem_block \<Rightarrow> None
      | Sem_err e \<Rightarrow> Some s)"

fun writer :: "nat \<Rightarrow> writer_pc \<Rightarrow> rw_state \<Rightarrow> (writer_pc \<times> rw_state) option" where
  "writer num W_Enter s = map_option (Pair W_Load) (rw_semop start_write s)"
| "writer num W_Load s = Some (W_Store (rw_shm s), s)"
| "writer num (W_Store r) s = Some (W_Print, s\<lparr>rw_shm := r + 1\<rparr>)"
| "writer num W_Print s = Some (W_Leave, s\<lparr>rw_out := rw_out s @ [Wrote num (rw_shm s)]\<rparr>)"
| "writer num W_Leave s = map_option (Pair W_Sleep) (rw_semop stop_write s)"
| "writer num W_Sleep s = Some (W_Enter, s)"

fun reader :: "nat \<Rightarrow> reader_pc \<Rightarrow> rw_state \<Rightarrow> (reader_pc \<times> rw_state) option" where
  "reader num R_Enter s = map_option (Pair R_Print) (rw_semop start_read s)"
| "reader num R_Print s = Some (R_Leave, s\<lparr>rw_out := rw_out s @ [Has_Read num (rw_shm s)]\<rparr>)"
| "reader num R_Leave s = map_option (Pair R_Sleep) (rw_semop stop_read s)"
| "reader num R_Sleep s = Some (R_Enter, s)"

fun rw_proc_step :: "rw_proc \<Rightarrow> rw_state \<Rightarrow> (rw_proc \<times> rw_state) option" where
  "rw_proc_step (Writer n pc) s = map_option (map_prod (Writer n) id) (writer n pc s)"
| "rw_proc_step (Reader n pc) s = map_option (map_prod (Reader n) id) (reader n pc s)"

definition rw_exec :: "nat \<Rightarrow> rw_state \<Rightarrow> rw_state option" where
  "rw_exec i s =
     (if rw_killed s \<or> length (rw_procs s) \<le> i then None
      else map_option (\<lambda>(p, t). t\<lparr>rw_procs := (rw_procs t)[i := p]\<rparr>)
             (rw_proc_step (rw_procs s ! i) s))"

section \<open>The parent: fork, detach, wait\<close>

text \<open>
  \<open>ok\<close> is whether the system call of the step succeeds. A failed \<open>fork\<close> sends SIGKILL to the
  whole process group, the parent included. The children never exit, so \<open>wait\<close> never returns.
\<close>

definition make_writer :: "bool \<Rightarrow> nat \<Rightarrow> rw_state \<Rightarrow> rw_state" where
  "make_writer ok i s =
     (if ok then s\<lparr>rw_procs := rw_procs s @ [Writer i W_Enter], rw_parent := P_Writers (Suc i)\<rparr>
      else s\<lparr>rw_killed := True\<rparr>)"

definition make_reader :: "bool \<Rightarrow> nat \<Rightarrow> rw_state \<Rightarrow> rw_state" where
  "make_reader ok i s =
     (if ok then s\<lparr>rw_procs := rw_procs s @ [Reader i R_Enter], rw_parent := P_Readers (Suc i)\<rparr>
      else s\<lparr>rw_killed := True\<rparr>)"

fun rw_parent_at :: "parent_pc \<Rightarrow> bool \<Rightarrow> rw_state \<Rightarrow> rw_state option" where
  "rw_parent_at (P_Writers i) ok s =
     Some (if i < WRITERS then make_writer ok i s else s\<lparr>rw_parent := P_Readers 0\<rparr>)"
| "rw_parent_at (P_Readers i) ok s =
     Some (if i < READERS then make_reader ok i s else s\<lparr>rw_parent := P_Shmdt\<rparr>)"
| "rw_parent_at P_Shmdt ok s = Some (s\<lparr>rw_parent := (if ok then P_Wait 0 else P_Exit 1)\<rparr>)"
| "rw_parent_at (P_Wait k) ok s =
     (if k < WRITERS + READERS then None else Some (s\<lparr>rw_parent := P_Rmid\<rparr>))"
| "rw_parent_at P_Rmid ok s = Some (s\<lparr>rw_parent := P_Exit (if ok then 0 else 1)\<rparr>)"
| "rw_parent_at (P_Exit c) ok s = None"

definition rw_parent_exec :: "bool \<Rightarrow> rw_state \<Rightarrow> rw_state option" where
  "rw_parent_exec ok s = (if rw_killed s then None else rw_parent_at (rw_parent s) ok s)"

inductive rw_step :: "rw_state \<Rightarrow> rw_state \<Rightarrow> bool" where
  rw_child: "rw_exec i s = Some t \<Longrightarrow> rw_step s t"
| rw_par: "rw_parent_exec ok s = Some t \<Longrightarrow> rw_step s t"

text \<open>
  The part of \<open>main\<close> before the first fork: each call that fails ends the program with a message.
\<close>

record rw_env =
  shmget_ok :: bool
  shmat_ok :: bool
  semget_ok :: bool
  setval_ok :: "nat \<Rightarrow> bool"

definition rw_main :: "rw_env \<Rightarrow> string + rw_state" where
  "rw_main e =
     (if \<not> shmget_ok e then Inl ''!!! Unable to create a shared area.''
      else if \<not> shmat_ok e then Inl ''!!! Can't attach memory''
      else if \<not> semget_ok e then Inl ''!!! Unable to create a semaphore.''
      else if \<not> setval_ok e SEM_AW \<or> \<not> setval_ok e SEM_WW \<or>
              \<not> setval_ok e SEM_AR \<or> \<not> setval_ok e SEM_WR
      then Inl ''!!! Can't set control semaphors.''
      else Inr \<lparr>rw_sems = replicate SEM_N 0, rw_shm = 0, rw_out = [], rw_procs = [],
                rw_parent = P_Writers 0, rw_killed = False\<rparr>)"

definition rw_init :: "rw_state \<Rightarrow> bool" where
  "rw_init s \<longleftrightarrow> (\<exists>e. rw_main e = Inr s)"

abbreviation rw_reachable :: "rw_state \<Rightarrow> bool" where
  "rw_reachable \<equiv> reachable rw_init rw_step"

section \<open>What the semaphore tables do\<close>

lemma semop_start_write:
  assumes "0 \<le> aw" "0 \<le> ar"
  shows "semop [aw, 0, ar, 0] start_write =
           (if aw = 0 \<and> ar = 0 then Sem_ok [1, 0, 0, 0] else Sem_block)"
proof (cases "aw < SEMVMX")
  case True
  with assms sysv.announce_and_enter [of SEM_WW "[aw, 0, ar, 0]" SEM_AW SEM_AR SEM_AW]
  show ?thesis by (simp add: cfg_defs SEMVMX_def)
qed (simp add: semop_def cfg_defs Let_def SEMVMX_def sem_wait_outcome_def nowait_def)

lemma semop_start_read:
  assumes "0 \<le> aw" "0 \<le> ar" "ar < SEMVMX"
  shows "semop [aw, 0, ar, 0] start_read =
           (if aw = 0 then Sem_ok [0, 0, ar + 1, 0] else Sem_block)"
  using assms sysv.announce_and_enter [of SEM_WR "[aw, 0, ar, 0]" SEM_WW SEM_AW SEM_AR]
  by (simp add: cfg_defs SEMVMX_def)

lemma semop_stop_write:
  assumes "0 < aw" "aw \<le> SEMVMX"
  shows "semop [aw, 0, ar, 0] stop_write = Sem_ok [aw - 1, 0, ar, 0]"
  using assms sysv.acquire_one [of SEM_AW "[aw, 0, ar, 0]"] by (simp add: cfg_defs)

lemma semop_stop_read:
  assumes "0 < ar" "ar \<le> SEMVMX"
  shows "semop [aw, 0, ar, 0] stop_read = Sem_ok [aw, 0, ar - 1, 0]"
  using assms sysv.acquire_one [of SEM_AR "[aw, 0, ar, 0]"] by (simp add: cfg_defs)

section \<open>The invariant\<close>

fun in_write :: "rw_proc \<Rightarrow> int" where
  "in_write (Writer n W_Enter) = 0"
| "in_write (Writer n W_Sleep) = 0"
| "in_write (Writer n pc) = 1"
| "in_write (Reader n pc) = 0"

fun in_read :: "rw_proc \<Rightarrow> int" where
  "in_read (Reader n R_Print) = 1"
| "in_read (Reader n R_Leave) = 1"
| "in_read p = 0"

fun stored :: "rw_proc \<Rightarrow> int" where
  "stored (Writer n W_Print) = 1"
| "stored p = 0"

fun register_ok :: "32 word \<Rightarrow> rw_proc \<Rightarrow> bool" where
  "register_ok v (Writer n (W_Store r)) = (r = v)"
| "register_ok v p = True"

text \<open>
  The output read as a history: the \<open>k\<close>-th write prints \<open>k\<close>, and a read prints how many writes
  were printed before it.
\<close>

fun history_ok :: "nat \<Rightarrow> rw_event list \<Rightarrow> bool" where
  "history_ok k [] = True"
| "history_ok k (Wrote n v # es) = (v = of_nat (Suc k) \<and> history_ok (Suc k) es)"
| "history_ok k (Has_Read n v # es) = (v = of_nat k \<and> history_ok k es)"

fun n_wrote :: "rw_event list \<Rightarrow> nat" where
  "n_wrote [] = 0"
| "n_wrote (Wrote n v # es) = Suc (n_wrote es)"
| "n_wrote (Has_Read n v # es) = n_wrote es"

lemma n_wrote_append [simp]: "n_wrote (es @ fs) = n_wrote es + n_wrote fs"
  by (induction es rule: n_wrote.induct) auto

lemma history_ok_append [simp]:
  "history_ok k (es @ fs) = (history_ok k es \<and> history_ok (k + n_wrote es) fs)"
  by (induction k es rule: history_ok.induct) auto

fun children_of :: "parent_pc \<Rightarrow> nat \<Rightarrow> bool" where
  "children_of (P_Writers i) n = (i \<le> WRITERS \<and> n = i)"
| "children_of (P_Readers i) n = (i \<le> READERS \<and> n = WRITERS + i)"
| "children_of (P_Wait k) n = (k = 0 \<and> n = WRITERS + READERS)"
| "children_of P_Rmid n = False"
| "children_of pc n = (n = WRITERS + READERS)"

definition rw_excl :: "rw_proc list \<Rightarrow> bool" where
  "rw_excl ps \<longleftrightarrow>
     tally in_write ps = 0 \<or> tally in_write ps = 1 \<and> tally in_read ps = 0"

definition rw_inv :: "rw_state \<Rightarrow> bool" where
  "rw_inv s \<longleftrightarrow>
     rw_sems s = [tally in_write (rw_procs s), 0, tally in_read (rw_procs s), 0] \<and>
     rw_excl (rw_procs s) \<and>
     children_of (rw_parent s) (length (rw_procs s)) \<and>
     rw_shm s = of_nat (n_wrote (rw_out s) + nat (tally stored (rw_procs s))) \<and>
     (\<forall>p \<in> set (rw_procs s). register_ok (rw_shm s) p) \<and>
     history_ok 0 (rw_out s)"

lemma in_write_range [simp]: "0 \<le> in_write p" "in_write p \<le> 1"
  by (cases p rule: in_write.cases; simp)+

lemma in_read_range [simp]: "0 \<le> in_read p" "in_read p \<le> 1"
  by (cases p rule: in_read.cases; simp)+

lemma stored_range [simp]: "0 \<le> stored p" "stored p \<le> in_write p"
  by (cases p rule: stored.cases; simp)+

lemma tally_in_write_nonneg [simp]: "0 \<le> tally in_write ps"
  by (intro tally_nonneg) simp

lemma tally_in_read_nonneg [simp]: "0 \<le> tally in_read ps"
  by (intro tally_nonneg) simp

lemma tally_stored_range [simp]: "0 \<le> tally stored ps" "tally stored ps \<le> tally in_write ps"
  by (intro tally_nonneg tally_mono; simp)+

lemma tally_in_read_le: "tally in_read ps \<le> int (length ps)"
  by (intro tally_le_length) simp

lemma children_bound: "children_of pc n \<Longrightarrow> n \<le> 8"
  by (cases pc) (auto simp: WRITERS_def READERS_def)

lemma rw_inv_readers_bound: "rw_inv s \<Longrightarrow> tally in_read (rw_procs s) \<le> 8"
  using tally_in_read_le [of "rw_procs s"] children_bound [of "rw_parent s" "length (rw_procs s)"]
  by (simp add: rw_inv_def)

lemma writer_alone:
  assumes "rw_excl ps" "i < length ps" "in_write (ps ! i) = 1"
  shows "tally in_write ps = 1" "tally in_read ps = 0"
  using tally_ge_one [of in_write i ps] assms by (auto simp: rw_excl_def)

lemma in_write_excludes:
  assumes "rw_excl ps" "i < length ps" "in_write (ps ! i) = 1" "j < length ps" "j \<noteq> i"
  shows "in_write (ps ! j) = 0" "in_read (ps ! j) = 0"
proof -
  have "in_write (ps ! i) + in_write (ps ! j) \<le> tally in_write ps"
    using assms by (intro tally_ge_two) auto
  with writer_alone [OF assms(1-3)] assms(3) show "in_write (ps ! j) = 0"
    using in_write_range(1) [of "ps ! j"] by linarith
  have "in_read (ps ! j) \<le> tally in_read ps" using assms by (intro tally_ge_one) auto
  with writer_alone [OF assms(1-3)] show "in_read (ps ! j) = 0"
    using in_read_range(1) [of "ps ! j"] by linarith
qed

lemma register_ok_idle: "in_write p = 0 \<Longrightarrow> register_ok v p"
  by (cases p rule: in_write.cases) auto

lemma rw_inv_init: "rw_init s \<Longrightarrow> rw_inv s"
  by (auto simp: rw_init_def rw_main_def rw_inv_def rw_excl_def WRITERS_def SEM_N_def
      numeral_eq_Suc split: if_splits)


lemma register_ok_store:
  assumes "\<forall>q \<in> set ps. register_ok u q" "rw_excl ps" "i < length ps" "in_write (ps ! i) = 1"
    and "register_ok v p"
  shows "\<forall>q \<in> set (ps[i := p]). register_ok v q"
  by (rule ball_update_alone [where f = in_write and P = "register_ok u"])
     (use assms writer_alone [OF assms(2-4)] in \<open>auto intro: register_ok_idle\<close>)

text \<open>
  While process \<open>i\<close> is inside its critical section as a writer, no other process has a store
  that is not printed yet.
\<close>

lemma stored_is_own:
  assumes "rw_excl ps" "i < length ps" "in_write (ps ! i) = 1"
  shows "tally stored ps = stored (ps ! i)"
  using writer_alone [OF assms] assms by (intro tally_own [where f = in_write]) auto

lemma rw_inv_writer:
  assumes inv: "rw_inv s" and i: "i < length (rw_procs s)"
    and p: "rw_procs s ! i = Writer n pc" and st: "writer n pc s = Some (pc', t)"
  shows "rw_inv (t\<lparr>rw_procs := (rw_procs t)[i := Writer n pc']\<rparr>)"
proof -
  let ?ps = "rw_procs s"
  have sems: "rw_sems s = [tally in_write ?ps, 0, tally in_read ?ps, 0]"
    and excl: "rw_excl ?ps" and regs: "\<forall>p \<in> set ?ps. register_ok (rw_shm s) p"
    using inv by (auto simp: rw_inv_def)
  note rest = inv [unfolded rw_inv_def]
  note own = writer_alone [OF excl i] stored_is_own [OF excl i]
  have mem: "register_ok (rw_shm s) (Writer n pc)" using regs p i by (metis nth_mem)
  show ?thesis
  proof (cases pc)
    case W_Enter
    with st sems semop_start_write [of "tally in_write ?ps" "tally in_read ?ps"]
    have "tally in_write ?ps = 0" "tally in_read ?ps = 0" "t = s\<lparr>rw_sems := [1, 0, 0, 0]\<rparr>"
      "pc' = W_Load"
      by (auto simp: rw_semop_def split: if_splits)
    moreover from this have "tally stored ?ps = 0" using tally_stored_range [of ?ps] by linarith
    ultimately show ?thesis using i rest W_Enter p ball_update [OF regs, of "Writer n pc'" i]
      by (auto simp: rw_inv_def rw_excl_def tally_update)
  next
    case W_Load
    with i st rest p ball_update [OF regs, of "Writer n pc'" i] show ?thesis
      by (auto simp: rw_inv_def rw_excl_def tally_update)
  next
    case (W_Store r)
    with i st rest p mem own
      register_ok_store [OF regs excl i, of "rw_shm s + 1" "Writer n W_Print"] show ?thesis
      by (auto simp: rw_inv_def rw_excl_def tally_update)
  next
    case W_Print
    with i st rest p own ball_update [OF regs, of "Writer n pc'" i] show ?thesis
      by (auto simp: rw_inv_def rw_excl_def tally_update)
  next
    case W_Leave
    with i st rest p own sems semop_stop_write [of 1 0] ball_update [OF regs, of "Writer n pc'" i] show ?thesis
      by (auto simp: rw_inv_def rw_excl_def tally_update rw_semop_def SEMVMX_def)
  next
    case W_Sleep
    with i st rest p ball_update [OF regs, of "Writer n pc'" i] show ?thesis
      by (auto simp: rw_inv_def rw_excl_def tally_update)
  qed
qed

lemma rw_inv_reader:
  assumes inv: "rw_inv s" and i: "i < length (rw_procs s)"
    and p: "rw_procs s ! i = Reader n pc" and st: "reader n pc s = Some (pc', t)"
  shows "rw_inv (t\<lparr>rw_procs := (rw_procs t)[i := Reader n pc']\<rparr>)"
proof -
  let ?ps = "rw_procs s"
  have sems: "rw_sems s = [tally in_write ?ps, 0, tally in_read ?ps, 0]"
    and excl: "rw_excl ?ps" and regs: "\<forall>p \<in> set ?ps. register_ok (rw_shm s) p"
    using inv by (auto simp: rw_inv_def)
  note rest = inv [unfolded rw_inv_def]
  have bound: "tally in_read ?ps < SEMVMX"
    using rw_inv_readers_bound [OF inv] by (simp add: SEMVMX_def)
  have own: "in_read (?ps ! i) \<le> tally in_read ?ps" using i by (intro tally_ge_one) auto
  show ?thesis
  proof (cases pc)
    case R_Enter
    with st sems bound semop_start_read [of "tally in_write ?ps" "tally in_read ?ps"]
    have "tally in_write ?ps = 0" "pc' = R_Print"
      "t = s\<lparr>rw_sems := [0, 0, tally in_read ?ps + 1, 0]\<rparr>"
      by (auto simp: rw_semop_def split: if_splits)
    with i rest R_Enter p ball_update [OF regs, of "Reader n pc'" i] show ?thesis
      by (auto simp: rw_inv_def rw_excl_def tally_update)
  next
    case R_Print
    with own p have "0 < tally in_read ?ps" by simp
    with excl have "tally in_write ?ps = 0" by (auto simp: rw_excl_def)
    then have "tally stored ?ps = 0" using tally_stored_range [of ?ps] by linarith
    with R_Print i st rest p ball_update [OF regs, of "Reader n pc'" i] show ?thesis
      by (auto simp: rw_inv_def rw_excl_def tally_update)
  next
    case R_Leave
    with own p have pos: "0 < tally in_read ?ps" by simp
    with excl have "tally in_write ?ps = 0" by (auto simp: rw_excl_def)
    with R_Leave i st rest p sems bound pos ball_update [OF regs, of "Reader n pc'" i]
      semop_stop_read [of "tally in_read ?ps" "tally in_write ?ps"] show ?thesis
      by (auto simp: rw_inv_def rw_excl_def tally_update rw_semop_def)
  next
    case R_Sleep
    with i st rest p ball_update [OF regs, of "Reader n pc'" i] show ?thesis
      by (auto simp: rw_inv_def rw_excl_def tally_update)
  qed
qed

lemma rw_inv_exec: "rw_inv s \<Longrightarrow> rw_exec i s = Some t \<Longrightarrow> rw_inv t"
  by (cases "rw_procs s ! i")
     (auto simp: rw_exec_def map_prod_def split: if_splits
       intro: rw_inv_writer rw_inv_reader)

lemma rw_inv_parent: "rw_inv s \<Longrightarrow> rw_parent_exec ok s = Some t \<Longrightarrow> rw_inv t"
  by (cases "rw_parent s")
     (auto simp: rw_parent_exec_def make_writer_def make_reader_def rw_inv_def rw_excl_def
       WRITERS_def READERS_def split: if_splits)

inductive_cases rw_stepE: "rw_step s t"

lemma rw_inv_step: "rw_inv s \<Longrightarrow> rw_step s t \<Longrightarrow> rw_inv t"
  by (auto elim: rw_stepE intro: rw_inv_exec rw_inv_parent)

interpretation rw: invariant rw_init rw_step rw_inv
  by unfold_locales (blast intro: rw_inv_init rw_inv_step)+

section \<open>Schedules\<close>

text \<open>
  A schedule names who moves next; running it is executable, and its result is reachable.
\<close>

datatype rw_choice = Child nat | Parent bool

fun rw_choose :: "rw_choice \<Rightarrow> rw_state \<Rightarrow> rw_state option" where
  "rw_choose (Child i) s = rw_exec i s"
| "rw_choose (Parent ok) s = rw_parent_exec ok s"

fun rw_sched :: "rw_choice list \<Rightarrow> rw_state \<Rightarrow> rw_state option" where
  "rw_sched [] s = Some s"
| "rw_sched (c # cs) s = Option.bind (rw_choose c s) (rw_sched cs)"

lemma rw_sched_reachable: "rw_reachable s \<Longrightarrow> rw_sched cs s = Some t \<Longrightarrow> rw_reachable t"
proof (induction cs arbitrary: s)
  case (Cons c cs)
  then obtain u where u: "rw_choose c s = Some u" "rw_sched cs u = Some t"
    by (auto split: bind_splits)
  then have "rw_step s u" by (cases c) (auto intro: rw_step.intros)
  with Cons u show ?case by (blast intro: reach_step)
qed simp

definition rw_all_ok :: rw_env where
  "rw_all_ok = \<lparr>shmget_ok = True, shmat_ok = True, semget_ok = True, setval_ok = (\<lambda>_. True)\<rparr>"

definition rw_start :: rw_state where
  "rw_start = \<lparr>rw_sems = [0, 0, 0, 0], rw_shm = 0, rw_out = [], rw_procs = [],
               rw_parent = P_Writers 0, rw_killed = False\<rparr>"

lemma rw_start_init: "rw_init rw_start"
  unfolding rw_init_def
  by (rule exI [of _ rw_all_ok])
     (simp add: rw_main_def rw_all_ok_def rw_start_def SEM_N_def numeral_eq_Suc)

text \<open>All processes are created and the parent waits.\<close>

definition rw_forked :: rw_state where
  "rw_forked = rw_start\<lparr>rw_procs := map (\<lambda>i. Writer i W_Enter) [0, 1, 2, 3] @
                                    map (\<lambda>i. Reader i R_Enter) [0, 1, 2, 3],
                        rw_parent := P_Wait 0\<rparr>"

lemmas rw_run_simps =
  rw_exec_def rw_parent_exec_def make_writer_def make_reader_def WRITERS_def READERS_def
  rw_semop_def semop_start_write semop_start_read semop_stop_write semop_stop_read SEMVMX_def

lemma rw_forked_reachable: "rw_reachable rw_forked"
proof (rule rw_sched_reachable)
  show "rw_reachable rw_start" by (rule reach_init) (rule rw_start_init)
  show "rw_sched (replicate 11 (Parent True)) rw_start = Some rw_forked"
    by (simp add: numeral_eq_Suc rw_run_simps rw_start_def rw_forked_def)
qed

section \<open>Properties\<close>

text \<open>C1: mutual exclusion. In every reachable state of the program, while one process is
  between \<open>semop(start_write)\<close> and \<open>semop(stop_write)\<close>, no other process is inside a write
  section or a read section.\<close>

theorem rw_mutual_exclusion:
  assumes "rw_reachable s" and "i < length (rw_procs s)" and "j < length (rw_procs s)"
    and "i \<noteq> j" and "in_write (rw_procs s ! i) = 1"
  shows "in_write (rw_procs s ! j) = 0 \<and> in_read (rw_procs s ! j) = 0"
proof -
  from assms(1) have "rw_excl (rw_procs s)"
    by (auto dest!: rw.reachable_inv simp: rw_inv_def)
  then show ?thesis using assms in_write_excludes [of "rw_procs s" i j] by metis
qed

lemma rw_writing_reachable:
  "rw_reachable (rw_forked\<lparr>rw_sems := [1, 0, 0, 0],
                          rw_procs := (rw_procs rw_forked)[0 := Writer 0 W_Load]\<rparr>)"
  by (rule rw_sched_reachable [OF rw_forked_reachable, of "[Child 0]"])
     (simp add: rw_forked_def rw_start_def rw_run_simps)

theorem rw_mutual_exclusion_witness:
  "in_write (Writer 0 W_Load) = 1 \<and> in_write (Writer 1 W_Enter) = 0 \<and> in_read (Writer 1 W_Enter) = 0"
  using rw_mutual_exclusion [OF rw_writing_reachable, of 0 1]
  by (simp add: rw_forked_def rw_start_def)

text \<open>C2: no increment is lost. In every reachable state the numbers printed so far are exactly
  those of a counter accessed one operation at a time: the \<open>k\<close>-th write of all writers together
  prints \<open>k\<close>, and a reader prints how many writes were printed before it.\<close>

theorem rw_history: "rw_reachable s \<Longrightarrow> history_ok 0 (rw_out s)"
  by (auto dest!: rw.reachable_inv simp: rw_inv_def)

definition rw_two_writes :: "rw_choice list" where
  "rw_two_writes = replicate 5 (Child 0) @ replicate 5 (Child 1) @ replicate 2 (Child 4)"

lemma rw_two_writes_run:
  "\<exists>t. rw_sched rw_two_writes rw_forked = Some t \<and>
       rw_out t = [Wrote 0 1, Wrote 1 2, Has_Read 0 2]"
  by (simp add: rw_two_writes_def numeral_eq_Suc rw_run_simps rw_start_def rw_forked_def)

theorem rw_history_witness:
  "\<exists>s. rw_reachable s \<and> rw_out s = [Wrote 0 1, Wrote 1 2, Has_Read 0 2] \<and> history_ok 0 (rw_out s)"
proof -
  obtain t where t: "rw_sched rw_two_writes rw_forked = Some t"
    "rw_out t = [Wrote 0 1, Wrote 1 2, Has_Read 0 2]"
    using rw_two_writes_run by blast
  have "rw_reachable t" by (rule rw_sched_reachable [OF rw_forked_reachable t(1)])
  with t(2) rw_history [of t] show ?thesis by blast
qed

text \<open>The waiting counters never show. In every reachable state the semaphores of the waiting
  writers and the waiting readers are zero, because each table raises and lowers its counter in one
  atomic \<open>semop\<close>; so a reader is admitted exactly when no writer is writing, however many writers
  wait.\<close>

theorem rw_waiting_invisible:
  assumes "rw_reachable s"
  shows "rw_sems s ! SEM_WW = 0 \<and> rw_sems s ! SEM_WR = 0 \<and>
         (semop (rw_sems s) start_read \<noteq> Sem_block \<longleftrightarrow> tally in_write (rw_procs s) = 0)"
proof -
  let ?ps = "rw_procs s"
  from assms have inv: "rw_inv s" by (rule rw.reachable_inv)
  then have sems: "rw_sems s = [tally in_write ?ps, 0, tally in_read ?ps, 0]"
    by (simp add: rw_inv_def)
  have "tally in_read ?ps < SEMVMX"
    using rw_inv_readers_bound [OF inv] by (simp add: SEMVMX_def)
  with sems semop_start_read [of "tally in_write ?ps" "tally in_read ?ps"] show ?thesis
    by (simp add: cfg_defs)
qed

theorem rw_waiting_invisible_witness:
  "rw_sems rw_forked ! SEM_WW = 0 \<and> semop (rw_sems rw_forked) start_read \<noteq> Sem_block"
  using rw_waiting_invisible [OF rw_forked_reachable] by (simp add: rw_forked_def)

lemma rw_idle_enabled:
  assumes inv: "rw_inv s" and ps: "rw_procs s \<noteq> []"
    and idle: "tally in_write (rw_procs s) = 0" "tally in_read (rw_procs s) = 0"
  shows "rw_proc_step (rw_procs s ! 0) s \<noteq> None"
proof (cases "rw_procs s ! 0")
  case (Writer n pc)
  with inv ps idle tally_ge_one [of in_write 0 "rw_procs s"] show ?thesis
    by (cases pc) (auto simp: rw_inv_def rw_semop_def semop_start_write)
next
  case (Reader n pc)
  with inv ps idle tally_ge_one [of in_read 0 "rw_procs s"] show ?thesis
    by (cases pc) (auto simp: rw_inv_def rw_semop_def semop_start_read SEMVMX_def)
qed

lemma rw_busy_enabled:
  assumes inv: "rw_inv s" and i: "i < length (rw_procs s)"
    and busy: "0 < in_write (rw_procs s ! i) + in_read (rw_procs s ! i)"
  shows "rw_proc_step (rw_procs s ! i) s \<noteq> None"
proof -
  have bound: "tally in_read (rw_procs s) < SEMVMX"
    using rw_inv_readers_bound [OF inv] by (simp add: SEMVMX_def)
  have own: "in_write (rw_procs s ! i) \<le> tally in_write (rw_procs s)"
    "in_read (rw_procs s ! i) \<le> tally in_read (rw_procs s)"
    using i by (auto intro: tally_ge_one)
  show ?thesis
  proof (cases "rw_procs s ! i")
    case (Writer n pc)
    with inv own busy show ?thesis
      by (cases pc) (auto simp: rw_inv_def rw_semop_def rw_excl_def semop_stop_write SEMVMX_def)
  next
    case (Reader n pc)
    with inv own busy bound show ?thesis
      by (cases pc) (auto simp: rw_inv_def rw_semop_def semop_stop_read)
  qed
qed

text \<open>C3: no deadlock. In every reachable state in which a child exists and the process group has
  not been killed, some child can execute its next statement.\<close>

theorem rw_no_deadlock:
  assumes "rw_reachable s" and "rw_procs s \<noteq> []" and "\<not> rw_killed s"
  shows "\<exists>i t. rw_exec i s = Some t"
proof -
  let ?ps = "rw_procs s"
  from assms(1) have inv: "rw_inv s" by (rule rw.reachable_inv)
  have "\<exists>i < length ?ps. rw_proc_step (?ps ! i) s \<noteq> None"
  proof (cases "tally in_write ?ps = 0 \<and> tally in_read ?ps = 0")
    case True
    with inv assms(2) rw_idle_enabled show ?thesis by blast
  next
    case False
    then have "0 < tally (\<lambda>p. in_write p + in_read p) ?ps"
      by (simp add: tally_sum order_less_le add_nonneg_eq_0_iff)
    then show ?thesis using tally_pos_ex rw_busy_enabled [OF inv] by blast
  qed
  then obtain i p t where "i < length ?ps" "rw_proc_step (?ps ! i) s = Some (p, t)" by auto
  with assms(3) have "rw_exec i s = Some (t\<lparr>rw_procs := (rw_procs t)[i := p]\<rparr>)"
    by (simp add: rw_exec_def)
  then show ?thesis by blast
qed

theorem rw_no_deadlock_witness: "\<exists>i t. rw_exec i rw_forked = Some t"
  by (rule rw_no_deadlock [OF rw_forked_reachable]) (simp_all add: rw_forked_def rw_start_def)

text \<open>
  Two readers that overlap: reader 0 is inside; reader 1 enters and prints, reader 0 leaves, comes
  back and prints, reader 1 leaves and is about to come back. The state is as before, with two
  more lines printed.
\<close>

definition rw_overlap :: "rw_choice list" where
  "rw_overlap = [Child 5, Child 5, Child 4, Child 4, Child 4, Child 4, Child 5, Child 5]"

text \<open>Process \<open>w\<close> cannot move in any state of the run of a schedule, which runs to its end.\<close>

fun starved :: "nat \<Rightarrow> rw_choice list \<Rightarrow> rw_state \<Rightarrow> bool" where
  "starved w [] s = (rw_exec w s = None)"
| "starved w (c # cs) s =
     (rw_exec w s = None \<and> (case rw_choose c s of None \<Rightarrow> False | Some t \<Rightarrow> starved w cs t))"

lemma starved_append:
  "starved w (cs @ ds) s \<longleftrightarrow> starved w cs s \<and> (\<forall>t. rw_sched cs s = Some t \<longrightarrow> starved w ds t)"
  by (induction cs arbitrary: s) (auto split: option.splits bind_splits elim: starved.elims)

definition rw_reading :: "rw_event list \<Rightarrow> rw_state" where
  "rw_reading out = rw_forked\<lparr>rw_sems := [0, 0, 1, 0], rw_out := out,
     rw_procs := (rw_procs rw_forked)[4 := Reader 0 R_Leave]\<rparr>"

lemma rw_overlap_run:
  "rw_sched rw_overlap (rw_reading out) =
     Some (rw_reading (out @ [Has_Read 1 0, Has_Read 0 0]))"
  "starved 0 rw_overlap (rw_reading out)"
  by (simp_all add: rw_overlap_def rw_reading_def rw_forked_def rw_start_def rw_run_simps
      numeral_eq_Suc)

lemma rw_overlap_repeats: "starved 0 (concat (replicate n rw_overlap)) (rw_reading out)"
proof (induction n arbitrary: out)
  case 0
  then show ?case
    by (simp add: rw_reading_def rw_forked_def rw_start_def rw_run_simps)
next
  case (Suc n)
  then show ?case by (simp add: starved_append rw_overlap_run)
qed

lemma rw_reading_reachable: "rw_reachable (rw_reading [Has_Read 0 0])"
  by (rule rw_sched_reachable [OF rw_forked_reachable, of "[Child 4, Child 4]"])
     (simp add: rw_reading_def rw_forked_def rw_start_def rw_run_simps)

text \<open>C4: a waiting writer can be kept out for ever. There is a reachable state with a writer at its
  \<open>semop(start_write)\<close> and a schedule of two overlapping readers that, repeated any number of times,
  always runs and never leaves the writer's \<open>semop\<close> able to complete.\<close>

theorem rw_writer_starves:
  "\<exists>s. rw_reachable s \<and> rw_procs s ! 0 = Writer 0 W_Enter \<and>
       (\<forall>n. starved 0 (concat (replicate n rw_overlap)) s)"
proof (intro exI conjI)
  show "rw_reachable (rw_reading [Has_Read 0 0])" by (rule rw_reading_reachable)
  show "rw_procs (rw_reading [Has_Read 0 0]) ! 0 = Writer 0 W_Enter"
    by (simp add: rw_reading_def rw_forked_def)
  show "\<forall>n. starved 0 (concat (replicate n rw_overlap)) (rw_reading [Has_Read 0 0])"
    by (intro allI rw_overlap_repeats)
qed

end
