(* ===== verification/Producer_Consumer.thy ===== *)
theory Producer_Consumer
  imports SysV_Sem
begin

text \<open>
  The producers and consumers of \<open>5-semestr/lab5/task1.c\<close>: three producers put three letters
  each into a buffer in a shared memory segment, two consumers take four and five of them; the
  semaphores \<open>SEM_BINARY\<close>, \<open>SEM_EMPTY\<close> and \<open>SEM_FULL\<close> guard the buffer. The accesses of one
  statement (the position and the cell it selects, lines 42, 43 and 58) are one step, the load and the store of
  an increment are two; all of them lie between the operations on \<open>SEM_BINARY\<close>. An access outside the segment kills
  the process.
\<close>

section \<open>Constants, layout of the segment, semaphore tables\<close>

definition pc_N :: int where "pc_N = 9"
definition sizeof_int :: int where "sizeof_int = 4"

text \<open>Bytes asked of \<open>shmget\<close>.\<close>

definition shm_size :: int where
  "shm_size = (pc_N + 2) * sizeof_int"

text \<open>
  The segment is a list of \<open>int\<close> cells. \<open>shm_attached_address\<close> is an \<open>int *\<close>, so adding
  \<open>sizeof (int)\<close> to it moves by four cells, not by four bytes.
\<close>

definition shm_pos_producer :: int where "shm_pos_producer = 0"
definition shm_pos_consumer :: int where "shm_pos_consumer = sizeof_int"
definition shm_buffer :: int where "shm_buffer = 2 * sizeof_int"

definition SEM_BINARY :: nat where "SEM_BINARY = 0"
definition SEM_EMPTY :: nat where "SEM_EMPTY = 1"
definition SEM_FULL :: nat where "SEM_FULL = 2"
definition op_P :: int where "op_P = -1"
definition op_V :: int where "op_V = 1"

definition producer_start :: "sembuf list" where
  "producer_start = [\<lparr>sem_num = SEM_EMPTY, sem_op = op_P, sem_flg = 0\<rparr>,
                     \<lparr>sem_num = SEM_BINARY, sem_op = op_P, sem_flg = 0\<rparr>]"

definition producer_stop :: "sembuf list" where
  "producer_stop = [\<lparr>sem_num = SEM_BINARY, sem_op = op_V, sem_flg = 0\<rparr>,
                    \<lparr>sem_num = SEM_FULL, sem_op = op_V, sem_flg = 0\<rparr>]"

definition consumer_start :: "sembuf list" where
  "consumer_start = [\<lparr>sem_num = SEM_FULL, sem_op = op_P, sem_flg = 0\<rparr>,
                     \<lparr>sem_num = SEM_BINARY, sem_op = op_P, sem_flg = 0\<rparr>]"

definition consumer_stop :: "sembuf list" where
  "consumer_stop = [\<lparr>sem_num = SEM_BINARY, sem_op = op_V, sem_flg = 0\<rparr>,
                    \<lparr>sem_num = SEM_EMPTY, sem_op = op_V, sem_flg = 0\<rparr>]"

lemmas pc_table_defs [cfg_defs] =
  producer_start_def producer_stop_def consumer_start_def consumer_stop_def
  SEM_BINARY_def SEM_EMPTY_def SEM_FULL_def op_P_def op_V_def

section \<open>State\<close>

datatype status = Exited nat | Segv

datatype prod_pc =
  Pr_Loop | Pr_Start | Pr_Put | Pr_Print | Pr_Out | Pr_Load | Pr_Store int | Pr_Stop | Pr_Done status

datatype cons_pc =
  Co_Loop | Co_Start | Co_Print | Co_Load | Co_Store int | Co_Stop | Co_Done status

text \<open>
  A producer: its number, its program counter, the iterations left and its own copy of the global
  variable \<open>output\<close>; every child has a copy, since \<open>fork\<close> copies the parent's memory.
\<close>

datatype pc_proc = Producer nat prod_pc nat int | Consumer nat cons_pc nat

datatype pc_event = Produced nat int int | Consumed nat int int

datatype pc_parent = F_Fork nat | F_Wait nat | F_Shmdt | F_Exit nat

record pc_env =
  env_shmget :: bool
  env_shmat :: bool
  env_semget :: bool
  env_semctl :: "nat \<Rightarrow> bool"
  env_cells :: nat
  env_fork :: "nat \<Rightarrow> bool"
  env_shmdt :: bool

record pc_state =
  pc_sems :: semset
  pc_seg :: "int list"
  pc_out :: "pc_event list"
  pc_procs :: "pc_proc list"
  pc_parent :: pc_parent
  pc_env_of :: pc_env

section \<open>The processes\<close>

text \<open>
  Results of one statement: the process goes on (with the new shared state), waits, exits or is
  killed by a fault.
\<close>

datatype 'pc move = Go 'pc pc_state | Stuck

definition pc_semop :: "sembuf list \<Rightarrow> 'pc \<Rightarrow> 'pc \<Rightarrow> pc_state \<Rightarrow> 'pc move" where
  "pc_semop bs ok failed s =
     (case semop (pc_sems s) bs of
        Sem_ok v \<Rightarrow> Go ok (s\<lparr>pc_sems := v\<rparr>)
      | Sem_block \<Rightarrow> Stuck
      | Sem_err e \<Rightarrow> Go failed s)"

definition EXIT_FAILURE :: nat where "EXIT_FAILURE = 1"
definition EXIT_SUCCESS :: nat where "EXIT_SUCCESS = 0"

fun producer :: "nat \<Rightarrow> nat \<Rightarrow> int \<Rightarrow> prod_pc \<Rightarrow> pc_state \<Rightarrow> prod_pc move" where
  "producer pid left out Pr_Loop s =
     Go (if left = 0 then Pr_Done (Exited EXIT_SUCCESS) else Pr_Start) s"
| "producer pid left out Pr_Start s =
     pc_semop producer_start Pr_Put (Pr_Done (Exited EXIT_FAILURE)) s"
| "producer pid left out Pr_Put s =
     (case load (pc_seg s) shm_pos_producer of
        Inl e \<Rightarrow> Go (Pr_Done Segv) s
      | Inr p \<Rightarrow> (case store (pc_seg s) (shm_buffer + p) (to_s8 out) of
                   Inl e \<Rightarrow> Go (Pr_Done Segv) s
                 | Inr g \<Rightarrow> Go Pr_Print (s\<lparr>pc_seg := g\<rparr>)))"
| "producer pid left out Pr_Print s =
     (case load (pc_seg s) shm_pos_producer of
        Inl e \<Rightarrow> Go (Pr_Done Segv) s
      | Inr p \<Rightarrow> (case load (pc_seg s) (shm_buffer + p) of
                   Inl e \<Rightarrow> Go (Pr_Done Segv) s
                 | Inr c \<Rightarrow> Go Pr_Out (s\<lparr>pc_out := pc_out s @ [Produced pid p c]\<rparr>)))"
| "producer pid left out Pr_Out s = Go Pr_Load s"
| "producer pid left out Pr_Load s =
     (case load (pc_seg s) shm_pos_producer of
        Inl e \<Rightarrow> Go (Pr_Done Segv) s | Inr p \<Rightarrow> Go (Pr_Store p) s)"
| "producer pid left out (Pr_Store r) s =
     (case store (pc_seg s) shm_pos_producer (r + 1) of
        Inl e \<Rightarrow> Go (Pr_Done Segv) s | Inr g \<Rightarrow> Go Pr_Stop (s\<lparr>pc_seg := g\<rparr>))"
| "producer pid left out Pr_Stop s =
     pc_semop producer_stop Pr_Loop (Pr_Done (Exited EXIT_FAILURE)) s"
| "producer pid left out (Pr_Done st) s = Stuck"

fun consumer :: "nat \<Rightarrow> nat \<Rightarrow> cons_pc \<Rightarrow> pc_state \<Rightarrow> cons_pc move" where
  "consumer pid left Co_Loop s =
     Go (if left = 0 then Co_Done (Exited EXIT_SUCCESS) else Co_Start) s"
| "consumer pid left Co_Start s =
     pc_semop consumer_start Co_Print (Co_Done (Exited EXIT_FAILURE)) s"
| "consumer pid left Co_Print s =
     (case load (pc_seg s) shm_pos_consumer of
        Inl e \<Rightarrow> Go (Co_Done Segv) s
      | Inr p \<Rightarrow> (case load (pc_seg s) (shm_buffer + p) of
                   Inl e \<Rightarrow> Go (Co_Done Segv) s
                 | Inr c \<Rightarrow> Go Co_Load (s\<lparr>pc_out := pc_out s @ [Consumed pid p c]\<rparr>)))"
| "consumer pid left Co_Load s =
     (case load (pc_seg s) shm_pos_consumer of
        Inl e \<Rightarrow> Go (Co_Done Segv) s | Inr p \<Rightarrow> Go (Co_Store p) s)"
| "consumer pid left (Co_Store r) s =
     (case store (pc_seg s) shm_pos_consumer (r + 1) of
        Inl e \<Rightarrow> Go (Co_Done Segv) s | Inr g \<Rightarrow> Go Co_Stop (s\<lparr>pc_seg := g\<rparr>))"
| "consumer pid left Co_Stop s =
     pc_semop consumer_stop Co_Loop (Co_Done (Exited EXIT_FAILURE)) s"
| "consumer pid left (Co_Done st) s = Stuck"

text \<open>
  The loops of \<open>make_producer\<close> and \<open>make_consumer\<close> in the child: an iteration ends when
  the semaphores have been released; \<open>output++\<close> changes the process's own copy.
\<close>

fun pc_proc_step :: "pc_proc \<Rightarrow> pc_state \<Rightarrow> (pc_proc \<times> pc_state) option" where
  "pc_proc_step (Producer pid pc left out) s =
     (case producer pid left out pc s of
        Stuck \<Rightarrow> None
      | Go pc' t \<Rightarrow> Some (Producer pid pc'
          (if pc = Pr_Stop \<and> pc' = Pr_Loop then left - 1 else left)
          (if pc = Pr_Out then out + 1 else out), t))"
| "pc_proc_step (Consumer pid pc left) s =
     (case consumer pid left pc s of
        Stuck \<Rightarrow> None
      | Go pc' t \<Rightarrow> Some (Consumer pid pc'
          (if pc = Co_Stop \<and> pc' = Co_Loop then left - 1 else left), t))"

definition pc_exec :: "nat \<Rightarrow> pc_state \<Rightarrow> pc_state option" where
  "pc_exec i s =
     (if length (pc_procs s) \<le> i then None
      else map_option (\<lambda>(p, t). t\<lparr>pc_procs := (pc_procs t)[i := p]\<rparr>)
             (pc_proc_step (pc_procs s ! i) s))"

section \<open>The parent\<close>

definition output_init :: int where
  "output_init = 97"

definition make_producer :: "nat \<Rightarrow> nat \<Rightarrow> pc_proc" where
  "make_producer pid count = Producer pid Pr_Loop count output_init"

definition make_consumer :: "nat \<Rightarrow> nat \<Rightarrow> pc_proc" where
  "make_consumer pid count = Consumer pid Co_Loop count"

definition pc_children :: "pc_proc list" where
  "pc_children = [make_consumer 0 4, make_consumer 1 5,
                  make_producer 0 3, make_producer 1 3, make_producer 2 3]"

fun proc_done :: "pc_proc \<Rightarrow> int" where
  "proc_done (Producer pid (Pr_Done st) left out) = 1"
| "proc_done (Consumer pid (Co_Done st) left) = 1"
| "proc_done p = 0"

text \<open>\<open>wait\<close> returns when a child has ended that it has not reported yet.\<close>

fun pc_parent_at :: "pc_parent \<Rightarrow> pc_state \<Rightarrow> pc_state option" where
  "pc_parent_at (F_Fork k) s =
     (if k < length pc_children then
        (if env_fork (pc_env_of s) k
         then Some (s\<lparr>pc_procs := pc_procs s @ [pc_children ! k], pc_parent := F_Fork (Suc k)\<rparr>)
         else Some (s\<lparr>pc_parent := F_Exit EXIT_FAILURE\<rparr>))
      else Some (s\<lparr>pc_parent := F_Wait 0\<rparr>))"
| "pc_parent_at (F_Wait k) s =
     (if k < 5 then
        (if int k < tally proc_done (pc_procs s) then Some (s\<lparr>pc_parent := F_Wait (Suc k)\<rparr>) else None)
      else Some (s\<lparr>pc_parent := F_Shmdt\<rparr>))"
| "pc_parent_at F_Shmdt s =
     Some (s\<lparr>pc_parent := F_Exit (if env_shmdt (pc_env_of s) then EXIT_SUCCESS else EXIT_FAILURE)\<rparr>)"
| "pc_parent_at (F_Exit c) s = None"

definition pc_parent_exec :: "pc_state \<Rightarrow> pc_state option" where
  "pc_parent_exec s = pc_parent_at (pc_parent s) s"

inductive pc_step :: "pc_state \<Rightarrow> pc_state \<Rightarrow> bool" where
  pc_child: "pc_exec i s = Some t \<Longrightarrow> pc_step s t"
| pc_par: "pc_parent_exec s = Some t \<Longrightarrow> pc_step s t"

text \<open>
  \<open>main\<close> up to the first fork. \<open>env_cells\<close> is the size of the segment that \<open>shmget\<close> made,
  in cells; a new segment is zero. The test after \<open>shmat\<close> reads the first byte of the segment
  instead of comparing the pointer: after a failed \<open>shmat\<close> it reads through the pointer \<open>-1\<close>.
\<close>

datatype pc_outcome = Pc_exit string | Pc_segv | Pc_running pc_state

definition pc_main :: "pc_env \<Rightarrow> pc_outcome" where
  "pc_main e =
     (if \<not> env_shmget e then Pc_exit ''Unable to create shared area''
      else if \<not> env_shmat e then Pc_segv
      else case store (replicate (env_cells e) 0) shm_pos_producer 0 of Inl x \<Rightarrow> Pc_segv | Inr g \<Rightarrow>
      (case store g shm_pos_consumer 0 of Inl x \<Rightarrow> Pc_segv | Inr g' \<Rightarrow>
       if \<not> env_semget e then Pc_exit ''Unable to create semapthores''
       else if \<not> env_semctl e SEM_BINARY \<or> \<not> env_semctl e SEM_EMPTY \<or> \<not> env_semctl e SEM_FULL
       then Pc_exit ''Cannot set controll semaphores''
       else Pc_running \<lparr>pc_sems = [1, pc_N, 0], pc_seg = g', pc_out = [], pc_procs = [],
                       pc_parent = F_Fork 0, pc_env_of = e\<rparr>))"

definition pc_init :: "pc_state \<Rightarrow> bool" where
  "pc_init s \<longleftrightarrow> pc_main (pc_env_of s) = Pc_running s"

text \<open>
  The kernel rounds a segment up to whole pages, so the segment of the program has 1024 cells
  although it asks for 44 bytes. What the buffer needs is 17 cells.
\<close>

definition pc_init_room :: "pc_state \<Rightarrow> bool" where
  "pc_init_room s \<longleftrightarrow> pc_init s \<and> 17 \<le> env_cells (pc_env_of s)"

abbreviation pc_reachable :: "pc_state \<Rightarrow> bool" where
  "pc_reachable \<equiv> reachable pc_init_room pc_step"

section \<open>What the semaphore tables do\<close>

lemma semop_producer_start:
  assumes "0 \<le> b" "b \<le> SEMVMX" "0 \<le> e" "e \<le> SEMVMX"
  shows "semop [b, e, f] producer_start =
           (if 0 < e \<and> 0 < b then Sem_ok [b - 1, e - 1, f] else Sem_block)"
  using assms sysv.acquire_two [of SEM_EMPTY "[b, e, f]" SEM_BINARY] by (simp add: cfg_defs)

lemma semop_consumer_start:
  assumes "0 \<le> b" "b \<le> SEMVMX" "0 \<le> f" "f \<le> SEMVMX"
  shows "semop [b, e, f] consumer_start =
           (if 0 < f \<and> 0 < b then Sem_ok [b - 1, e, f - 1] else Sem_block)"
  using assms sysv.acquire_two [of SEM_FULL "[b, e, f]" SEM_BINARY] by (simp add: cfg_defs)

lemma semop_producer_stop:
  assumes "0 \<le> b" "b < SEMVMX" "0 \<le> f" "f < SEMVMX"
  shows "semop [b, e, f] producer_stop = Sem_ok [b + 1, e, f + 1]"
  using assms sysv.release_two [of SEM_BINARY "[b, e, f]" SEM_FULL] by (simp add: cfg_defs)

lemma semop_consumer_stop:
  assumes "0 \<le> b" "b < SEMVMX" "0 \<le> e" "e < SEMVMX"
  shows "semop [b, e, f] consumer_stop = Sem_ok [b + 1, e + 1, f]"
  using assms sysv.release_two [of SEM_BINARY "[b, e, f]" SEM_EMPTY] by (simp add: cfg_defs)

section \<open>The invariant\<close>

text \<open>Weights of a process: where it is in its critical section, and what it still has to do.\<close>

fun in_cs :: "pc_proc \<Rightarrow> int" where
  "in_cs (Producer pid Pr_Loop left out) = 0"
| "in_cs (Producer pid Pr_Start left out) = 0"
| "in_cs (Producer pid (Pr_Done st) left out) = 0"
| "in_cs (Producer pid pc left out) = 1"
| "in_cs (Consumer pid Co_Loop left) = 0"
| "in_cs (Consumer pid Co_Start left) = 0"
| "in_cs (Consumer pid (Co_Done st) left) = 0"
| "in_cs (Consumer pid pc left) = 1"

fun item_made :: "pc_proc \<Rightarrow> int" where
  "item_made (Producer pid Pr_Stop left out) = 1"
| "item_made p = 0"

fun slot_freed :: "pc_proc \<Rightarrow> int" where
  "slot_freed (Consumer pid Co_Stop left) = 1"
| "slot_freed p = 0"

fun slot_held :: "pc_proc \<Rightarrow> int" where
  "slot_held (Producer pid pc left out) = in_cs (Producer pid pc left out) - item_made (Producer pid pc left out)"
| "slot_held p = 0"

fun item_held :: "pc_proc \<Rightarrow> int" where
  "item_held (Consumer pid pc left) = in_cs (Consumer pid pc left) - slot_freed (Consumer pid pc left)"
| "item_held p = 0"

fun printed :: "pc_proc \<Rightarrow> int" where
  "printed (Producer pid Pr_Out left out) = 1"
| "printed (Producer pid Pr_Load left out) = 1"
| "printed (Producer pid (Pr_Store r) left out) = 1"
| "printed p = 0"

fun taken :: "pc_proc \<Rightarrow> int" where
  "taken (Consumer pid Co_Load left) = 1"
| "taken (Consumer pid (Co_Store r) left) = 1"
| "taken p = 0"

fun to_put :: "pc_proc \<Rightarrow> int" where
  "to_put (Producer pid pc left out) = int left - item_made (Producer pid pc left out)"
| "to_put p = 0"

fun to_take :: "pc_proc \<Rightarrow> int" where
  "to_take (Consumer pid pc left) = int left - slot_freed (Consumer pid pc left)"
| "to_take p = 0"

fun local_ok :: "int \<Rightarrow> int \<Rightarrow> pc_proc \<Rightarrow> bool" where
  "local_ok pp cp (Producer pid Pr_Loop left out) = True"
| "local_ok pp cp (Producer pid (Pr_Done st) left out) = (left = 0 \<and> st = Exited EXIT_SUCCESS)"
| "local_ok pp cp (Producer pid (Pr_Store r) left out) = (0 < left \<and> r = pp)"
| "local_ok pp cp (Producer pid pc left out) = (0 < left)"
| "local_ok pp cp (Consumer pid Co_Loop left) = True"
| "local_ok pp cp (Consumer pid (Co_Done st) left) = (left = 0 \<and> st = Exited EXIT_SUCCESS)"
| "local_ok pp cp (Consumer pid (Co_Store r) left) = (0 < left \<and> r = cp)"
| "local_ok pp cp (Consumer pid pc left) = (0 < left)"

text \<open>What was printed: positions and letters, in order.\<close>

fun made_log :: "pc_event list \<Rightarrow> (int \<times> int) list" where
  "made_log [] = []"
| "made_log (Produced pid p c # es) = (p, c) # made_log es"
| "made_log (Consumed pid p c # es) = made_log es"

fun taken_log :: "pc_event list \<Rightarrow> (int \<times> int) list" where
  "taken_log [] = []"
| "taken_log (Produced pid p c # es) = taken_log es"
| "taken_log (Consumed pid p c # es) = (p, c) # taken_log es"

lemma made_log_append [simp]: "made_log (es @ fs) = made_log es @ made_log fs"
  by (induction es rule: made_log.induct) auto

lemma taken_log_append [simp]: "taken_log (es @ fs) = taken_log es @ taken_log fs"
  by (induction es rule: taken_log.induct) auto

abbreviation pos_p :: "pc_state \<Rightarrow> int" where "pos_p s \<equiv> pc_seg s ! 0"
abbreviation pos_c :: "pc_state \<Rightarrow> int" where "pos_c s \<equiv> pc_seg s ! 4"

definition sems_inv :: "pc_state \<Rightarrow> bool" where
  "sems_inv s \<longleftrightarrow>
     pc_sems s = [1 - tally in_cs (pc_procs s),
                  pc_N - pos_p s - tally slot_held (pc_procs s) + pos_c s - tally slot_freed (pc_procs s),
                  pos_p s - tally item_made (pc_procs s) - pos_c s - tally item_held (pc_procs s)] \<and>
     tally in_cs (pc_procs s) \<le> 1 \<and> (\<forall>v \<in> set (pc_sems s). 0 \<le> v)"

definition work_inv :: "pc_state \<Rightarrow> bool" where
  "work_inv s \<longleftrightarrow>
     0 \<le> pos_p s \<and> 0 \<le> pos_c s \<and> length (pc_procs s) \<le> 5 \<and>
     pos_p s + tally to_put (pc_procs s) = tally to_put (take (length (pc_procs s)) pc_children) \<and>
     pos_c s + tally to_take (pc_procs s) = tally to_take (take (length (pc_procs s)) pc_children) \<and>
     (\<forall>p \<in> set (pc_procs s). local_ok (pos_p s) (pos_c s) p)"

definition log_inv :: "pc_state \<Rightarrow> bool" where
  "log_inv s \<longleftrightarrow>
     int (length (made_log (pc_out s))) = pos_p s + tally printed (pc_procs s) \<and>
     (\<forall>j < length (made_log (pc_out s)). made_log (pc_out s) ! j = (int j, pc_seg s ! (8 + j))) \<and>
     pos_c s + tally taken (pc_procs s) \<le> pos_p s \<and>
     taken_log (pc_out s) = take (nat (pos_c s + tally taken (pc_procs s))) (made_log (pc_out s))"

fun parent_inv :: "pc_parent \<Rightarrow> pc_state \<Rightarrow> bool" where
  "parent_inv (F_Fork k) s = (length (pc_procs s) = k)"
| "parent_inv (F_Wait k) s = (length (pc_procs s) = 5 \<and> k \<le> 5 \<and> int k \<le> tally proc_done (pc_procs s))"
| "parent_inv F_Shmdt s = (length (pc_procs s) = 5 \<and> tally proc_done (pc_procs s) = 5)"
| "parent_inv (F_Exit c) s =
     (length (pc_procs s) = 5 \<and> tally proc_done (pc_procs s) = 5 \<and>
        c = (if env_shmdt (pc_env_of s) then EXIT_SUCCESS else EXIT_FAILURE) \<or>
      c = EXIT_FAILURE \<and> length (pc_procs s) < 5 \<and> \<not> env_fork (pc_env_of s) (length (pc_procs s)))"

definition pc_inv :: "pc_env \<Rightarrow> pc_state \<Rightarrow> bool" where
  "pc_inv e s \<longleftrightarrow>
     pc_env_of s = e \<and> 17 \<le> length (pc_seg s) \<and> sems_inv s \<and> work_inv s \<and> log_inv s \<and>
     parent_inv (pc_parent s) s"

lemma in_cs_range [simp]: "0 \<le> in_cs p" "in_cs p \<le> 1"
  by (cases p rule: in_cs.cases; simp)+

lemma weights_range [simp]:
  "0 \<le> item_made p" "item_made p \<le> in_cs p" "0 \<le> slot_freed p" "slot_freed p \<le> in_cs p"
  "0 \<le> slot_held p" "slot_held p \<le> in_cs p" "0 \<le> item_held p" "item_held p \<le> in_cs p"
  "0 \<le> printed p" "printed p \<le> in_cs p" "0 \<le> taken p" "taken p \<le> in_cs p"
  "0 \<le> proc_done p" "proc_done p \<le> 1"
  by (cases p rule: in_cs.cases; simp)+

lemma local_ok_outside: "in_cs p = 0 \<Longrightarrow> local_ok a b p \<Longrightarrow> local_ok a' b' p"
  by (cases p rule: in_cs.cases) auto

lemma local_ok_work:
  "local_ok a b p \<Longrightarrow> 0 \<le> to_put p" "local_ok a b p \<Longrightarrow> slot_held p \<le> to_put p"
  "local_ok a b p \<Longrightarrow> 0 \<le> to_take p" "local_ok a b p \<Longrightarrow> item_held p \<le> to_take p"
  by (cases "(a, b, p)" rule: local_ok.cases; simp)+

text \<open>The capacity of the buffer is never exceeded: positions stay below nine.\<close>

lemma children_quota: "k \<le> 5 \<Longrightarrow> tally to_put (take k pc_children) \<le> 9"
  "k \<le> 5 \<Longrightarrow> tally to_take (take k pc_children) \<le> 9"
proof -
  have "k \<le> 5 \<Longrightarrow> k \<in> {0, 1, 2, 3, 4, 5}" by auto
  then show "k \<le> 5 \<Longrightarrow> tally to_put (take k pc_children) \<le> 9"
    "k \<le> 5 \<Longrightarrow> tally to_take (take k pc_children) \<le> 9"
    by (auto simp: pc_children_def make_producer_def make_consumer_def)
qed

lemma work_bounds:
  assumes "work_inv s"
  shows "pos_p s + tally slot_held (pc_procs s) \<le> 9" "pos_c s + tally item_held (pc_procs s) \<le> 9"
proof -
  let ?ps = "pc_procs s"
  have "tally slot_held ?ps \<le> tally to_put ?ps" "tally item_held ?ps \<le> tally to_take ?ps"
    using assms by (auto simp: work_inv_def intro!: tally_mono intro: local_ok_work)
  then show "pos_p s + tally slot_held ?ps \<le> 9" "pos_c s + tally item_held ?ps \<le> 9"
    using assms children_quota [of "length ?ps"] by (auto simp: work_inv_def)
qed

text \<open>What a process may rely on while it is the one in the critical section.\<close>

lemma alone_facts:
  assumes inv: "pc_inv e s" and i: "i < length (pc_procs s)" and cs: "in_cs (pc_procs s ! i) = 1"
  shows "tally in_cs (pc_procs s) = 1"
    and "tally slot_held (pc_procs s) = slot_held (pc_procs s ! i)"
    and "tally item_made (pc_procs s) = item_made (pc_procs s ! i)"
    and "tally item_held (pc_procs s) = item_held (pc_procs s ! i)"
    and "tally slot_freed (pc_procs s) = slot_freed (pc_procs s ! i)"
    and "tally printed (pc_procs s) = printed (pc_procs s ! i)"
    and "tally taken (pc_procs s) = taken (pc_procs s ! i)"
proof -
  have le: "tally in_cs (pc_procs s) \<le> 1" using inv by (simp add: pc_inv_def sems_inv_def)
  then show "tally in_cs (pc_procs s) = 1" using tally_ge_one [OF _ i, of in_cs] cs by simp
  show "tally slot_held (pc_procs s) = slot_held (pc_procs s ! i)"
    "tally item_made (pc_procs s) = item_made (pc_procs s ! i)"
    "tally item_held (pc_procs s) = item_held (pc_procs s ! i)"
    "tally slot_freed (pc_procs s) = slot_freed (pc_procs s ! i)"
    "tally printed (pc_procs s) = printed (pc_procs s ! i)"
    "tally taken (pc_procs s) = taken (pc_procs s ! i)"
    by (rule tally_own [where f = in_cs]; simp add: i cs le)+
qed

lemma nobody_facts:
  assumes "tally in_cs ps = 0"
  shows "tally slot_held ps = 0" "tally item_made ps = 0" "tally item_held ps = 0"
    "tally slot_freed ps = 0" "tally printed ps = 0" "tally taken ps = 0"
  by (rule tally_zero [where f = in_cs]; simp add: assms)+

lemma proc_done_update:
  assumes "i < length ps" "proc_done (ps ! i) \<le> proc_done p"
  shows "tally proc_done ps \<le> tally proc_done (ps[i := p])"
  using assms by (simp add: tally_update)

lemma proc_done_le: "tally proc_done ps \<le> int (length ps)"
  by (intro tally_le_length) simp

lemma parent_inv_update:
  assumes "parent_inv pp s" "i < length (pc_procs s)" "proc_done (pc_procs s ! i) \<le> proc_done p"
    and "pc_procs t = (pc_procs s)[i := p]" "pc_env_of t = pc_env_of s"
  shows "parent_inv pp t"
  using assms proc_done_update [OF assms(2,3)] proc_done_le [of "pc_procs t"]
  by (cases pp) auto

text \<open>Accesses to the segment that stay inside it.\<close>

lemmas layout_defs = shm_pos_producer_def shm_pos_consumer_def shm_buffer_def sizeof_int_def

lemma seg_access [simp]:
  assumes "17 \<le> length g"
  shows "load g shm_pos_producer = Inr (g ! 0)" "load g shm_pos_consumer = Inr (g ! 4)"
    "store g shm_pos_producer v = Inr (g[0 := v])" "store g shm_pos_consumer v = Inr (g[4 := v])"
    "0 \<le> p \<Longrightarrow> p \<le> 8 \<Longrightarrow> load g (shm_buffer + p) = Inr (g ! (8 + nat p))"
    "0 \<le> p \<Longrightarrow> p \<le> 8 \<Longrightarrow> store g (shm_buffer + p) v = Inr (g[8 + nat p := v])"
  using assms by (auto simp: load_def store_def layout_defs nat_add_distrib)

lemma seg_update [simp]:
  assumes "17 \<le> length g"
  shows "g[0 := v] ! 0 = v" "g[0 := v] ! 4 = g ! 4" "g[0 := v] ! (8 + j) = g ! (8 + j)"
    "g[4 := v] ! 4 = v" "g[4 := v] ! 0 = g ! 0" "g[4 := v] ! (8 + j) = g ! (8 + j)"
    "g[8 + j := v] ! 0 = g ! 0" "g[8 + j := v] ! 4 = g ! 4"
proof -
  have "g \<noteq> []" using assms by auto
  with assms show "g[0 := v] ! 0 = v" "g[0 := v] ! 4 = g ! 4" "g[0 := v] ! (8 + j) = g ! (8 + j)"
    "g[4 := v] ! 4 = v" "g[4 := v] ! 0 = g ! 0" "g[4 := v] ! (8 + j) = g ! (8 + j)"
    "g[8 + j := v] ! 0 = g ! 0" "g[8 + j := v] ! 4 = g ! 4" by (auto simp: nth_list_update)
qed

text \<open>All that holds when process \<open>i\<close> is inside its critical section.\<close>

lemma inside_facts:
  assumes inv: "pc_inv e s" and i: "i < length (pc_procs s)"
    and q: "pc_procs s ! i = q" and cs: "in_cs q = 1"
  shows "tally in_cs (pc_procs s) = 1"
    "tally slot_held (pc_procs s) = slot_held q" "tally item_made (pc_procs s) = item_made q"
    "tally item_held (pc_procs s) = item_held q" "tally slot_freed (pc_procs s) = slot_freed q"
    "tally printed (pc_procs s) = printed q" "tally taken (pc_procs s) = taken q"
    "17 \<le> length (pc_seg s)" "0 \<le> pos_p s" "pos_p s \<le> 9 - slot_held q"
    "0 \<le> pos_c s" "pos_c s \<le> 9 - item_held q" "local_ok (pos_p s) (pos_c s) q"
    "pos_c s + taken q \<le> pos_p s"
proof -
  note own = alone_facts [OF inv i, unfolded q, OF cs]
  show "tally in_cs (pc_procs s) = 1"
    "tally slot_held (pc_procs s) = slot_held q" "tally item_made (pc_procs s) = item_made q"
    "tally item_held (pc_procs s) = item_held q" "tally slot_freed (pc_procs s) = slot_freed q"
    "tally printed (pc_procs s) = printed q" "tally taken (pc_procs s) = taken q" by (fact own)+
  have W: "work_inv s" using inv by (simp add: pc_inv_def)
  show "17 \<le> length (pc_seg s)" using inv by (simp add: pc_inv_def)
  show "0 \<le> pos_p s" "0 \<le> pos_c s" using W by (auto simp: work_inv_def)
  show "pos_p s \<le> 9 - slot_held q" "pos_c s \<le> 9 - item_held q" using work_bounds [OF W] own by auto
  have "q \<in> set (pc_procs s)" using i q by auto
  then show "local_ok (pos_p s) (pos_c s) q" using W by (auto simp: work_inv_def)
  show "pos_c s + taken q \<le> pos_p s" using inv own by (simp add: pc_inv_def log_inv_def)
qed

lemmas pc_inv_defs [inv_defs] = pc_inv_def sems_inv_def work_inv_def log_inv_def

lemma pc_inv_prod_put:
  assumes inv: "pc_inv e s" and i: "i < length (pc_procs s)"
    and p: "pc_procs s ! i = Producer pid Pr_Put left out"
    and st: "producer pid left out Pr_Put s = Go pc' t"
  shows "pc_inv e (t\<lparr>pc_procs := (pc_procs t)[i := Producer pid pc' left out]\<rparr>)"
proof -
  have regs: "\<forall>q \<in> set (pc_procs s). local_ok (pos_p s) (pos_c s) q" using inv by (simp add: inv_defs)
  with inv i p st inside_facts [OF inv i p] ball_update [OF regs, of "Producer pid pc' left out" i]
  show ?thesis
    by (auto simp: inv_defs tally_update nth_list_update intro: parent_inv_update)
qed

lemma pc_inv_prod_print:
  assumes inv: "pc_inv e s" and i: "i < length (pc_procs s)"
    and p: "pc_procs s ! i = Producer pid Pr_Print left out"
    and st: "producer pid left out Pr_Print s = Go pc' t"
  shows "pc_inv e (t\<lparr>pc_procs := (pc_procs t)[i := Producer pid pc' left out]\<rparr>)"
proof -
  have regs: "\<forall>q \<in> set (pc_procs s). local_ok (pos_p s) (pos_c s) q" using inv by (simp add: inv_defs)
  have "nat (pos_p s) = length (made_log (pc_out s))"
    using inv inside_facts(6) [OF inv i p] by (simp add: pc_inv_def log_inv_def) (metis nat_int)
  with inv i p st inside_facts [OF inv i p] ball_update [OF regs, of "Producer pid pc' left out" i]
  show ?thesis
    by (auto simp: inv_defs tally_update nth_append less_Suc_eq intro: parent_inv_update)
qed

lemma pc_inv_prod_local:
  assumes inv: "pc_inv e s" and i: "i < length (pc_procs s)"
    and p: "pc_procs s ! i = Producer pid pc left out" and pc: "pc = Pr_Out \<or> pc = Pr_Load"
    and st: "producer pid left out pc s = Go pc' t"
  shows "pc_inv e (t\<lparr>pc_procs := (pc_procs t)[i := Producer pid pc' left out']\<rparr>)"
proof -
  have regs: "\<forall>q \<in> set (pc_procs s). local_ok (pos_p s) (pos_c s) q" using inv by (simp add: inv_defs)
  with inv i p pc st inside_facts [OF inv i p] ball_update [OF regs, of "Producer pid pc' left out'" i]
  show ?thesis
    by (auto simp: inv_defs tally_update intro: parent_inv_update)
qed

lemma pc_inv_prod_store:
  assumes inv: "pc_inv e s" and i: "i < length (pc_procs s)"
    and p: "pc_procs s ! i = Producer pid (Pr_Store r) left out"
    and st: "producer pid left out (Pr_Store r) s = Go pc' t"
  shows "pc_inv e (t\<lparr>pc_procs := (pc_procs t)[i := Producer pid pc' left out]\<rparr>)"
proof -
  have "\<forall>q \<in> set (pc_procs s). local_ok (pos_p s) (pos_c s) q" using inv by (simp add: inv_defs)
  then have "\<forall>q \<in> set ((pc_procs s)[i := Producer pid Pr_Stop left out]).
      local_ok (pos_p s + 1) (pos_c s) q"
    using i p inside_facts [OF inv i p]
    by (intro ball_update_alone [where f = in_cs and P = "local_ok (pos_p s) (pos_c s)"])
       (auto intro: local_ok_outside)
  with inv i p st inside_facts [OF inv i p] show ?thesis
    by (auto simp: inv_defs tally_update nth_list_update intro: parent_inv_update)
qed

lemma sems_of_inv:
  "pc_inv e s \<Longrightarrow> pc_sems s =
     [1 - tally in_cs (pc_procs s),
      pc_N - pos_p s - tally slot_held (pc_procs s) + pos_c s - tally slot_freed (pc_procs s),
      pos_p s - tally item_made (pc_procs s) - pos_c s - tally item_held (pc_procs s)]"
  by (simp add: pc_inv_def sems_inv_def)

text \<open>The semaphores stay far below their maximum.\<close>

lemma sems_bounds:
  assumes "pc_inv e s" "pc_sems s = [b, em, f]"
  shows "0 \<le> b" "b \<le> 1" "0 \<le> em" "em \<le> 9" "0 \<le> f" "f \<le> 9"
proof -
  let ?ps = "pc_procs s"
  have S: "sems_inv s" and W: "work_inv s" using assms(1) by (auto simp: pc_inv_def)
  have nn: "0 \<le> tally h ?ps" if "\<And>p. 0 \<le> h p" for h using that by (intro tally_nonneg)
  have "0 \<le> tally in_cs ?ps" "0 \<le> tally slot_held ?ps" "0 \<le> tally slot_freed ?ps"
    "0 \<le> tally item_made ?ps" "0 \<le> tally item_held ?ps" by (intro nn; simp)+
  with S W work_bounds [OF W] assms(2)
  show "0 \<le> b" "b \<le> 1" "0 \<le> em" "em \<le> 9" "0 \<le> f" "f \<le> 9"
    by (auto simp: sems_inv_def work_inv_def pc_N_def)
qed

lemma pc_inv_prod_start:
  assumes inv: "pc_inv e s" and i: "i < length (pc_procs s)"
    and p: "pc_procs s ! i = Producer pid Pr_Start left out"
    and st: "producer pid left out Pr_Start s = Go pc' t"
  shows "pc_inv e (t\<lparr>pc_procs := (pc_procs t)[i := Producer pid pc' left out]\<rparr>)"
proof -
  obtain b em f where bef: "pc_sems s = [b, em, f]" using sems_of_inv [OF inv] by blast
  note bounds = sems_bounds [OF inv bef]
  have t: "0 < em" "0 < b" "pc' = Pr_Put" "t = s\<lparr>pc_sems := [b - 1, em - 1, f]\<rparr>"
    using st bef bounds semop_producer_start [of b em f]
    by (auto simp: pc_semop_def SEMVMX_def split: if_splits)
  have none: "tally in_cs (pc_procs s) = 0" using t(2) bef sems_of_inv [OF inv] tally_nonneg [of "pc_procs s" in_cs] by simp
  have regs: "\<forall>q \<in> set (pc_procs s). local_ok (pos_p s) (pos_c s) q" using inv by (simp add: inv_defs)
  then have "local_ok (pos_p s) (pos_c s) (Producer pid Pr_Start left out)" using p i by (metis nth_mem)
  with inv i p t bef bounds none nobody_facts [OF none]
    ball_update [OF regs, of "Producer pid pc' left out" i]
  show ?thesis
    by (auto simp: inv_defs tally_update intro: parent_inv_update)
qed

lemma pc_inv_prod_stop:
  assumes inv: "pc_inv e s" and i: "i < length (pc_procs s)"
    and p: "pc_procs s ! i = Producer pid Pr_Stop left out"
    and st: "producer pid left out Pr_Stop s = Go pc' t"
  shows "pc' = Pr_Loop \<and>
    pc_inv e (t\<lparr>pc_procs := (pc_procs t)[i := Producer pid pc' (left - 1) out]\<rparr>)"
proof -
  obtain b em f where bef: "pc_sems s = [b, em, f]" using sems_of_inv [OF inv] by blast
  note bounds = sems_bounds [OF inv bef]
  have t: "pc' = Pr_Loop" "t = s\<lparr>pc_sems := [b + 1, em, f + 1]\<rparr>"
    using st bef bounds semop_producer_stop [of b f em]
    by (auto simp: pc_semop_def SEMVMX_def split: if_splits)
  have regs: "\<forall>q \<in> set (pc_procs s). local_ok (pos_p s) (pos_c s) q" using inv by (simp add: inv_defs)
  with inv i p t bef bounds inside_facts [OF inv i p]
    ball_update [OF regs, of "Producer pid pc' (left - 1) out" i]
  show ?thesis
    by (auto simp: inv_defs tally_update intro: parent_inv_update)
qed

lemma pc_inv_prod_loop:
  assumes inv: "pc_inv e s" and i: "i < length (pc_procs s)"
    and p: "pc_procs s ! i = Producer pid Pr_Loop left out"
    and st: "producer pid left out Pr_Loop s = Go pc' t"
  shows "pc_inv e (t\<lparr>pc_procs := (pc_procs t)[i := Producer pid pc' left out]\<rparr>)"
proof -
  have t: "t = s" using st by simp
  have parent: "parent_inv (pc_parent s) (s\<lparr>pc_procs := (pc_procs s)[i := Producer pid pc' left out]\<rparr>)"
    by (rule parent_inv_update [of _ s i "Producer pid pc' left out"])
       (use inv i p in \<open>simp_all add: pc_inv_def\<close>)
  have regs: "\<forall>q \<in> set (pc_procs s). local_ok (pos_p s) (pos_c s) q" using inv by (simp add: inv_defs)
  show ?thesis
  proof (cases "left = 0")
    case True
    with st have pc: "pc' = Pr_Done (Exited EXIT_SUCCESS)" by simp
    with inv i p True t parent ball_update [OF regs, of "Producer pid pc' left out" i]
    show ?thesis by (simp add: inv_defs tally_update)
  next
    case False
    with st have pc: "pc' = Pr_Start" by simp
    with inv i p False t parent ball_update [OF regs, of "Producer pid pc' left out" i]
    show ?thesis by (simp add: inv_defs tally_update)
  qed
qed

lemma pc_inv_cons_start:
  assumes inv: "pc_inv e s" and i: "i < length (pc_procs s)"
    and p: "pc_procs s ! i = Consumer pid Co_Start left"
    and st: "consumer pid left Co_Start s = Go pc' t"
  shows "pc_inv e (t\<lparr>pc_procs := (pc_procs t)[i := Consumer pid pc' left]\<rparr>)"
proof -
  obtain b em f where bef: "pc_sems s = [b, em, f]" using sems_of_inv [OF inv] by blast
  note bounds = sems_bounds [OF inv bef]
  have t: "0 < f" "0 < b" "pc' = Co_Print" "t = s\<lparr>pc_sems := [b - 1, em, f - 1]\<rparr>"
    using st bef bounds semop_consumer_start [of b f em]
    by (auto simp: pc_semop_def SEMVMX_def split: if_splits)
  have none: "tally in_cs (pc_procs s) = 0" using t(2) bef sems_of_inv [OF inv] tally_nonneg [of "pc_procs s" in_cs] by simp
  have regs: "\<forall>q \<in> set (pc_procs s). local_ok (pos_p s) (pos_c s) q" using inv by (simp add: inv_defs)
  then have "local_ok (pos_p s) (pos_c s) (Consumer pid Co_Start left)" using p i by (metis nth_mem)
  with inv i p t bef bounds none nobody_facts [OF none]
    ball_update [OF regs, of "Consumer pid pc' left" i]
  show ?thesis
    by (auto simp: inv_defs tally_update intro: parent_inv_update)
qed

text \<open>A consumer inside its critical section holds an item that has been produced.\<close>

lemma item_available:
  assumes inv: "pc_inv e s" and i: "i < length (pc_procs s)"
    and p: "pc_procs s ! i = Consumer pid pc left" and cs: "in_cs (Consumer pid pc left) = 1"
  shows "pos_c s + item_held (Consumer pid pc left) \<le> pos_p s"
  using inv inside_facts(3,4) [OF inv i p cs] by (auto simp: pc_inv_def sems_inv_def)

lemma pc_inv_cons_print:
  assumes inv: "pc_inv e s" and i: "i < length (pc_procs s)"
    and p: "pc_procs s ! i = Consumer pid Co_Print left"
    and st: "consumer pid left Co_Print s = Go pc' t"
  shows "pc_inv e (t\<lparr>pc_procs := (pc_procs t)[i := Consumer pid pc' left]\<rparr>)"
proof -
  have regs: "\<forall>q \<in> set (pc_procs s). local_ok (pos_p s) (pos_c s) q" using inv by (simp add: inv_defs)
  let ?made = "made_log (pc_out s)" and ?n = "nat (pos_c s)"
  have own: "17 \<le> length (pc_seg s)" "0 \<le> pos_c s" "pos_c s \<le> 8" "tally printed (pc_procs s) = 0"
    "tally taken (pc_procs s) = 0" and avail: "pos_c s + 1 \<le> pos_p s"
    using inside_facts [OF inv i p] item_available [OF inv i p] by auto
  have len: "?n < length ?made" and made: "?made ! ?n = (pos_c s, pc_seg s ! (8 + ?n))"
    using inv own avail by (auto simp: pc_inv_def log_inv_def)
  have "taken_log (pc_out s) = take ?n ?made" using inv own by (simp add: pc_inv_def log_inv_def)
  then have "taken_log (pc_out s) @ [(pos_c s, pc_seg s ! (8 + ?n))] = take (nat (pos_c s + 1)) ?made"
    using len made own by (simp add: take_Suc_conv_app_nth nat_add_distrib)
  with inv i p st own avail inside_facts [OF inv i p]
    ball_update [OF regs, of "Consumer pid pc' left" i]
  show ?thesis
    by (auto simp: inv_defs tally_update intro: parent_inv_update)
qed

lemma pc_inv_cons_load:
  assumes inv: "pc_inv e s" and i: "i < length (pc_procs s)"
    and p: "pc_procs s ! i = Consumer pid Co_Load left"
    and st: "consumer pid left Co_Load s = Go pc' t"
  shows "pc_inv e (t\<lparr>pc_procs := (pc_procs t)[i := Consumer pid pc' left]\<rparr>)"
proof -
  have regs: "\<forall>q \<in> set (pc_procs s). local_ok (pos_p s) (pos_c s) q" using inv by (simp add: inv_defs)
  with inv i p st inside_facts [OF inv i p] ball_update [OF regs, of "Consumer pid pc' left" i]
  show ?thesis
    by (auto simp: inv_defs tally_update intro: parent_inv_update)
qed

lemma pc_inv_cons_store:
  assumes inv: "pc_inv e s" and i: "i < length (pc_procs s)"
    and p: "pc_procs s ! i = Consumer pid (Co_Store r) left"
    and st: "consumer pid left (Co_Store r) s = Go pc' t"
  shows "pc_inv e (t\<lparr>pc_procs := (pc_procs t)[i := Consumer pid pc' left]\<rparr>)"
proof -
  have "\<forall>q \<in> set (pc_procs s). local_ok (pos_p s) (pos_c s) q" using inv by (simp add: inv_defs)
  then have "\<forall>q \<in> set ((pc_procs s)[i := Consumer pid Co_Stop left]).
      local_ok (pos_p s) (pos_c s + 1) q"
    using i p inside_facts [OF inv i p]
    by (intro ball_update_alone [where f = in_cs and P = "local_ok (pos_p s) (pos_c s)"])
       (auto intro: local_ok_outside)
  with inv i p st inside_facts [OF inv i p] item_available [OF inv i p] show ?thesis
    by (auto simp: inv_defs tally_update intro: parent_inv_update)
qed

lemma pc_inv_cons_stop:
  assumes inv: "pc_inv e s" and i: "i < length (pc_procs s)"
    and p: "pc_procs s ! i = Consumer pid Co_Stop left"
    and st: "consumer pid left Co_Stop s = Go pc' t"
  shows "pc' = Co_Loop \<and>
    pc_inv e (t\<lparr>pc_procs := (pc_procs t)[i := Consumer pid pc' (left - 1)]\<rparr>)"
proof -
  obtain b em f where bef: "pc_sems s = [b, em, f]" using sems_of_inv [OF inv] by blast
  note bounds = sems_bounds [OF inv bef]
  have t: "pc' = Co_Loop" "t = s\<lparr>pc_sems := [b + 1, em + 1, f]\<rparr>"
    using st bef bounds semop_consumer_stop [of b em f]
    by (auto simp: pc_semop_def SEMVMX_def split: if_splits)
  have regs: "\<forall>q \<in> set (pc_procs s). local_ok (pos_p s) (pos_c s) q" using inv by (simp add: inv_defs)
  with inv i p t bef bounds inside_facts [OF inv i p]
    ball_update [OF regs, of "Consumer pid pc' (left - 1)" i]
  show ?thesis
    by (auto simp: inv_defs tally_update intro: parent_inv_update)
qed

lemma pc_inv_cons_loop:
  assumes inv: "pc_inv e s" and i: "i < length (pc_procs s)"
    and p: "pc_procs s ! i = Consumer pid Co_Loop left"
    and st: "consumer pid left Co_Loop s = Go pc' t"
  shows "pc_inv e (t\<lparr>pc_procs := (pc_procs t)[i := Consumer pid pc' left]\<rparr>)"
proof -
  have t: "t = s" using st by simp
  have parent: "parent_inv (pc_parent s) (s\<lparr>pc_procs := (pc_procs s)[i := Consumer pid pc' left]\<rparr>)"
    by (rule parent_inv_update [of _ s i "Consumer pid pc' left"])
       (use inv i p in \<open>simp_all add: pc_inv_def\<close>)
  have regs: "\<forall>q \<in> set (pc_procs s). local_ok (pos_p s) (pos_c s) q" using inv by (simp add: inv_defs)
  show ?thesis
  proof (cases "left = 0")
    case True
    with st have pc: "pc' = Co_Done (Exited EXIT_SUCCESS)" by simp
    with inv i p True t parent ball_update [OF regs, of "Consumer pid pc' left" i]
    show ?thesis by (simp add: inv_defs tally_update)
  next
    case False
    with st have pc: "pc' = Co_Start" by simp
    with inv i p False t parent ball_update [OF regs, of "Consumer pid pc' left" i]
    show ?thesis by (simp add: inv_defs tally_update)
  qed
qed

lemma pc_inv_producer:
  assumes inv: "pc_inv e s" and i: "i < length (pc_procs s)"
    and p: "pc_procs s ! i = Producer pid pc left out"
    and st: "pc_proc_step (Producer pid pc left out) s = Some (p', t)"
  shows "pc_inv e (t\<lparr>pc_procs := (pc_procs t)[i := p']\<rparr>)"
proof -
  obtain pc' where go: "producer pid left out pc s = Go pc' t"
    and p': "p' = Producer pid pc' (if pc = Pr_Stop \<and> pc' = Pr_Loop then left - 1 else left)
                                   (if pc = Pr_Out then out + 1 else out)"
    using st by (auto split: move.splits)
  show ?thesis
  proof (cases pc)
    case Pr_Loop
    with inv i p go p' show ?thesis using pc_inv_prod_loop by auto
  next
    case Pr_Start
    with inv i p go p' show ?thesis using pc_inv_prod_start by auto
  next
    case Pr_Put
    with inv i p go p' show ?thesis using pc_inv_prod_put by auto
  next
    case Pr_Print
    with inv i p go p' show ?thesis using pc_inv_prod_print by auto
  next
    case Pr_Out
    with inv i p go p' show ?thesis using pc_inv_prod_local [OF inv i p _ go, of "out + 1"] by simp
  next
    case Pr_Load
    with inv i p go p' show ?thesis using pc_inv_prod_local [OF inv i p _ go, of out] by simp
  next
    case (Pr_Store r)
    with inv i p go p' show ?thesis using pc_inv_prod_store by auto
  next
    case Pr_Stop
    with go p have "pc' = Pr_Loop \<and> pc_inv e (t\<lparr>pc_procs := (pc_procs t)[i := Producer pid pc' (left - 1) out]\<rparr>)"
      by (intro pc_inv_prod_stop [OF inv i]) auto
    with Pr_Stop p' show ?thesis by auto
  qed (use go in simp)
qed

lemma pc_inv_consumer:
  assumes inv: "pc_inv e s" and i: "i < length (pc_procs s)"
    and p: "pc_procs s ! i = Consumer pid pc left"
    and st: "pc_proc_step (Consumer pid pc left) s = Some (p', t)"
  shows "pc_inv e (t\<lparr>pc_procs := (pc_procs t)[i := p']\<rparr>)"
proof -
  obtain pc' where go: "consumer pid left pc s = Go pc' t"
    and p': "p' = Consumer pid pc' (if pc = Co_Stop \<and> pc' = Co_Loop then left - 1 else left)"
    using st by (auto split: move.splits)
  show ?thesis
  proof (cases pc)
    case Co_Loop
    with inv i p go p' show ?thesis using pc_inv_cons_loop by auto
  next
    case Co_Start
    with inv i p go p' show ?thesis using pc_inv_cons_start by auto
  next
    case Co_Print
    with inv i p go p' show ?thesis using pc_inv_cons_print by auto
  next
    case Co_Load
    with inv i p go p' show ?thesis using pc_inv_cons_load by auto
  next
    case (Co_Store r)
    with inv i p go p' show ?thesis using pc_inv_cons_store by auto
  next
    case Co_Stop
    with go p have "pc' = Co_Loop \<and> pc_inv e (t\<lparr>pc_procs := (pc_procs t)[i := Consumer pid pc' (left - 1)]\<rparr>)"
      by (intro pc_inv_cons_stop [OF inv i]) auto
    with Co_Stop p' show ?thesis by auto
  qed (use go in simp)
qed

lemma pc_inv_exec:
  assumes "pc_inv e s" "pc_exec i s = Some t" shows "pc_inv e t"
proof -
  have i: "i < length (pc_procs s)" using assms(2) by (auto simp: pc_exec_def split: if_splits)
  then obtain p' u where u: "pc_proc_step (pc_procs s ! i) s = Some (p', u)"
    "t = u\<lparr>pc_procs := (pc_procs u)[i := p']\<rparr>"
    using assms(2) by (auto simp: pc_exec_def)
  show ?thesis
  proof (cases "pc_procs s ! i")
    case (Producer pid pc left out)
    with u show ?thesis using pc_inv_producer [OF assms(1) i Producer] by simp
  next
    case (Consumer pid pc left)
    with u show ?thesis using pc_inv_consumer [OF assms(1) i Consumer] by simp
  qed
qed

text \<open>Creating a child: all children start before their loops.\<close>

lemma child_weights:
  assumes "k < 5"
  shows "in_cs (pc_children ! k) = 0" "slot_held (pc_children ! k) = 0" "item_made (pc_children ! k) = 0"
    "item_held (pc_children ! k) = 0" "slot_freed (pc_children ! k) = 0" "printed (pc_children ! k) = 0"
    "taken (pc_children ! k) = 0" "proc_done (pc_children ! k) = 0" "local_ok a b (pc_children ! k)"
proof -
  from assms have "k \<in> {0, 1, 2, 3, 4}" by auto
  then show "in_cs (pc_children ! k) = 0" "slot_held (pc_children ! k) = 0" "item_made (pc_children ! k) = 0"
    "item_held (pc_children ! k) = 0" "slot_freed (pc_children ! k) = 0" "printed (pc_children ! k) = 0"
    "taken (pc_children ! k) = 0" "proc_done (pc_children ! k) = 0" "local_ok a b (pc_children ! k)"
    by (auto simp: pc_children_def make_producer_def make_consumer_def)
qed

lemma length_children [simp]: "length pc_children = 5"
  by (simp add: pc_children_def)

lemma take_child:
  "k < 5 \<Longrightarrow> tally f (take (Suc k) pc_children) = tally f (take k pc_children) + f (pc_children ! k)"
  by (simp add: take_Suc_conv_app_nth)

lemma pc_inv_fork:
  assumes inv: "pc_inv e s" and k: "length (pc_procs s) = k" "k < 5"
  shows "pc_inv e (s\<lparr>pc_procs := pc_procs s @ [pc_children ! k], pc_parent := F_Fork (Suc k)\<rparr>)"
  using inv k child_weights [OF k(2)] take_child [OF k(2), of to_put] take_child [OF k(2), of to_take]
  by (auto simp: inv_defs)

lemma pc_inv_parent:
  assumes inv: "pc_inv e s" and st: "pc_parent_exec s = Some t" shows "pc_inv e t"
proof (cases "pc_parent s")
  case (F_Fork k)
  then have len: "length (pc_procs s) = k" using inv by (simp add: pc_inv_def)
  then have "k \<le> 5" using inv by (simp add: inv_defs)
  with F_Fork len inv st pc_inv_fork [OF inv len] show ?thesis
    by (auto simp: pc_parent_exec_def split: if_splits) (auto simp: inv_defs tally_nonneg)
next
  case (F_Wait k)
  with inv st proc_done_le [of "pc_procs s"] show ?thesis
    by (auto simp: pc_parent_exec_def inv_defs split: if_splits)
next
  case F_Shmdt
  with inv st show ?thesis by (auto simp: pc_parent_exec_def inv_defs EXIT_SUCCESS_def EXIT_FAILURE_def)
next
  case (F_Exit c)
  with st show ?thesis by (simp add: pc_parent_exec_def)
qed

inductive_cases pc_stepE: "pc_step s t"

lemma pc_inv_step: "pc_inv e s \<Longrightarrow> pc_step s t \<Longrightarrow> pc_inv e t"
  by (auto elim: pc_stepE intro: pc_inv_exec pc_inv_parent)

definition pc_fresh :: "pc_env \<Rightarrow> pc_state" where
  "pc_fresh e = \<lparr>pc_sems = [1, pc_N, 0], pc_seg = replicate (env_cells e) 0, pc_out = [],
                 pc_procs = [], pc_parent = F_Fork 0, pc_env_of = e\<rparr>"

lemma replicate_update: "(replicate n x)[i := x] = replicate n x"
  by (induction n arbitrary: i) (auto split: nat.splits)

lemma pc_main_fresh:
  assumes "pc_main e = Pc_running s" shows "s = pc_fresh e"
  using assms
  by (auto simp: pc_main_def pc_fresh_def store_def replicate_update split: if_splits)

lemma pc_inv_fresh: "17 \<le> env_cells e \<Longrightarrow> pc_inv e (pc_fresh e)"
  by (simp add: inv_defs pc_fresh_def pc_N_def)

lemma pc_inv_init:
  assumes "pc_init_room s" shows "pc_inv (pc_env_of s) s"
proof -
  from assms have "s = pc_fresh (pc_env_of s)" "17 \<le> env_cells (pc_env_of s)"
    by (auto simp: pc_init_room_def pc_init_def intro: pc_main_fresh)
  then show ?thesis using pc_inv_fresh [of "pc_env_of s"] by metis
qed

section \<open>Termination\<close>

fun work :: "pc_proc \<Rightarrow> int" where
  "work (Producer pid Pr_Loop left out) = int (8 * left + 1)"
| "work (Producer pid Pr_Start left out) = int (8 * left)"
| "work (Producer pid Pr_Put left out) = int (8 * left - 1)"
| "work (Producer pid Pr_Print left out) = int (8 * left - 2)"
| "work (Producer pid Pr_Out left out) = int (8 * left - 3)"
| "work (Producer pid Pr_Load left out) = int (8 * left - 4)"
| "work (Producer pid (Pr_Store r) left out) = int (8 * left - 5)"
| "work (Producer pid Pr_Stop left out) = int (8 * left - 6)"
| "work (Producer pid (Pr_Done st) left out) = 0"
| "work (Consumer pid Co_Loop left) = int (8 * left + 1)"
| "work (Consumer pid Co_Start left) = int (8 * left)"
| "work (Consumer pid Co_Print left) = int (8 * left - 1)"
| "work (Consumer pid Co_Load left) = int (8 * left - 2)"
| "work (Consumer pid (Co_Store r) left) = int (8 * left - 3)"
| "work (Consumer pid Co_Stop left) = int (8 * left - 4)"
| "work (Consumer pid (Co_Done st) left) = 0"

fun parent_work :: "pc_parent \<Rightarrow> nat" where
  "parent_work (F_Fork k) = 25 - 2 * k + nat (tally work (drop k pc_children))"
| "parent_work (F_Wait k) = 10 - k"
| "parent_work F_Shmdt = 2"
| "parent_work (F_Exit c) = 0"

definition pc_left :: "pc_state \<Rightarrow> nat" where
  "pc_left s = nat (tally work (pc_procs s)) + parent_work (pc_parent s)"

lemma work_nonneg [simp]: "0 \<le> work p"
  by (cases p rule: work.cases) auto

lemma tally_work_nonneg [simp]: "0 \<le> tally work ps"
  by (intro tally_nonneg) simp

lemma pc_work_decreases:
  assumes "local_ok a b p" "pc_proc_step p s = Some (p', t)"
  shows "work p' < work p \<and> pc_parent t = pc_parent s \<and> pc_procs t = pc_procs s"
  using assms
  by (cases p rule: work.cases)
     (auto simp: pc_semop_def split: move.splits sum.splits sem_outcome.splits if_splits)

lemma pc_left_exec:
  assumes inv: "pc_inv e s" and st: "pc_exec i s = Some t" shows "pc_left t < pc_left s"
proof -
  have i: "i < length (pc_procs s)" using st by (auto simp: pc_exec_def split: if_splits)
  then obtain p' u where u: "pc_proc_step (pc_procs s ! i) s = Some (p', u)"
    "t = u\<lparr>pc_procs := (pc_procs u)[i := p']\<rparr>"
    using st by (auto simp: pc_exec_def)
  have "local_ok (pos_p s) (pos_c s) (pc_procs s ! i)" using inv i by (simp add: inv_defs)
  from pc_work_decreases [OF this u(1)] u(2) i
  have "tally work (pc_procs t) < tally work (pc_procs s)" "pc_parent t = pc_parent s"
    by (auto simp: tally_update)
  moreover from this(1) have "0 < tally work (pc_procs s)"
    by (rule le_less_trans [OF tally_work_nonneg])
  ultimately show ?thesis by (simp add: pc_left_def)
qed

lemma pc_left_parent:
  assumes inv: "pc_inv e s" and st: "pc_parent_exec s = Some t" shows "pc_left t < pc_left s"
proof (cases "pc_parent s")
  case (F_Fork k)
  show ?thesis
  proof (cases "k < 5")
    case True
    then have "tally work (drop k pc_children) = work (pc_children ! k) + tally work (drop (Suc k) pc_children)"
      by (simp add: Cons_nth_drop_Suc [symmetric])
    with True F_Fork st show ?thesis
      by (auto simp: pc_parent_exec_def pc_left_def nat_add_distrib split: if_splits)
  qed (use F_Fork st inv in \<open>auto simp: pc_parent_exec_def pc_left_def inv_defs\<close>)
qed (use assms in \<open>auto simp: pc_parent_exec_def pc_left_def inv_defs split: if_splits\<close>)

interpretation pcs: terminating pc_init_room pc_step "\<lambda>s. pc_inv (pc_env_of s) s" pc_left
proof unfold_locales
  show "pc_inv (pc_env_of s) s" if "pc_init_room s" for s using that by (rule pc_inv_init)
  show "pc_inv (pc_env_of t) t" if "pc_inv (pc_env_of s) s" "pc_step s t" for s t
    using pc_inv_step [OF that] by (simp add: pc_inv_def)
  show "pc_left t < pc_left s" if "pc_inv (pc_env_of s) s" "pc_step s t" for s t
    using that by (auto elim: pc_stepE intro: pc_left_exec pc_left_parent)
qed

section \<open>Progress\<close>

lemma pc_exec_of_step:
  "i < length (pc_procs s) \<Longrightarrow> pc_proc_step (pc_procs s ! i) s \<noteq> None \<Longrightarrow> \<exists>t. pc_exec i s = Some t"
  by (auto simp: pc_exec_def)

lemma inside_can_step:
  assumes inv: "pc_inv e s" and i: "i < length (pc_procs s)" and cs: "in_cs (pc_procs s ! i) = 1"
  shows "pc_proc_step (pc_procs s ! i) s \<noteq> None"
proof -
  obtain b em f where bef: "pc_sems s = [b, em, f]" using sems_of_inv [OF inv] by blast
  note facts = sems_bounds [OF inv bef] semop_producer_stop [of b f em] semop_consumer_stop [of b em f]
  show ?thesis
  proof (cases "pc_procs s ! i")
    case (Producer pid pc left out)
    with cs bef facts show ?thesis
      by (cases pc) (auto simp: pc_semop_def SEMVMX_def split: move.splits sum.splits)
  next
    case (Consumer pid pc left)
    with cs bef facts show ?thesis
      by (cases pc) (auto simp: pc_semop_def SEMVMX_def split: move.splits sum.splits)
  qed
qed

fun at_loop :: "pc_proc \<Rightarrow> bool" where
  "at_loop (Producer pid pc left out) = (pc = Pr_Loop)"
| "at_loop (Consumer pid pc left) = (pc = Co_Loop)"

lemma outside_cases:
  assumes "in_cs p = 0" "proc_done p = 0" "\<not> at_loop p" "local_ok a b p"
  shows "(\<exists>pid left out. p = Producer pid Pr_Start left out \<and> 0 < left) \<or>
         (\<exists>pid left. p = Consumer pid Co_Start left \<and> 0 < left)"
  using assms by (cases p rule: in_cs.cases) auto

text \<open>
  When all children exist, none is inside its critical section and one is waiting to enter, then
  the semaphores let one of them in: there is a free slot while a letter is still to be produced,
  and an item otherwise.
\<close>

lemma starter_exists:
  assumes inv: "pc_inv e s" and five: "length (pc_procs s) = 5" and none: "tally in_cs (pc_procs s) = 0"
    and wait: "j < 5" "proc_done (pc_procs s ! j) = 0" and noloop: "\<forall>p \<in> set (pc_procs s). \<not> at_loop p"
  shows "\<exists>i < 5. pc_proc_step (pc_procs s ! i) s \<noteq> None"
proof -
  let ?ps = "pc_procs s"
  note zero = nobody_facts [OF none]
  have sems: "pc_sems s = [1, 9 - pos_p s + pos_c s, pos_p s - pos_c s]"
    using sems_of_inv [OF inv] none zero by (simp add: pc_N_def)
  note bounds = sems_bounds [OF inv sems]
  have quota: "pos_p s + tally to_put ?ps = 9" "pos_c s + tally to_take ?ps = 9"
    using inv five by (simp_all add: inv_defs pc_children_def make_producer_def make_consumer_def)
  have loc: "local_ok (pos_p s) (pos_c s) p" if "p \<in> set ?ps" for p
    using inv that by (simp add: inv_defs)
  have out0: "in_cs p = 0" if "p \<in> set ?ps" for p
    using none that by (simp add: tally_zero_iff)
  have put_nn: "0 \<le> to_put p" "0 \<le> to_take p" if "p \<in> set ?ps" for p
    using loc [OF that] by (auto intro: local_ok_work)
  show ?thesis
  proof (cases "\<exists>i < 5. \<exists>pid left out. ?ps ! i = Producer pid Pr_Start left out \<and> 0 < left")
    case True
    then obtain i pid left out where i: "i < 5" "?ps ! i = Producer pid Pr_Start left out" "0 < left"
      by blast
    then have "to_put (?ps ! i) \<le> tally to_put ?ps" using five put_nn i(1) by (intro tally_member nth_mem) auto
    with i have "0 < tally to_put ?ps" by simp
    then have "0 < 9 - pos_p s + pos_c s" using quota bounds inv by (auto simp: inv_defs)
    with i sems bounds semop_producer_start [of 1 "9 - pos_p s + pos_c s" "pos_p s - pos_c s"]
    show ?thesis by (intro exI [of _ i]) (auto simp: pc_semop_def SEMVMX_def)
  next
    case False
    have fin: "proc_done p = 1" if "p \<in> set ?ps" "p = Producer pid pc left out" for p pid pc left out
    proof -
      have "\<not> at_loop p" using noloop that(1) by blast
      then show ?thesis using outside_cases [OF out0 [OF that(1)] _ _ loc [OF that(1)]] that False five
        by (cases pc) (auto simp: in_set_conv_nth)
    qed
    have "to_put p = 0" if "p \<in> set ?ps" for p
      using loc [OF that] fin [OF that] by (cases p rule: in_cs.cases) auto
    then have "tally to_put ?ps = 0" by (rule tally_eq_0)
    with quota have full: "pos_p s = 9" by simp
    have mem: "?ps ! j \<in> set ?ps" using wait(1) five by simp
    then obtain pid left where j: "?ps ! j = Consumer pid Co_Start left" "0 < left"
      using outside_cases [OF out0 [OF mem] wait(2) _ loc [OF mem]] noloop False wait(1) by blast
    have "to_take (?ps ! j) \<le> tally to_take ?ps" using put_nn mem by (intro tally_member) auto
    with j full quota have "0 < pos_p s - pos_c s" by simp
    with j sems bounds semop_consumer_start [of 1 "pos_p s - pos_c s" "9 - pos_p s + pos_c s"] wait(1)
    show ?thesis by (intro exI [of _ j]) (auto simp: pc_semop_def SEMVMX_def)
  qed
qed

lemma busy_exists:
  assumes "tally proc_done ps < int (length ps)"
  shows "\<exists>j < length ps. proc_done (ps ! j) = 0"
proof -
  have "0 < tally (\<lambda>p. 1 - proc_done p) ps" using assms by (simp add: tally_compl)
  then obtain j where "j < length ps" "proc_done (ps ! j) < 1" using tally_pos_ex by fastforce
  moreover have "0 \<le> proc_done (ps ! j)" by simp
  ultimately show ?thesis by (intro exI [of _ j]) linarith
qed

lemma pc_live:
  assumes inv: "pc_inv e s" and five: "length (pc_procs s) = 5"
    and busy: "tally proc_done (pc_procs s) < 5"
  shows "\<exists>i t. pc_exec i s = Some t"
proof -
  let ?ps = "pc_procs s"
  have "\<exists>i < 5. pc_proc_step (?ps ! i) s \<noteq> None"
  proof (cases "(\<exists>p \<in> set ?ps. at_loop p) \<or> 0 < tally in_cs ?ps")
    case True
    then show ?thesis
    proof
      assume "\<exists>p \<in> set ?ps. at_loop p"
      then obtain i where "i < 5" "at_loop (?ps ! i)" using five by (auto simp: in_set_conv_nth)
      then show ?thesis by (intro exI [of _ i]) (cases "?ps ! i", auto)
    next
      assume "0 < tally in_cs ?ps"
      then obtain i where "i < length ?ps" "0 < in_cs (?ps ! i)" using tally_pos_ex by blast
      moreover from this(2) have "in_cs (?ps ! i) = 1"
        using in_cs_range [of "?ps ! i"] by linarith
      ultimately show ?thesis using inside_can_step [OF inv] five by metis
    qed
  next
    case False
    then have none: "tally in_cs ?ps = 0" using tally_nonneg [of ?ps in_cs] by fastforce
    have "\<exists>j < 5. proc_done (?ps ! j) = 0" using busy_exists [of ?ps] busy five by auto
    with False show ?thesis using starter_exists [OF inv five none] by blast
  qed
  with five pc_exec_of_step [of _ s] show ?thesis by metis
qed

fun succeeded :: "pc_proc \<Rightarrow> bool" where
  "succeeded (Producer pid pc left out) = (pc = Pr_Done (Exited EXIT_SUCCESS))"
| "succeeded (Consumer pid pc left) = (pc = Co_Done (Exited EXIT_SUCCESS))"

text \<open>A state without a successor is the end of the program, if every fork succeeds.\<close>

definition pc_final :: "pc_state \<Rightarrow> bool" where
  "pc_final s \<longleftrightarrow>
     length (pc_procs s) = 5 \<and> (\<forall>p \<in> set (pc_procs s). succeeded p) \<and>
     pc_parent s = F_Exit (if env_shmdt (pc_env_of s) then EXIT_SUCCESS else EXIT_FAILURE) \<and>
     length (made_log (pc_out s)) = 9 \<and> taken_log (pc_out s) = made_log (pc_out s)"

lemma all_done:
  assumes "tally proc_done ps = int (length ps)" "p \<in> set ps" shows "proc_done p = 1"
proof -
  have "tally (\<lambda>p. 1 - proc_done p) ps = 0" using assms(1) by (simp add: tally_compl)
  then show ?thesis using assms(2) by (subst (asm) tally_zero_iff) auto
qed

lemma done_succeeded: "proc_done p = 1 \<Longrightarrow> local_ok a b p \<Longrightarrow> succeeded p \<and> to_put p = 0 \<and> to_take p = 0"
  by (cases p rule: proc_done.cases) auto

lemma done_outside: "proc_done p = 1 \<Longrightarrow> in_cs p = 0"
  by (cases p rule: proc_done.cases) auto

lemma pc_final_of_done:
  assumes inv: "pc_inv e s" and five: "length (pc_procs s) = 5"
    and fin: "tally proc_done (pc_procs s) = 5"
  shows "(\<forall>p \<in> set (pc_procs s). succeeded p) \<and> length (made_log (pc_out s)) = 9 \<and>
         taken_log (pc_out s) = made_log (pc_out s)"
proof -
  let ?ps = "pc_procs s"
  have d: "proc_done p = 1" if "p \<in> set ?ps" for p using all_done [of ?ps] fin five that by simp
  have loc: "local_ok (pos_p s) (pos_c s) p" if "p \<in> set ?ps" for p
    using inv that by (simp add: inv_defs)
  have "tally to_put ?ps = 0" "tally to_take ?ps = 0" "tally in_cs ?ps = 0"
    by (rule tally_eq_0, metis d loc done_succeeded done_outside)+
  moreover have "pos_p s + tally to_put ?ps = 9" "pos_c s + tally to_take ?ps = 9"
    using inv five by (simp_all add: inv_defs pc_children_def make_producer_def make_consumer_def)
  ultimately have pos: "pos_p s = 9" "pos_c s = 9" "tally printed ?ps = 0" "tally taken ?ps = 0"
    using nobody_facts [of ?ps] by auto
  moreover have "\<forall>p \<in> set ?ps. succeeded p" using d loc done_succeeded by metis
  ultimately show ?thesis using inv by (auto simp: pc_inv_def log_inv_def)
qed

lemma pc_progress:
  assumes inv: "pc_inv e s" and forks: "\<And>k. env_fork e k" and stuck: "\<nexists>t. pc_step s t"
  shows "pc_final s"
proof -
  have env: "pc_env_of s = e" using inv by (simp add: pc_inv_def)
  have no_parent: "pc_parent_exec s = None" and no_child: "\<nexists>i t. pc_exec i s = Some t"
    using stuck by (metis not_None_eq pc_par, metis pc_child)
  have five: "length (pc_procs s) = 5"
    using inv no_parent forks env by (cases "pc_parent s") (auto simp: pc_inv_def pc_parent_exec_def split: if_splits)
  then have fin: "tally proc_done (pc_procs s) = 5"
    using pc_live [OF inv five] no_child proc_done_le [of "pc_procs s"] by force
  have "pc_parent s = F_Exit (if env_shmdt e then EXIT_SUCCESS else EXIT_FAILURE)"
    using inv no_parent forks env five fin
    by (cases "pc_parent s")
       (auto simp: pc_inv_def pc_parent_exec_def EXIT_SUCCESS_def EXIT_FAILURE_def split: if_splits)
  with pc_final_of_done [OF inv five fin] five env show ?thesis by (simp add: pc_final_def)
qed

end
