(* ===== verification/Producer_Consumer_Facts.thy ===== *)
theory Producer_Consumer_Facts
  imports Producer_Consumer
begin

text \<open>
  What the producers and consumers of \<open>5-semestr/lab5/task1.c\<close> achieve: the letters that each
  producer prints, the properties of the whole program, and the runs that show what happens when
  the segment is only as large as it was asked for and when a \<open>fork\<close> fails.
\<close>

section \<open>The letters of each producer\<close>

text \<open>
  Every producer counts with its own copy of \<open>output\<close>: what it prints is determined by how many
  iterations it has left.
\<close>

fun letters_of :: "nat \<Rightarrow> pc_event list \<Rightarrow> int list" where
  "letters_of pid [] = []"
| "letters_of pid (Produced q p c # es) = (if q = pid then c # letters_of pid es else letters_of pid es)"
| "letters_of pid (Consumed q p c # es) = letters_of pid es"

lemma letters_of_append [simp]: "letters_of pid (es @ fs) = letters_of pid es @ letters_of pid fs"
  by (induction pid es rule: letters_of.induct) auto

fun counted :: "prod_pc \<Rightarrow> int" where
  "counted Pr_Load = 1"
| "counted (Pr_Store r) = 1"
| "counted Pr_Stop = 1"
| "counted pc = 0"

fun letters_ok :: "pc_state \<Rightarrow> nat \<Rightarrow> pc_proc \<Rightarrow> bool" where
  "letters_ok s i (Producer pid pc left out) =
     (i = pid + 2 \<and> pid < 3 \<and> left \<le> 3 \<and> out = 100 - int left + counted pc \<and>
      (pc = Pr_Print \<longrightarrow> pc_seg s ! (8 + nat (pos_p s)) = out) \<and>
      letters_of pid (pc_out s) = [97..out - 1] @ (if pc = Pr_Out then [out] else []))"
| "letters_ok s i (Consumer pid pc left) = (i < 2)"

definition letters_inv :: "pc_state \<Rightarrow> bool" where
  "letters_inv s \<longleftrightarrow>
     (\<forall>i < length (pc_procs s). letters_ok s i (pc_procs s ! i)) \<and>
     (\<forall>i. length (pc_procs s) \<le> i + 2 \<longrightarrow> letters_of i (pc_out s) = [])"

text \<open>Only the letters of its own number, and the cell being filled, matter to a producer.\<close>

lemma letters_ok_cong:
  assumes "letters_ok s i p"
    and "\<And>pid pc left out. p = Producer pid pc left out \<Longrightarrow>
           letters_of pid (pc_out t) = letters_of pid (pc_out s)"
    and "\<And>pid left out. p = Producer pid Pr_Print left out \<Longrightarrow>
           pc_seg t ! (8 + nat (pos_p t)) = pc_seg s ! (8 + nat (pos_p s))"
  shows "letters_ok t i p"
  using assms by (cases p) auto

lemma letters_inv_update:
  assumes inv: "pc_inv e s" and L: "letters_inv s" and i: "i < length (pc_procs s)"
    and procs: "pc_procs t = (pc_procs s)[i := p']" and own: "letters_ok t i p'"
    and same: "\<And>q. q + 2 \<noteq> i \<Longrightarrow> letters_of q (pc_out t) = letters_of q (pc_out s)"
    and seg: "pc_seg t = pc_seg s \<or> in_cs (pc_procs s ! i) = 1"
    and none: "\<And>q. length (pc_procs s) \<le> q + 2 \<Longrightarrow> letters_of q (pc_out t) = []"
  shows "letters_inv t"
  unfolding letters_inv_def
proof (intro conjI allI impI)
  fix j assume j: "j < length (pc_procs t)"
  show "letters_ok t j (pc_procs t ! j)"
  proof (cases "j = i")
    case False
    have old: "letters_ok s j (pc_procs s ! j)" using L j procs by (simp add: letters_inv_def)
    have print: "pc_seg t ! (8 + nat (pos_p t)) = pc_seg s ! (8 + nat (pos_p s))"
      if "pc_procs s ! j = Producer pid Pr_Print left out" for pid left out
    proof -
      have "in_cs (pc_procs s ! i) \<noteq> 1"
        using tally_ge_two [of in_cs i "pc_procs s" j] that i j procs False inv
        by (auto simp: pc_inv_def sems_inv_def)
      with seg show ?thesis by simp
    qed
    have "letters_ok t j (pc_procs s ! j)"
      using old print same False by (intro letters_ok_cong [OF old]) auto
    with False procs show ?thesis by simp
  qed (use own procs i in simp)
qed (use none procs in auto)

text \<open>What one step of a process can change.\<close>

lemma pc_semop_effects:
  "pc_semop bs a b s = Go pc' t \<Longrightarrow>
     pc_procs t = pc_procs s \<and> pc_out t = pc_out s \<and> pc_seg t = pc_seg s \<and> pc_env_of t = pc_env_of s"
  by (auto simp: pc_semop_def split: sem_outcome.splits)

lemma producer_effects:
  assumes "producer pid left out pc s = Go pc' t"
  shows "pc_procs t = pc_procs s"
    and "pc_out t = pc_out s \<or> (\<exists>p c. pc_out t = pc_out s @ [Produced pid p c])"
    and "pc_seg t = pc_seg s \<or> (\<forall>l x. in_cs (Producer pid pc l x) = 1)"
  using assms pc_semop_effects by (cases pc; fastforce split: sum.splits if_splits)+

lemma consumer_effects:
  assumes "consumer pid left pc s = Go pc' t"
  shows "pc_procs t = pc_procs s"
    and "pc_out t = pc_out s \<or> (\<exists>p c. pc_out t = pc_out s @ [Consumed pid p c])"
    and "pc_seg t = pc_seg s \<or> (\<forall>l. in_cs (Consumer pid pc l) = 1)"
  using assms pc_semop_effects by (cases pc; fastforce split: sum.splits if_splits)+

lemma letters_inv_producer:
  assumes inv: "pc_inv e s" and L: "letters_inv s" and i: "i < length (pc_procs s)"
    and p: "pc_procs s ! i = Producer pid pc left out"
    and st: "pc_proc_step (Producer pid pc left out) s = Some (p', t)"
  shows "letters_inv (t\<lparr>pc_procs := (pc_procs t)[i := p']\<rparr>)"
proof -
  have ok: "letters_ok s i (Producer pid pc left out)" using L i p by (metis letters_inv_def)
  have loc: "local_ok (pos_p s) (pos_c s) (Producer pid pc left out)"
    using inv i p by (metis nth_mem pc_inv_def work_inv_def)
  have none: "letters_of q (pc_out s) = []" if "length (pc_procs s) \<le> q + 2" for q
    using L that by (simp add: letters_inv_def)
  have stop: "pc = Pr_Stop \<Longrightarrow> p' = Producer pid Pr_Loop (left - 1) out"
    using st pc_inv_prod_stop [OF inv i, of pid left out] p by (auto split: move.splits)
  have start: "pc = Pr_Start \<Longrightarrow> p' = Producer pid Pr_Put left out"
  proof -
    obtain b em f where bef: "pc_sems s = [b, em, f]" using sems_of_inv [OF inv] by blast
    show "pc = Pr_Start \<Longrightarrow> p' = Producer pid Pr_Put left out"
      using st bef sems_bounds [OF inv bef] semop_producer_start [of b em f]
      by (auto simp: pc_semop_def SEMVMX_def split: if_splits)
  qed
  have out: "97 \<le> out" "out \<le> 100" "pc = Pr_Put \<Longrightarrow> out \<le> 99"
    using ok loc by (cases pc; simp)+
  note facts = inside_facts [OF inv i p]
  obtain pc' where go: "producer pid left out pc s = Go pc' t" using st by (auto split: move.splits)
  note eff = producer_effects [OF go]
  show ?thesis
  proof (rule letters_inv_update [OF inv L i])
    show "letters_ok (t\<lparr>pc_procs := (pc_procs t)[i := p']\<rparr>) i p'"
    proof (cases pc)
      case Pr_Loop then show ?thesis using st ok by (auto split: if_splits)
    next
      case Pr_Start then show ?thesis using st ok start by (auto simp: pc_semop_def split: sem_outcome.splits move.splits sum.splits if_splits)
    next
      case Pr_Put then show ?thesis using st ok out facts by (auto simp: nth_list_update)
    next
      case Pr_Print then show ?thesis using st ok facts by auto
    next
      case Pr_Out then show ?thesis using st ok out upto_rec2 [of 97 out] by auto
    next
      case Pr_Load then show ?thesis using st ok facts by auto
    next
      case (Pr_Store r) then show ?thesis using st ok facts by auto
    next
      case Pr_Stop then show ?thesis using st ok loc stop by (auto simp: pc_semop_def split: sem_outcome.splits move.splits sum.splits if_splits)
    next
      case (Pr_Done x) then show ?thesis using st by simp
    qed
  next
    show "letters_of q (pc_out (t\<lparr>pc_procs := (pc_procs t)[i := p']\<rparr>)) = letters_of q (pc_out s)"
      if "q + 2 \<noteq> i" for q using that eff ok by auto
  next
    show "letters_of q (pc_out (t\<lparr>pc_procs := (pc_procs t)[i := p']\<rparr>)) = []"
      if "length (pc_procs s) \<le> q + 2" for q using that eff ok none i by auto
  qed (use eff p in auto)
qed

lemma letters_inv_consumer:
  assumes inv: "pc_inv e s" and L: "letters_inv s" and i: "i < length (pc_procs s)"
    and p: "pc_procs s ! i = Consumer pid pc left"
    and st: "pc_proc_step (Consumer pid pc left) s = Some (p', t)"
  shows "letters_inv (t\<lparr>pc_procs := (pc_procs t)[i := p']\<rparr>)"
proof -
  have "letters_ok s i (Consumer pid pc left)" using L i p by (metis letters_inv_def)
  then have i2: "i < 2" by simp
  have none: "letters_of q (pc_out s) = []" if "length (pc_procs s) \<le> q + 2" for q
    using L that by (simp add: letters_inv_def)
  obtain pc' l where go: "consumer pid left pc s = Go pc' t" and p': "p' = Consumer pid pc' l"
    using st by (auto split: move.splits)
  note eff = consumer_effects [OF go]
  have same: "letters_of q (pc_out t) = letters_of q (pc_out s)" for q using eff(2) by auto
  show ?thesis
    by (rule letters_inv_update [OF inv L i]) (use eff p p' i2 same none in auto)
qed

lemma letters_inv_exec:
  assumes "pc_inv e s" "letters_inv s" "pc_exec i s = Some t" shows "letters_inv t"
proof -
  have i: "i < length (pc_procs s)" using assms(3) by (auto simp: pc_exec_def split: if_splits)
  then obtain p' u where u: "pc_proc_step (pc_procs s ! i) s = Some (p', u)"
    "t = u\<lparr>pc_procs := (pc_procs u)[i := p']\<rparr>"
    using assms(3) by (auto simp: pc_exec_def)
  show ?thesis
  proof (cases "pc_procs s ! i")
    case (Producer pid pc left out)
    with u show ?thesis using letters_inv_producer [OF assms(1,2) i Producer] by simp
  next
    case (Consumer pid pc left)
    with u show ?thesis using letters_inv_consumer [OF assms(1,2) i Consumer] by simp
  qed
qed

lemma child_letters:
  assumes "k < 5" "\<And>i. k \<le> i + 2 \<Longrightarrow> letters_of i (pc_out s) = []"
  shows "letters_ok s k (pc_children ! k)"
proof -
  from assms(1) have "k \<in> {0, 1, 2, 3, 4}" by auto
  with assms(2) show ?thesis
    by (auto simp: pc_children_def make_producer_def make_consumer_def output_init_def)
qed

lemma letters_ok_out:
  "letters_ok s i p \<Longrightarrow> pc_out t = pc_out s \<Longrightarrow> pc_seg t = pc_seg s \<Longrightarrow> letters_ok t i p"
  by (rule letters_ok_cong) auto

lemma letters_inv_parent:
  assumes inv: "pc_inv e s" and L: "letters_inv s" and st: "pc_parent_exec s = Some t"
  shows "letters_inv t"
proof -
  have none: "letters_of q (pc_out s) = []" if "length (pc_procs s) \<le> q + 2" for q
    using L that by (simp add: letters_inv_def)
  have same: "pc_out t = pc_out s" "pc_seg t = pc_seg s"
    using st by (cases "pc_parent s"; auto simp: pc_parent_exec_def split: if_splits)+
  have procs: "pc_procs t = pc_procs s \<or>
      (length (pc_procs s) < 5 \<and> pc_procs t = pc_procs s @ [pc_children ! length (pc_procs s)])"
    using st inv by (cases "pc_parent s") (auto simp: pc_parent_exec_def pc_inv_def split: if_splits)
  have old: "letters_ok t i (pc_procs s ! i)" if "i < length (pc_procs s)" for i
    by (rule letters_ok_out [of s]) (use L that same in \<open>simp_all add: letters_inv_def\<close>)
  have new: "letters_ok t (length (pc_procs s)) (pc_children ! length (pc_procs s))"
    if "length (pc_procs s) < 5"
    using child_letters [OF that, of t] none same by simp
  show ?thesis
    using procs old new none same by (auto simp: letters_inv_def nth_append less_Suc_eq)
qed

lemma letters_inv_step:
  "pc_inv e s \<Longrightarrow> letters_inv s \<Longrightarrow> pc_step s t \<Longrightarrow> letters_inv t"
  by (auto elim: pc_stepE intro: letters_inv_exec letters_inv_parent)

lemma letters_inv_init: "pc_init_room s \<Longrightarrow> letters_inv s"
  using pc_main_fresh [of "pc_env_of s" s]
  by (simp add: pc_init_room_def pc_init_def letters_inv_def pc_fresh_def)
     (metis letters_of.simps(1) list.size(3) not_less_zero pc_state.select_convs(3,4))

interpretation pcl: invariant pc_init_room pc_step
    "\<lambda>s. pc_inv (pc_env_of s) s \<and> letters_inv s"
proof unfold_locales
  show "pc_inv (pc_env_of s) s \<and> letters_inv s" if "pc_init_room s" for s
    using that pcs.inv_init letters_inv_init by blast
  show "pc_inv (pc_env_of t) t \<and> letters_inv t"
    if "pc_inv (pc_env_of s) s \<and> letters_inv s" "pc_step s t" for s t
    using that pcs.inv_step letters_inv_step by blast
qed

section \<open>Runs of a schedule\<close>

text \<open>\<open>None\<close> names the parent, \<open>Some i\<close> the child in position \<open>i\<close>.\<close>

fun pc_choose :: "nat option \<Rightarrow> pc_state \<Rightarrow> pc_state option" where
  "pc_choose None s = pc_parent_exec s"
| "pc_choose (Some i) s = pc_exec i s"

fun pc_sched :: "nat option list \<Rightarrow> pc_state \<Rightarrow> pc_state option" where
  "pc_sched [] s = Some s"
| "pc_sched (c # cs) s = (case pc_choose c s of None \<Rightarrow> None | Some t \<Rightarrow> pc_sched cs t)"

lemma pc_sched_steps: "pc_sched cs s = Some t \<Longrightarrow> reachable ini pc_step s \<Longrightarrow> reachable ini pc_step t"
proof (induction cs arbitrary: s)
  case (Cons c cs)
  then obtain u where u: "pc_choose c s = Some u" "pc_sched cs u = Some t"
    by (auto split: option.splits)
  then have "pc_step s u" by (cases c) (auto intro: pc_step.intros)
  with Cons u show ?case by (blast intro: reach_step)
qed simp

lemma pc_sched_append:
  "pc_sched (cs @ ds) s = (case pc_sched cs s of None \<Rightarrow> None | Some t \<Rightarrow> pc_sched ds t)"
  by (induction cs arbitrary: s) (auto split: option.splits)

definition pc_env_ok :: "nat \<Rightarrow> pc_env" where
  "pc_env_ok cells = \<lparr>env_shmget = True, env_shmat = True, env_semget = True, env_semctl = (\<lambda>_. True),
     env_cells = cells, env_fork = (\<lambda>_. True), env_shmdt = True\<rparr>"

lemma pc_env_ok_cells [simp]: "env_cells (pc_env_ok c) = c"
  by (simp add: pc_env_ok_def)

lemma pc_fresh_init:
  assumes "env_shmget e" "env_shmat e" "env_semget e" "\<And>k. env_semctl e k" "5 \<le> env_cells e"
  shows "pc_init (pc_fresh e)"
  using assms
  by (simp add: pc_init_def pc_fresh_def pc_main_def store_def layout_defs replicate_update)

definition pc_forked :: "pc_env \<Rightarrow> pc_state" where
  "pc_forked e = (pc_fresh e)\<lparr>pc_procs := pc_children, pc_parent := F_Fork 5\<rparr>"

lemma pc_forked_run:
  "(\<And>k. env_fork e k) \<Longrightarrow> pc_sched (replicate 5 None) (pc_fresh e) = Some (pc_forked e)"
  by (simp add: numeral_eq_Suc pc_parent_exec_def pc_forked_def pc_fresh_def pc_children_def)

lemma pc_ok_init: "17 \<le> c \<Longrightarrow> pc_init_room (pc_fresh (pc_env_ok c))"
  using pc_fresh_init [of "pc_env_ok c"]
  by (simp add: pc_init_room_def pc_env_ok_def) (simp add: pc_fresh_def)

lemma pc_forked_reachable: "17 \<le> c \<Longrightarrow> pc_reachable (pc_forked (pc_env_ok c))"
  by (rule pc_sched_steps [OF pc_forked_run reach_init [of pc_init_room, OF pc_ok_init]])
     (simp_all add: pc_env_ok_def)

lemmas pc_run_simps =
  pc_exec_def pc_parent_exec_def make_producer_def make_consumer_def output_init_def pc_children_def
  pc_semop_def semop_producer_start semop_producer_stop semop_consumer_start semop_consumer_stop
  SEMVMX_def pc_N_def load_def store_def layout_defs

lemma map_int_upto: "map int [0..<n] = [0..int n - 1]"
  by (induction n) (simp_all add: upto_rec2)

lemma printed_slot: "printed p \<le> slot_held p"
  by (cases p rule: in_cs.cases) auto

section \<open>Properties\<close>

lemma pc_reachable_inv:
  "pc_reachable s \<Longrightarrow> pc_inv (pc_env_of s) s" "pc_reachable s \<Longrightarrow> letters_inv s"
  using pcl.reachable_inv by blast+

text \<open>C5: mutual exclusion. In every reachable state, with a segment of the size the system gives,
  at most one of the five processes is between its two \<open>semop\<close> calls, and the semaphore
  \<open>SEM_BINARY\<close> says whether one is.\<close>

theorem pc_mutual_exclusion:
  assumes "pc_reachable s"
  shows "tally in_cs (pc_procs s) = 1 - pc_sems s ! SEM_BINARY \<and> tally in_cs (pc_procs s) \<le> 1 \<and>
         0 \<le> pc_sems s ! SEM_BINARY"
  using pc_reachable_inv [OF assms] by (auto simp: inv_defs cfg_defs)

theorem pc_mutual_exclusion_witness:
  "tally in_cs (pc_procs (pc_forked (pc_env_ok 1024))) \<le> 1"
  using pc_mutual_exclusion [OF pc_forked_reachable, of 1024] by simp

text \<open>C6: the buffer is a first-in first-out queue. In every reachable state the producers together
  have filled the positions 0, 1, 2, ... in order; what the consumers took is what was put, in the
  same order and each letter once; at most nine letters are ever put.\<close>

theorem pc_fifo:
  assumes "pc_reachable s"
  shows "taken_log (pc_out s) = take (length (taken_log (pc_out s))) (made_log (pc_out s)) \<and>
         map fst (made_log (pc_out s)) = [0..int (length (made_log (pc_out s))) - 1] \<and>
         length (made_log (pc_out s)) \<le> 9"
proof -
  let ?m = "made_log (pc_out s)"
  note inv = pc_reachable_inv(1) [OF assms]
  have log: "?m ! j = (int j, pc_seg s ! (8 + j))" if "j < length ?m" for j
    using inv that by (simp add: inv_defs)
  have "map fst ?m = map int [0..<length ?m]" by (rule nth_equalityI) (auto simp: log)
  moreover have "tally printed (pc_procs s) \<le> tally slot_held (pc_procs s)"
    by (rule tally_mono) (use printed_slot in simp)
  then have "int (length ?m) \<le> 9"
    using inv work_bounds(1) [of s] by (simp add: pc_inv_def log_inv_def)
  moreover have "taken_log (pc_out s) = take (length (taken_log (pc_out s))) ?m"
    using inv by (auto simp: inv_defs min_def)
  ultimately show ?thesis by (simp add: map_int_upto)
qed

text \<open>C7: no child fails. In every reachable state no process of the program has been killed by an
  access outside the segment and none has exited with \<open>EXIT_FAILURE\<close>; a process that has ended
  has done all its iterations.\<close>

theorem pc_no_fault:
  assumes "pc_reachable s" and "p \<in> set (pc_procs s)" and "proc_done p = 1"
  shows "succeeded p \<and> to_put p = 0 \<and> to_take p = 0"
  using assms pc_reachable_inv(1) [OF assms(1)] done_succeeded [OF assms(3)] by (auto simp: inv_defs)

lemma pc_steps_inv: "steps pc_step n s t \<Longrightarrow> pc_inv e s \<Longrightarrow> pc_inv e t"
  by (induction rule: steps.induct) (auto intro: pc_inv_step)

lemma succeeded_done: "succeeded p \<Longrightarrow> proc_done p = 1"
  by (cases p) auto

text \<open>C8: every run ends. Whatever the schedule, the program makes at most 174 steps (statements of
  all its processes together), and if no \<open>fork\<close> fails every run can be extended to a state without
  a successor in which all children have ended well, nine letters have been put and taken, and the
  parent has exited.\<close>

theorem pc_terminates:
  assumes "pc_init_room s" and "steps pc_step n s t"
  shows "n \<le> 174 \<and>
    ((\<forall>k. env_fork (pc_env_of s) k) \<longrightarrow> (\<exists>m u. steps pc_step m t u \<and> pc_final u \<and> (\<nexists>v. pc_step u v)))"
proof
  let ?e = "pc_env_of s"
  have s: "s = pc_fresh ?e" using assms(1) by (auto simp: pc_init_room_def pc_init_def intro: pc_main_fresh)
  have "pc_left (pc_fresh ?e) = 174"
    by (simp add: pc_left_def pc_fresh_def pc_children_def make_producer_def make_consumer_def)
  then have left: "pc_left s = 174" using s by simp
  have inv: "pc_inv ?e s" using assms(1) by (rule pc_inv_init)
  from pcs.run_bound [OF assms(2) inv] left show "n \<le> 174" by simp
  have t: "pc_inv (pc_env_of s) t" using pc_steps_inv [OF assms(2) inv] .
  then have "pc_inv (pc_env_of t) t" by (simp add: pc_inv_def)
  then obtain m u where u: "steps pc_step m t u" "(\<forall>k. env_fork (pc_env_of u) k) \<longrightarrow> pc_final u"
    "\<nexists>v. pc_step u v"
    using pcs.reaches_final [of "\<lambda>u. (\<forall>k. env_fork (pc_env_of u) k) \<longrightarrow> pc_final u" t] pc_progress
    by blast
  from pc_steps_inv [OF u(1) t] have "pc_env_of u = ?e" by (simp add: pc_inv_def)
  with u show "(\<forall>k. env_fork ?e k) \<longrightarrow> (\<exists>m u. steps pc_step m t u \<and> pc_final u \<and> (\<nexists>v. pc_step u v))" by metis
qed

theorem pc_terminates_witness:
  "\<exists>m u. steps pc_step m (pc_fresh (pc_env_ok 1024)) u \<and> pc_final u"
  using pc_terminates [OF pc_ok_init steps_0, of 1024]
  by (simp add: pc_env_ok_def) (auto simp: pc_fresh_def)

text \<open>A final state of the program, with all that was printed.\<close>

lemma pc_final_exists: "\<exists>u. pc_reachable u \<and> pc_final u"
proof -
  let ?s = "pc_fresh (pc_env_ok 1024)"
  have "pc_env_of ?s = pc_env_ok 1024" by (simp add: pc_fresh_def)
  then have forks: "env_fork (pc_env_of ?s) k" for k by (simp add: pc_env_ok_def)
  have init: "pc_init_room ?s" by (rule pc_ok_init) simp
  have inv: "pc_inv (pc_env_of ?s) ?s" using init by (rule pc_inv_init)
  obtain m u where "steps pc_step m ?s u" "(\<forall>k. env_fork (pc_env_of u) k) \<longrightarrow> pc_final u"
    using pcs.reaches_final [of "\<lambda>u. (\<forall>k. env_fork (pc_env_of u) k) \<longrightarrow> pc_final u", OF _ inv] pc_progress
    by blast
  moreover from this(1) have "pc_env_of u = pc_env_of ?s" using pc_steps_inv [OF _ inv] by (auto simp: pc_inv_def)
  moreover have "pc_reachable u" using calculation(1) init by (blast intro: reachable_steps reach_init)
  ultimately show ?thesis using forks by metis
qed

text \<open>C9: every producer prints its own alphabet. Since each child counts with its own copy of
  \<open>output\<close>, producer \<open>pid\<close> prints a, b, c whatever the others do: in every reachable state its letters
  are a beginning of 97, 98, 99, and all of it when the program has ended.\<close>

theorem pc_letters:
  assumes "pc_reachable s" and "pid < 3"
  shows "(\<exists>n. letters_of pid (pc_out s) = take n [97, 98, 99]) \<and>
         (pc_final s \<longrightarrow> letters_of pid (pc_out s) = [97, 98, 99])"
proof -
  note L = pc_reachable_inv(2) [OF assms(1)]
  show ?thesis
  proof (cases "pid + 2 < length (pc_procs s)")
    case False
    then have "letters_of pid (pc_out s) = []" using L by (simp add: letters_inv_def)
    moreover have "\<not> pc_final s" using False assms(2) by (auto simp: pc_final_def)
    ultimately show ?thesis by auto
  next
    case True
    then have ok: "letters_ok s (pid + 2) (pc_procs s ! (pid + 2))" using L by (simp add: letters_inv_def)
    then obtain pc left out where p: "pc_procs s ! (pid + 2) = Producer pid pc left out" 
      by (cases "pc_procs s ! (pid + 2)") auto
    have mem: "Producer pid pc left out \<in> set (pc_procs s)" using p True by (metis nth_mem)
    have loc: "local_ok (pos_p s) (pos_c s) (Producer pid pc left out)"
      using pc_reachable_inv(1) [OF assms(1)] mem by (simp add: inv_defs)
    have "left \<in> {0, 1, 2, 3}" using ok p by auto
    then have "letters_of pid (pc_out s) \<in> set (map (\<lambda>n. take n [97, 98, 99]) [0..<4])"
      using ok loc p by (cases pc) (auto simp: upt_rec upto.simps)
    moreover have "pc_final s \<Longrightarrow> letters_of pid (pc_out s) = [97, 98, 99]"
      using ok loc p mem by (auto simp: pc_final_def upto.simps)
    ultimately show ?thesis by auto
  qed
qed

theorem pc_letters_witness:
  "\<exists>s. pc_final s \<and> letters_of 0 (pc_out s) = [97, 98, 99] \<and> letters_of 2 (pc_out s) = [97, 98, 99]"
  using pc_final_exists pc_letters [of _ 0] pc_letters [of _ 2] by fastforce

theorem pc_fifo_witness: "\<exists>s :: pc_state. length (made_log (pc_out s)) = 9 \<and>
  map fst (made_log (pc_out s)) = [0, 1, 2, 3, 4, 5, 6, 7, 8]"
proof -
  obtain s where s: "pc_reachable s" "pc_final s" using pc_final_exists by blast
  then have "length (made_log (pc_out s)) = 9" by (simp add: pc_final_def)
  with pc_fifo [OF s(1)] have "map fst (made_log (pc_out s)) = [0, 1, 2, 3, 4, 5, 6, 7, 8]"
    by (simp add: upto.simps)
  with \<open>length (made_log (pc_out s)) = 9\<close> show ?thesis by (intro exI [of _ s] conjI)
qed

theorem pc_no_fault_witness:
  "\<exists>(s :: pc_state) p. p \<in> set (pc_procs s) \<and> succeeded p \<and> to_put p = 0"
proof -
  obtain s where s: "pc_reachable s" "pc_final s" using pc_final_exists by blast
  then have p: "pc_procs s ! 0 \<in> set (pc_procs s)" "succeeded (pc_procs s ! 0)"
    by (auto simp: pc_final_def)
  from p(2) have "proc_done (pc_procs s ! 0) = 1" by (rule succeeded_done)
  from pc_no_fault [OF s(1) p(1) this] p(1) show ?thesis by blast
qed

text \<open>
  A segment of exactly the size the program asks for, 44 bytes: the first three letters fill
  its last cells, the fourth does not fit.
\<close>

lemma pc_small_segment: "shm_size = 11 * sizeof_int"
  by (simp add: shm_size_def pc_N_def)

text \<open>The requested size is too small. Were the segment as large as the \<open>shm_size\<close> the program
  asks for, and not rounded up to a page, then a producer would be killed by an access outside it:
  the pointers are \<open>int *\<close>, so \<open>+ sizeof(int)\<close> moves by four cells and the buffer begins at cell 8.\<close>

theorem pc_requested_size_overflows:
  "\<exists>t. reachable pc_init pc_step t \<and> int (env_cells (pc_env_of t)) * sizeof_int = shm_size \<and>
       Producer 1 (Pr_Done Segv) 3 97 \<in> set (pc_procs t)"
proof -
  let ?e = "pc_env_ok 11"
  have init: "reachable pc_init pc_step (pc_fresh ?e)"
    by (intro reach_init pc_fresh_init) (auto simp: pc_env_ok_def)
  then have forked: "reachable pc_init pc_step (pc_forked ?e)"
    by (rule pc_sched_steps [OF pc_forked_run, rotated]) (auto simp: pc_env_ok_def)
  define cs where "cs = replicate 24 (Some (2::nat)) @ [Some 3, Some 3, Some 3]"
  have "\<exists>t. pc_sched cs (pc_forked ?e) = Some t \<and> pc_env_of t = ?e \<and>
      Producer 1 (Pr_Done Segv) 3 97 \<in> set (pc_procs t)"
    by (simp add: numeral_eq_Suc pc_run_simps pc_forked_def pc_fresh_def cs_def)
  then obtain t where t: "pc_sched cs (pc_forked ?e) = Some t" "pc_env_of t = ?e"
    "Producer 1 (Pr_Done Segv) 3 97 \<in> set (pc_procs t)" by blast
  from pc_sched_steps [OF t(1) forked] t show ?thesis
    by (intro exI [of _ t]) (simp add: pc_small_segment pc_env_ok_def)
qed

text \<open>A failed \<open>fork\<close> leaves the children behind. If the second \<open>fork\<close> fails the parent exits
  with \<open>EXIT_FAILURE\<close> without waiting for the first child, which is blocked on its first
  \<open>semop\<close> for ever: no process of the program can make a step.\<close>

theorem pc_fork_failure_orphan:
  "\<exists>t. pc_reachable t \<and> pc_parent t = F_Exit EXIT_FAILURE \<and> pc_procs t = [Consumer 0 Co_Start 4] \<and>
       (\<nexists>u. pc_step t u)"
proof -
  let ?e = "(pc_env_ok 1024)\<lparr>env_fork := (\<lambda>k. k < 1)\<rparr>"
  define t where "t = (pc_fresh ?e)\<lparr>pc_procs := [Consumer 0 Co_Start 4], pc_parent := F_Exit EXIT_FAILURE\<rparr>"
  have "pc_init_room (pc_fresh ?e)"
    using pc_fresh_init [of ?e] by (simp add: pc_init_room_def pc_env_ok_def) (simp add: pc_fresh_def)
  then have "pc_reachable (pc_fresh ?e)" by (rule reach_init)
  moreover have "pc_sched [None, None, Some 0] (pc_fresh ?e) = Some t"
    by (simp add: pc_run_simps pc_fresh_def pc_env_ok_def t_def)
  ultimately have "pc_reachable t" by (blast intro: pc_sched_steps)
  moreover have "\<nexists>u. pc_step t u"
    by (auto elim!: pc_stepE simp: pc_run_simps pc_fresh_def t_def less_Suc_eq_le not_le split: if_splits)
  ultimately show ?thesis by (intro exI [of _ t]) (simp add: t_def)
qed

end
