(* ===== verification/Producer_Consumer_V2.thy ===== *)
theory Producer_Consumer_V2
  imports Producer_Consumer_Facts
begin

text \<open>
  The variant \<open>5-semestr/lab5/v2.c\<close> of the producers and consumers. It keeps the letter to be
  produced behind the global pointer \<open>value\<close>, which is never given an object to point to. The
  tables and the functions are modelled anew; the numbers of the semaphores and the layout of the segment
  (lines 17 to 24 and 126 to 128) are those of \<open>task1.c\<close> and are shared. \<open>main\<close> never gets to its first
  \<open>fork\<close>, so the children and what the parent does after it have no runs; of that code only the two functions
  \<open>producer\<close> and \<open>consumer\<close> are modelled.
\<close>

section \<open>The tables\<close>

definition v2_N :: int where "v2_N = 9"
definition v2_shm_size :: int where "v2_shm_size = (v2_N + 2) * sizeof_int"
definition v2_P :: int where "v2_P = -1"
definition v2_V :: int where "v2_V = 1"

definition v2_producer_start :: "sembuf list" where
  "v2_producer_start = [\<lparr>sem_num = SEM_EMPTY, sem_op = v2_P, sem_flg = 0\<rparr>, \<lparr>sem_num = SEM_BINARY, sem_op = v2_P, sem_flg = 0\<rparr>]"

definition v2_producer_stop :: "sembuf list" where
  "v2_producer_stop = [\<lparr>sem_num = SEM_BINARY, sem_op = v2_V, sem_flg = 0\<rparr>, \<lparr>sem_num = SEM_FULL, sem_op = v2_V, sem_flg = 0\<rparr>]"

definition v2_consumer_start :: "sembuf list" where
  "v2_consumer_start = [\<lparr>sem_num = SEM_FULL, sem_op = v2_P, sem_flg = 0\<rparr>, \<lparr>sem_num = SEM_BINARY, sem_op = v2_P, sem_flg = 0\<rparr>]"

definition v2_consumer_stop :: "sembuf list" where
  "v2_consumer_stop = [\<lparr>sem_num = SEM_BINARY, sem_op = v2_V, sem_flg = 0\<rparr>, \<lparr>sem_num = SEM_EMPTY, sem_op = v2_V, sem_flg = 0\<rparr>]"

text \<open>They are those of \<open>task1.c\<close>.\<close>

lemma v2_tables [simp]:
  "v2_N = pc_N" "v2_shm_size = shm_size" "v2_producer_start = producer_start" "v2_producer_stop = producer_stop"
  "v2_consumer_start = consumer_start" "v2_consumer_stop = consumer_stop"
  by (simp_all add: v2_N_def pc_N_def v2_shm_size_def shm_size_def v2_P_def op_P_def v2_V_def op_V_def
      v2_producer_start_def producer_start_def v2_producer_stop_def producer_stop_def
      v2_consumer_start_def consumer_start_def v2_consumer_stop_def consumer_stop_def)

section \<open>The processes\<close>

text \<open>
  The object \<open>value\<close> points to: \<open>None\<close> for the null pointer it is initialised with. It is a
  \<open>char\<close>, and every process has its own.
\<close>

type_synonym v2_value = "int option"

definition value_init :: v2_value where
  "value_init = None"

definition v2_next :: "int \<Rightarrow> int" where
  "v2_next c = (if c = 122 then 97 else to_s8 (c + 1))"

fun v2_producer ::
  "nat \<Rightarrow> nat \<Rightarrow> v2_value \<Rightarrow> prod_pc \<Rightarrow> pc_state \<Rightarrow> (prod_pc move \<times> v2_value)" where
  "v2_producer pid left v Pr_Loop s =
     (Go (if left = 0 then Pr_Done (Exited EXIT_SUCCESS) else Pr_Start) s, v)"
| "v2_producer pid left v Pr_Start s =
     (pc_semop v2_producer_start Pr_Put (Pr_Done (Exited EXIT_FAILURE)) s, v)"
| "v2_producer pid left v Pr_Put s =
     (case load (pc_seg s) shm_pos_producer of
        Inl e \<Rightarrow> (Go (Pr_Done Segv) s, v)
      | Inr p \<Rightarrow> (case v of None \<Rightarrow> (Go (Pr_Done Segv) s, v)
      | Some c \<Rightarrow> (case store (pc_seg s) (shm_buffer + p) c of
                   Inl e \<Rightarrow> (Go (Pr_Done Segv) s, v)
                 | Inr g \<Rightarrow> (Go Pr_Print (s\<lparr>pc_seg := g\<rparr>), v))))"
| "v2_producer pid left v Pr_Print s =
     (case load (pc_seg s) shm_pos_producer of
        Inl e \<Rightarrow> (Go (Pr_Done Segv) s, v)
      | Inr p \<Rightarrow> (case load (pc_seg s) (shm_buffer + p) of
                   Inl e \<Rightarrow> (Go (Pr_Done Segv) s, v)
                 | Inr c \<Rightarrow> (Go Pr_Out (s\<lparr>pc_out := pc_out s @ [Produced pid p c]\<rparr>), v)))"
| "v2_producer pid left v Pr_Out s =
     (case v of None \<Rightarrow> (Go (Pr_Done Segv) s, v) | Some c \<Rightarrow> (Go Pr_Load s, Some (v2_next c)))"
| "v2_producer pid left v Pr_Load s =
     (case load (pc_seg s) shm_pos_producer of
        Inl e \<Rightarrow> (Go (Pr_Done Segv) s, v) | Inr p \<Rightarrow> (Go (Pr_Store p) s, v))"
| "v2_producer pid left v (Pr_Store r) s =
     (case store (pc_seg s) shm_pos_producer (r + 1) of
        Inl e \<Rightarrow> (Go (Pr_Done Segv) s, v) | Inr g \<Rightarrow> (Go Pr_Stop (s\<lparr>pc_seg := g\<rparr>), v))"
| "v2_producer pid left v Pr_Stop s =
     (pc_semop v2_producer_stop Pr_Loop (Pr_Done (Exited EXIT_FAILURE)) s, v)"
| "v2_producer pid left v (Pr_Done st) s = (Stuck, v)"

fun v2_consumer :: "nat \<Rightarrow> nat \<Rightarrow> cons_pc \<Rightarrow> pc_state \<Rightarrow> cons_pc move" where
  "v2_consumer pid left Co_Loop s =
     Go (if left = 0 then Co_Done (Exited EXIT_SUCCESS) else Co_Start) s"
| "v2_consumer pid left Co_Start s =
     pc_semop v2_consumer_start Co_Print (Co_Done (Exited EXIT_FAILURE)) s"
| "v2_consumer pid left Co_Print s =
     (case load (pc_seg s) shm_pos_consumer of
        Inl e \<Rightarrow> Go (Co_Done Segv) s
      | Inr p \<Rightarrow> (case load (pc_seg s) (shm_buffer + p) of
                   Inl e \<Rightarrow> Go (Co_Done Segv) s
                 | Inr c \<Rightarrow> Go Co_Load (s\<lparr>pc_out := pc_out s @ [Consumed pid p c]\<rparr>)))"
| "v2_consumer pid left Co_Load s =
     (case load (pc_seg s) shm_pos_consumer of
        Inl e \<Rightarrow> Go (Co_Done Segv) s | Inr p \<Rightarrow> Go (Co_Store p) s)"
| "v2_consumer pid left (Co_Store r) s =
     (case store (pc_seg s) shm_pos_consumer (r + 1) of
        Inl e \<Rightarrow> Go (Co_Done Segv) s | Inr g \<Rightarrow> Go Co_Stop (s\<lparr>pc_seg := g\<rparr>))"
| "v2_consumer pid left Co_Stop s =
     pc_semop v2_consumer_stop Co_Loop (Co_Done (Exited EXIT_FAILURE)) s"
| "v2_consumer pid left (Co_Done st) s = Stuck"

text \<open>\<open>main\<close> up to the first fork, the assignment \<open>*value = 'a'\<close> included.\<close>

definition v2_main :: "pc_env \<Rightarrow> v2_value \<Rightarrow> pc_outcome" where
  "v2_main e v =
     (if \<not> env_shmget e then Pc_exit ''Unable to create shared area''
      else if \<not> env_shmat e then Pc_segv
      else case store (replicate (env_cells e) 0) shm_pos_producer 0 of Inl x \<Rightarrow> Pc_segv | Inr g \<Rightarrow>
      (case store g shm_pos_consumer 0 of Inl x \<Rightarrow> Pc_segv | Inr g' \<Rightarrow>
       if \<not> env_semget e then Pc_exit ''Unable to create semapthores''
       else if \<not> env_semctl e SEM_BINARY \<or> \<not> env_semctl e SEM_EMPTY \<or> \<not> env_semctl e SEM_FULL
       then Pc_exit ''Cannot set controll semaphores''
       else case v of
              None \<Rightarrow> Pc_segv
            | Some c \<Rightarrow> Pc_running \<lparr>pc_sems = [1, v2_N, 0], pc_seg = g', pc_out = [],
                         pc_procs = [], pc_parent = F_Fork 0, pc_env_of = e\<rparr>))"

text \<open>The letters would stay in the alphabet: after \<open>z\<close> comes \<open>a\<close>.\<close>

lemma v2_next_letter: "97 \<le> c \<Longrightarrow> c \<le> 122 \<Longrightarrow> 97 \<le> v2_next c \<and> v2_next c \<le> 122"
  by (simp add: v2_next_def)

lemma v2_next_cycle: "(v2_next ^^ n) 97 = 97 + int n mod 26"
proof (induction n)
  case (Suc n)
  have range: "0 \<le> int n mod 26" "int n mod 26 < 26" by simp_all
  have "(1 + int n) mod 26 = (1 + int n mod 26) mod 26" by (rule mod_add_right_eq [symmetric])
  also have "\<dots> = (if int n mod 26 = 25 then 0 else 1 + int n mod 26)"
    using range by (auto intro!: mod_pos_pos_trivial)
  finally show ?case using Suc range by (simp add: v2_next_def)
qed simp

text \<open>A consumer would do what that of \<open>task1.c\<close> does; a producer is killed when it uses the pointer.\<close>

lemma v2_consumer_eq: "v2_consumer pid left pc s = consumer pid left pc s"
  by (cases pc) simp_all

lemma v2_producer_null: "fst (v2_producer pid left value_init Pr_Put s) = Go (Pr_Done Segv) s"
  by (simp add: value_init_def split: sum.split)

text \<open>The variant never starts. Whatever the system calls return, \<open>main\<close> of \<open>v2.c\<close> ends before
  it creates its first child; when all of them succeed and the segment has the cells it writes, it is
  killed by the store through the null pointer \<open>value\<close>. With an object behind \<open>value\<close> it would start
  as \<open>task1.c\<close> does.\<close>

theorem v2_never_starts:
  "v2_main e value_init \<noteq> Pc_running s \<and> v2_main e (Some c) = pc_main e \<and>
   (pc_main e = Pc_running s \<longrightarrow> v2_main e value_init = Pc_segv)"
  by (auto simp: v2_main_def pc_main_def value_init_def split: sum.splits if_splits)

theorem v2_never_starts_witness:
  "\<exists>s. pc_main (\<lparr>env_shmget = True, env_shmat = True, env_semget = True, env_semctl = (\<lambda>_. True),
        env_cells = 1024, env_fork = (\<lambda>_. True), env_shmdt = True\<rparr>) = Pc_running s \<and>
     v2_main (\<lparr>env_shmget = True, env_shmat = True, env_semget = True, env_semctl = (\<lambda>_. True),
        env_cells = 1024, env_fork = (\<lambda>_. True), env_shmdt = True\<rparr>) value_init = Pc_segv"
proof -
  let ?e = "\<lparr>env_shmget = True, env_shmat = True, env_semget = True, env_semctl = (\<lambda>_. True),
             env_cells = 1024, env_fork = (\<lambda>_. True), env_shmdt = True\<rparr>"
  have "\<exists>s. pc_main ?e = Pc_running s" by (simp add: pc_main_def store_def layout_defs)
  then show ?thesis using v2_never_starts [of ?e] by blast
qed

end
