(* ===== verification/Message_Store.thy ===== *)
theory Message_Store
  imports Prelude
begin

text \<open>
  What the two fortune modules of \<open>6-semestr/lab4/part2\<close> share: the copies between kernel and
  user memory, and the contract of a device that stores messages and gives them back.
\<close>

section \<open>User memory\<close>

text \<open>
  Copies between a kernel buffer and user memory. The user side is the list of bytes that can be
  read, or the number of bytes that can be written; the result is the number of bytes that could
  not be copied. After a short read the rest of the kernel's destination is filled with zeros.
\<close>

definition load_block :: "'a list \<Rightarrow> int \<Rightarrow> int \<Rightarrow> c_fault + 'a list" where
  "load_block xs i n =
     (if n = 0 then Inr []
      else if 0 \<le> i \<and> 0 \<le> n \<and> i + n \<le> int (length xs) then Inr (take (nat n) (drop (nat i) xs))
      else Inl Out_Of_Bounds)"

definition copy_from_user :: "char list \<Rightarrow> int \<Rightarrow> char list \<Rightarrow> int \<Rightarrow> c_fault + (int \<times> char list)" where
  "copy_from_user dst off user n =
     (let got = take (nat n) user in
      case store_block dst off (got @ replicate (nat n - length got) nul) of
        Inl e \<Rightarrow> Inl e
      | Inr dst' \<Rightarrow> Inr (n - int (length got), dst'))"

definition copy_to_user :: "int \<Rightarrow> char list \<Rightarrow> int \<Rightarrow> int \<Rightarrow> c_fault + (int \<times> char list)" where
  "copy_to_user room src off n =
     (case load_block src off n of
        Inl e \<Rightarrow> Inl e
      | Inr bs \<Rightarrow> Inr (n - min n room, take (nat room) bs))"

lemma copy_from_user_all:
  "0 \<le> off \<Longrightarrow> 0 < n \<Longrightarrow> off + n \<le> int (length dst) \<Longrightarrow> n \<le> int (length user) \<Longrightarrow>
     copy_from_user dst off user n =
       Inr (0, take (nat off) dst @ take (nat n) user @ drop (nat off + nat n) dst)"
  by (cases "user = []") (simp_all add: copy_from_user_def Let_def store_block_def)

lemma copy_to_user_all:
  "0 \<le> off \<Longrightarrow> 0 < n \<Longrightarrow> off + n \<le> int (length src) \<Longrightarrow> n \<le> room \<Longrightarrow>
     copy_to_user room src off n = Inr (0, take (nat n) (drop (nat off) src))"
  by (simp add: copy_to_user_def load_block_def)

text \<open>Overwriting the last byte of the block that was just copied.\<close>

lemma store_last:
  assumes "i \<le> length p" "0 < n" "n \<le> length buf"
  shows "(take i p @ take n buf @ rest)[i + (n - 1) := x] = take i p @ take (n - 1) buf @ x # rest"
proof -
  have n: "n = Suc (n - 1)" "n - 1 < length buf" using assms by auto
  then have split: "take n buf = take (n - 1) buf @ [buf ! (n - 1)]" by (metis take_Suc_conv_app_nth)
  have l: "length (take i p @ take (n - 1) buf) = i + (n - 1)" using assms by simp
  have "((take i p @ take (n - 1) buf) @ [buf ! (n - 1)] @ rest)[i + (n - 1) := x] =
      (take i p @ take (n - 1) buf) @ [x] @ rest"
    unfolding l [symmetric] by (simp only: list_update_length append_Cons append_Nil)
  then show ?thesis by (simp add: split)
qed

text \<open>The bytes of a list of messages in memory, each ended by a zero byte.\<close>

definition message_bytes :: "char list list \<Rightarrow> char list" where
  "message_bytes fs = concat (map (\<lambda>f. f @ [nul]) fs)"

lemma message_bytes_simps [simp]:
  "message_bytes [] = []" "message_bytes (f # fs) = f @ nul # message_bytes fs"
  "message_bytes (fs @ gs) = message_bytes fs @ message_bytes gs"
  by (simp_all add: message_bytes_def)

lemma message_bytes_split:
  "k < length fs \<Longrightarrow>
     message_bytes fs = message_bytes (take k fs) @ fs ! k @ nul # message_bytes (drop (Suc k) fs)"
  by (subst id_take_nth_drop [of k fs]) simp_all

section \<open>Stores of messages\<close>

text \<open>
  A device that takes messages and gives them back: \<open>R s ms k\<close> relates its state to the messages
  put so far and the position of the next one to get, \<open>turn k n\<close> is the message that a \<open>get\<close>
  at position \<open>k\<close> of \<open>n\<close> delivers. Putting fails when a message does not fit.
\<close>

fun put_all :: "('m \<Rightarrow> 's \<Rightarrow> 's option) \<Rightarrow> 'm list \<Rightarrow> 's \<Rightarrow> 's option" where
  "put_all put [] s = Some s"
| "put_all put (m # ms) s = (case put m s of None \<Rightarrow> None | Some t \<Rightarrow> put_all put ms t)"

fun get_all :: "('s \<Rightarrow> ('m \<times> 's) option) \<Rightarrow> nat \<Rightarrow> 's \<Rightarrow> ('m list \<times> 's) option" where
  "get_all get 0 s = Some ([], s)"
| "get_all get (Suc n) s =
     (case get s of None \<Rightarrow> None
      | Some (m, t) \<Rightarrow> map_option (\<lambda>(ms, u). (m # ms, u)) (get_all get n t))"

fun turns :: "(nat \<Rightarrow> nat \<Rightarrow> nat) \<Rightarrow> nat \<Rightarrow> nat \<Rightarrow> nat \<Rightarrow> nat list" where
  "turns turn n k 0 = []"
| "turns turn n k (Suc c) = turn k n # turns turn n (Suc (turn k n)) c"

locale message_store =
  fixes R :: "'s \<Rightarrow> 'm list \<Rightarrow> nat \<Rightarrow> bool"
    and put :: "'m \<Rightarrow> 's \<Rightarrow> 's option" and get :: "'s \<Rightarrow> ('m \<times> 's) option"
    and turn :: "nat \<Rightarrow> nat \<Rightarrow> nat" and fits :: "'m list \<Rightarrow> bool"
  assumes put_law: "R s ms k \<Longrightarrow> fits (ms @ [m]) \<Longrightarrow> \<exists>t. put m s = Some t \<and> R t (ms @ [m]) k"
    and get_law: "R s ms k \<Longrightarrow> turn k (length ms) < length ms \<Longrightarrow>
      \<exists>t. get s = Some (ms ! turn k (length ms), t) \<and> R t ms (Suc (turn k (length ms)))"
    and fits_prefix: "fits (ms @ ns) \<Longrightarrow> fits ms"
begin

lemma put_all_law: "R s ms k \<Longrightarrow> fits (ms @ ns) \<Longrightarrow> \<exists>t. put_all put ns s = Some t \<and> R t (ms @ ns) k"
proof (induction ns arbitrary: s ms)
  case (Cons m ns)
  then have "fits ((ms @ [m]) @ ns)" by simp
  with Cons.prems(1) obtain t where "put m s = Some t" "R t (ms @ [m]) k"
    using put_law fits_prefix by blast
  with Cons.IH [of t "ms @ [m]"] \<open>fits ((ms @ [m]) @ ns)\<close> show ?case by simp
qed simp

lemma get_all_law:
  "R s ms k \<Longrightarrow> \<forall>j \<in> set (turns turn (length ms) k c). j < length ms \<Longrightarrow>
     \<exists>t. get_all get c s = Some (map ((!) ms) (turns turn (length ms) k c), t) \<and> (\<exists>k'. R t ms k')"
proof (induction c arbitrary: s k)
  case (Suc c)
  then obtain t where t: "get s = Some (ms ! turn k (length ms), t)" "R t ms (Suc (turn k (length ms)))"
    using get_law [of s ms k] by auto
  with Suc.IH [OF t(2)] Suc.prems(2) show ?case by auto
qed auto

end

end
