(* ===== verification/Fortune.thy ===== *)
theory Fortune
  imports Message_Store
begin

text \<open>
  The fortune module \<open>6-semestr/lab4/part2/fortune.c\<close>: a page of memory, the cookie pot, that
  \<open>/proc/fortune\<close> appends to on a write and reads one string of on a read, starting over at the
  end. The handlers are modelled on every path, with the accesses to the pot checked. A call of a handler is one
  step: the module has no lock, and calls that overlap on several processors are not modelled.
\<close>

section \<open>State and operations\<close>

definition MAX_COOKIE_LENGTH :: int where
  "MAX_COOKIE_LENGTH = 4096"

definition ENOSPC_val :: int where "ENOSPC_val = 28"
definition EFAULT_val :: int where "EFAULT_val = 14"
definition ENOMEM_val :: int where "ENOMEM_val = 12"

text \<open>\<open>cookie_pot\<close> is \<open>None\<close> before it is allocated and after it is freed.\<close>

record fortune =
  cookie_pot :: "char list option"
  cookie_index :: int
  next_fortune :: int
  proc_entry :: bool
  proc_directory :: bool
  proc_link :: bool

text \<open>
  \<open>fortune_write\<close>: \<open>buf\<close> holds the bytes of the user's buffer that can be read, \<open>len\<close> the length
  passed to \<open>write\<close>.
\<close>

definition fortune_write :: "char list \<Rightarrow> int \<Rightarrow> fortune \<Rightarrow> c_fault + (int \<times> fortune)" where
  "fortune_write buf len s =
     (let space_available = to_s32 (to_u64 (MAX_COOKIE_LENGTH - cookie_index s + 1)) in
      if len > to_u64 space_available then Inr (- ENOSPC_val, s)
      else case cookie_pot s of
        None \<Rightarrow> Inl Use_After_Free
      | Some pot \<Rightarrow>
         (case copy_from_user pot (cookie_index s) buf len of
            Inl e \<Rightarrow> Inl e
          | Inr (left, pot1) \<Rightarrow>
              if left \<noteq> 0 then Inr (- EFAULT_val, s\<lparr>cookie_pot := Some pot1\<rparr>)
              else let index = to_s32 (to_u64 (cookie_index s + len)) in
                case store pot1 (index - 1) nul of
                  Inl e \<Rightarrow> Inl e
                | Inr pot2 \<Rightarrow> Inr (len, s\<lparr>cookie_pot := Some pot2, cookie_index := index\<rparr>)))"

text \<open>
  \<open>fortune_read\<close>: \<open>room\<close> is the number of bytes the user's buffer can take, \<open>len\<close> the length
  passed to \<open>read\<close>; the result is the value returned, the bytes delivered, the new file position
  and the state.
\<close>

definition fortune_read ::
  "int \<Rightarrow> int \<Rightarrow> int \<Rightarrow> fortune \<Rightarrow> c_fault + (int \<times> char list \<times> int \<times> fortune)" where
  "fortune_read room len ppos s =
     (if ppos > 0 then Inr (0, [], ppos, s)
      else let start = (if next_fortune s \<ge> cookie_index s then 0 else next_fortune s) in
      case cookie_pot s of
        None \<Rightarrow> Inl Use_After_Free
      | Some pot \<Rightarrow>
         (if start < 0 \<or> start > int (length pot) then Inl Out_Of_Bounds
          else case c_strlen (drop (nat start) pot) of
            Inl e \<Rightarrow> Inl e
          | Inr n \<Rightarrow>
             (let l = to_s32 (to_u64 (int n + 1));
                  l1 = (if to_u64 l > len then to_s32 len else l) in
              case copy_to_user room pot start l1 of
                Inl e \<Rightarrow> Inl e
              | Inr (left, out) \<Rightarrow>
                 let l2 = (if left \<noteq> 0 then 0 else l1) in
                 Inr (len, out, 1, s\<lparr>next_fortune := to_s32 (start + l2)\<rparr>))))"

section \<open>Loading and unloading\<close>

record fortune_calls =
  vmalloc_ok :: bool
  proc_create_ok :: bool
  proc_mkdir_ok :: bool
  proc_symlink_ok :: bool

text \<open>The static variables of a module that has just been loaded.\<close>

definition fortune_static :: fortune where
  "fortune_static = \<lparr>cookie_pot = None, cookie_index = 0, next_fortune = 0,
     proc_entry = False, proc_directory = False, proc_link = False\<rparr>"

definition fortune_init :: "fortune_calls \<Rightarrow> fortune \<Rightarrow> int \<times> fortune" where
  "fortune_init c s =
     (if \<not> vmalloc_ok c then (- ENOMEM_val, s\<lparr>cookie_pot := None\<rparr>)
      else let s1 = s\<lparr>cookie_pot := Some (replicate (nat MAX_COOKIE_LENGTH) nul),
                      proc_entry := proc_create_ok c, proc_directory := proc_mkdir_ok c,
                      proc_link := proc_symlink_ok c\<rparr>;
               ret = (if proc_create_ok c \<and> proc_mkdir_ok c \<and> proc_symlink_ok c then 0 else - ENOMEM_val) in
        if ret = - ENOMEM_val then (ret, s1\<lparr>cookie_pot := None\<rparr>)
        else (ret, s1\<lparr>cookie_index := 0, next_fortune := 0\<rparr>))"

definition fortune_exit :: "fortune \<Rightarrow> fortune" where
  "fortune_exit s = s\<lparr>proc_entry := False, proc_directory := False, proc_link := False, cookie_pot := None\<rparr>"

section \<open>The invariant\<close>

text \<open>Calls of the handlers, one after the other.\<close>

inductive fortune_step :: "fortune \<Rightarrow> fortune \<Rightarrow> bool" where
  step_write: "fortune_write buf len s = Inr (r, t) \<Longrightarrow> 0 \<le> len \<Longrightarrow> len < 2 ^ 63 \<Longrightarrow> fortune_step s t"
| step_read: "fortune_read room len ppos s = Inr (r, out, ppos', t) \<Longrightarrow> 0 \<le> room \<Longrightarrow> 0 \<le> len \<Longrightarrow>
    len < 2 ^ 63 \<Longrightarrow> fortune_step s t"

definition fortune_loaded :: "fortune \<Rightarrow> bool" where
  "fortune_loaded s \<longleftrightarrow> (\<exists>c. fortune_init c fortune_static = (0, s))"

abbreviation fortune_reachable :: "fortune \<Rightarrow> bool" where
  "fortune_reachable \<equiv> reachable fortune_loaded fortune_step"

definition fortune_inv :: "fortune \<Rightarrow> bool" where
  "fortune_inv s \<longleftrightarrow>
     (\<exists>pot. cookie_pot s = Some pot \<and> length pot = 4096 \<and> nul \<in> set pot \<and>
        0 \<le> cookie_index s \<and> cookie_index s \<le> 4096 \<and> 0 \<le> next_fortune s \<and> next_fortune s \<le> 4096 \<and>
        (0 < cookie_index s \<longrightarrow> pot ! nat (cookie_index s - 1) = nul))"

lemma fortune_invE:
  assumes "fortune_inv s"
  obtains pot where "cookie_pot s = Some pot" "length pot = 4096" "nul \<in> set pot"
    "0 \<le> cookie_index s" "cookie_index s \<le> 4096" "0 \<le> next_fortune s" "next_fortune s \<le> 4096"
    "0 < cookie_index s \<Longrightarrow> pot ! nat (cookie_index s - 1) = nul"
  using assms by (auto simp: fortune_inv_def)

lemma fortune_inv_loaded: "fortune_loaded s \<Longrightarrow> fortune_inv s"
  by (auto simp: fortune_loaded_def fortune_init_def fortune_inv_def fortune_static_def
      MAX_COOKIE_LENGTH_def ENOMEM_val_def Let_def split: if_splits)

text \<open>The guard of \<open>fortune_write\<close> lets one byte more through than the pot has.\<close>

lemma fortune_guard:
  assumes "0 \<le> idx" "idx \<le> 4096"
  shows "to_u64 (to_s32 (to_u64 (MAX_COOKIE_LENGTH - idx + 1))) = 4097 - idx"
  using assms by (simp add: MAX_COOKIE_LENGTH_def)

lemma copy_from_user_cases:
  assumes "copy_from_user dst off user n = Inr (left, dst')" "0 < n"
  shows "0 \<le> off \<and> off + n \<le> int (length dst) \<and> left = n - min n (int (length user)) \<and>
     dst' = take (nat off) dst @ take (nat n) user @ replicate (nat n - length user) nul @
            drop (nat off + nat n) dst"
  using assms
  by (cases "take (nat n) user @ replicate (nat n - length (take (nat n) user)) nul = []")
     (auto simp: copy_from_user_def store_block_def Let_def min_def split: if_splits)

text \<open>The position a read starts from, and the string found there.\<close>

definition fortune_start :: "fortune \<Rightarrow> int" where
  "fortune_start s = (if next_fortune s \<ge> cookie_index s then 0 else next_fortune s)"

lemma fortune_string:
  assumes inv: "fortune_inv s" and pot: "cookie_pot s = Some pot"
  obtains n where "c_strlen (drop (nat (fortune_start s)) pot) = Inr n"
    "0 \<le> fortune_start s" "fortune_start s + int n < 4096"
    "0 < cookie_index s \<Longrightarrow> fortune_start s + int n < cookie_index s"
proof -
  have facts: "length pot = 4096" "nul \<in> set pot" "0 \<le> cookie_index s" "cookie_index s \<le> 4096"
    "0 \<le> next_fortune s" "0 < cookie_index s \<Longrightarrow> pot ! nat (cookie_index s - 1) = nul"
    using inv pot by (auto simp: fortune_inv_def)
  let ?st = "fortune_start s"
  have st: "0 \<le> ?st" "0 < cookie_index s \<Longrightarrow> ?st < cookie_index s" "?st \<le> 4096"
    "cookie_index s = 0 \<Longrightarrow> ?st = 0" using facts by (auto simp: fortune_start_def)
  show thesis
  proof (cases "cookie_index s = 0")
    case True
    then have "?st = 0" using st by simp
    obtain i where "i < 4096" "pot ! i = nul" using facts by (auto simp: in_set_conv_nth)
    then obtain n where "c_strlen pot = Inr n" "n \<le> i" using c_strlen_bound [of i pot] facts by auto
    with \<open>?st = 0\<close> \<open>i < 4096\<close> True show thesis by (intro that [of n]) auto
  next
    case False
    then have pos: "0 < cookie_index s" using facts by simp
    let ?i = "nat (cookie_index s - 1 - ?st)"
    have "nat ?st + ?i = nat (cookie_index s - 1)" using st pos by (simp add: nat_add_distrib [symmetric])
    then have "drop (nat ?st) pot ! ?i = nul" "?i < length (drop (nat ?st) pot)"
      using facts pos st by auto
    then obtain n where "c_strlen (drop (nat ?st) pot) = Inr n" "n \<le> ?i"
      using c_strlen_bound by blast
    with st pos facts show thesis by (intro that [of n]) auto
  qed
qed

lemma copy_to_user_eq:
  assumes "0 \<le> off" "0 \<le> n" "off + n \<le> int (length src)" "0 \<le> room"
  shows "copy_to_user room src off n = Inr (n - min n room, take (nat (min n room)) (drop (nat off) src))"
proof (cases "n \<le> room")
  case True
  then show ?thesis using assms by (auto simp: copy_to_user_def load_block_def min_def nat_le_eq_zle)
next
  case False
  then have "min (nat room) (nat n) = nat (min n room)" by simp
  with False assms show ?thesis by (auto simp: copy_to_user_def load_block_def)
qed

text \<open>Every call of \<open>fortune_read\<close>, written out.\<close>

lemma fortune_read_eq:
  assumes inv: "fortune_inv s" and pot: "cookie_pot s = Some pot" and ppos: "ppos \<le> 0"
    and len: "0 \<le> len" "len < 2 ^ 63" and room: "0 \<le> room"
    and n: "c_strlen (drop (nat (fortune_start s)) pot) = Inr n"
  shows "fortune_read room len ppos s =
     (let l = min (int n + 1) len in
      Inr (len, take (nat (min l room)) (drop (nat (fortune_start s)) pot), 1,
           s\<lparr>next_fortune := fortune_start s + (if room < l then 0 else l)\<rparr>))"
proof -
  obtain m where m: "c_strlen (drop (nat (fortune_start s)) pot) = Inr m" "0 \<le> fortune_start s"
    "fortune_start s + int m < 4096" using fortune_string [OF inv pot] by metis
  with n have bound: "0 \<le> fortune_start s" "fortune_start s + int n < 4096" by auto
  have length: "length pot = 4096" using inv pot by (auto simp: fortune_inv_def)
  have l: "to_u64 (to_s32 (to_u64 (int n + 1))) = int n + 1" "to_s32 (to_u64 (int n + 1)) = int n + 1"
    using bound by simp_all
  have small: "to_s32 len = len" if "len < int n + 1" using that bound len by simp
  have next_small: "to_s32 (fortune_start s + x) = fortune_start s + x" if "0 \<le> x" "x \<le> int n + 1" for x
    using that bound by simp
  have pick: "(if to_u64 (to_s32 (to_u64 (int n + 1))) > len then to_s32 len else to_s32 (to_u64 (int n + 1)))
      = min (int n + 1) len" using l small by (simp add: min_def)
  have copy: "copy_to_user room pot (fortune_start s) (min (int n + 1) len) =
      Inr (min (int n + 1) len - min (min (int n + 1) len) room,
           take (nat (min (min (int n + 1) len) room)) (drop (nat (fortune_start s)) pot))"
    using bound length len room by (intro copy_to_user_eq) auto
  have guards: "(ppos > 0) = False" "(fortune_start s < 0 \<or> fortune_start s > int (length pot)) = False"
    using ppos bound length by auto
  show ?thesis
    unfolding fortune_read_def fortune_start_def [symmetric] Let_def guards pot option.case n sum.case
      pick copy if_False prod.case
    using next_small room len by (simp add: min_def)
qed

lemma fortune_inv_read:
  assumes inv: "fortune_inv s" and rd: "fortune_read room len ppos s = Inr (r, out, ppos', t)"
    and args: "0 \<le> room" "0 \<le> len" "len < 2 ^ 63"
  shows "fortune_inv t"
proof (cases "ppos > 0")
  case False
  from inv obtain pot where pot: "cookie_pot s = Some pot" by (auto simp: fortune_inv_def)
  obtain n where n: "c_strlen (drop (nat (fortune_start s)) pot) = Inr n" "0 \<le> fortune_start s"
    "fortune_start s + int n < 4096" using fortune_string [OF inv pot] by metis
  have "t = s\<lparr>next_fortune := fortune_start s + (if room < min (int n + 1) len then 0 else min (int n + 1) len)\<rparr>"
    using fortune_read_eq [OF inv pot _ args(2,3,1) n(1), of ppos] rd False by (simp add: Let_def)
  with inv n args show ?thesis by (auto simp: fortune_inv_def min_def)
qed (use inv rd in \<open>simp add: fortune_read_def\<close>)

text \<open>Every call of \<open>fortune_write\<close>, written out.\<close>

lemma fortune_write_full:
  "fortune_inv s \<Longrightarrow> 4097 - cookie_index s < len \<Longrightarrow> fortune_write buf len s = Inr (- ENOSPC_val, s)"
  using fortune_guard [of "cookie_index s"]
  by (auto simp: fortune_write_def Let_def fortune_inv_def)

lemma fortune_write_over:
  assumes "fortune_inv s" "len = 4097 - cookie_index s"
  shows "fortune_write buf len s = Inl Out_Of_Bounds"
  using assms fortune_guard [of "cookie_index s"]
  by (auto simp: fortune_write_def Let_def fortune_inv_def copy_from_user_def store_block_def)

lemma fortune_write_empty:
  assumes inv: "fortune_inv s"
  shows "fortune_write buf 0 s =
    (if cookie_index s = 0 then Inl Out_Of_Bounds else Inr (0, s))"
proof -
  obtain pot where pot: "cookie_pot s = Some pot" "length pot = 4096" "0 \<le> cookie_index s"
    "cookie_index s \<le> 4096" "0 < cookie_index s \<Longrightarrow> pot ! nat (cookie_index s - 1) = nul"
    using inv by (auto simp: fortune_inv_def)
  have "pot[nat (cookie_index s - 1) := nul] = pot" if "0 < cookie_index s"
    using pot(5) [OF that] list_update_id by metis
  with pot fortune_guard [of "cookie_index s"] show ?thesis
    by (auto simp: fortune_write_def Let_def copy_from_user_def store_block_def store_def)
qed

lemma fortune_write_fits:
  assumes inv: "fortune_inv s" and pot: "cookie_pot s = Some pot"
    and len: "0 < len" "cookie_index s + len \<le> 4096"
  shows "fortune_write buf len s =
    (let i = nat (cookie_index s); n = nat len in
     if int (length buf) < len
     then Inr (- EFAULT_val, s\<lparr>cookie_pot :=
            Some (take i pot @ buf @ replicate (n - length buf) nul @ drop (i + n) pot)\<rparr>)
     else Inr (len, s\<lparr>cookie_pot := Some (take i pot @ take (n - 1) buf @ nul # drop (i + n) pot),
                      cookie_index := cookie_index s + len\<rparr>))"
proof -
  have facts: "length pot = 4096" "0 \<le> cookie_index s" "cookie_index s \<le> 4096"
    using inv pot by (auto simp: fortune_inv_def)
  let ?i = "nat (cookie_index s)" and ?n = "nat len"
  have i: "?i + ?n \<le> length pot" "?i = length (take ?i pot)" using facts len by auto
  have guard: "(len > to_u64 (to_s32 (to_u64 (MAX_COOKIE_LENGTH - cookie_index s + 1)))) = False"
    using fortune_guard [OF facts(2,3)] len by simp
  have idx: "to_s32 (to_u64 (cookie_index s + len)) = cookie_index s + len" using facts len by simp
  show ?thesis
  proof (cases "int (length buf) < len")
    case True
    then have "copy_from_user pot (cookie_index s) buf len =
      Inr (len - int (length buf), take ?i pot @ buf @ replicate (?n - length buf) nul @ drop (?i + ?n) pot)"
      using facts len by (auto simp: copy_from_user_def store_block_def Let_def)
    with True pot guard show ?thesis by (simp add: fortune_write_def Let_def)
  next
    case False
    then have copy: "copy_from_user pot (cookie_index s) buf len =
      Inr (0, take ?i pot @ take ?n buf @ drop (?i + ?n) pot)"
      using facts len by (intro copy_from_user_all) auto
    have pos: "nat (cookie_index s + len - 1) = ?i + (?n - 1)" using facts len by simp
    have "(take ?i pot @ take ?n buf @ drop (?i + ?n) pot)[?i + (?n - 1) := nul] =
        take ?i pot @ take (?n - 1) buf @ nul # drop (?i + ?n) pot"
      by (rule store_last) (use i len False in auto)
    moreover have "store (take ?i pot @ take ?n buf @ drop (?i + ?n) pot) (cookie_index s + len - 1) nul =
        Inr ((take ?i pot @ take ?n buf @ drop (?i + ?n) pot)[?i + (?n - 1) := nul])"
      using facts len i False by (auto simp: store_def pos)
    ultimately show ?thesis
      using False pot guard idx copy by (simp add: fortune_write_def Let_def)
  qed
qed

lemma fortune_write_cases:
  assumes "fortune_inv s" "0 \<le> len"
  obtains "4097 - cookie_index s < len" | "len = 4097 - cookie_index s" | "len = 0"
    | "0 < len" "cookie_index s + len \<le> 4096"
  using assms by fastforce

lemma fortune_inv_write:
  assumes inv: "fortune_inv s" and wr: "fortune_write buf len s = Inr (r, t)" and len: "0 \<le> len"
  shows "fortune_inv t"
  using inv len
proof (cases rule: fortune_write_cases)
  case 4
  from inv obtain pot where pot: "cookie_pot s = Some pot" "length pot = 4096" "0 \<le> cookie_index s"
    "cookie_index s \<le> 4096" "0 < cookie_index s \<Longrightarrow> pot ! nat (cookie_index s - 1) = nul"
    "0 \<le> next_fortune s" "next_fortune s \<le> 4096" by (auto simp: fortune_inv_def)
  have pre: "(take (nat (cookie_index s)) pot @ xs) ! nat (cookie_index s - 1) = nul"
    if "0 < cookie_index s" for xs using that pot by (auto simp: nth_append)
  show ?thesis
  proof (cases "int (length buf) < len")
    case True
    let ?p = "take (nat (cookie_index s)) pot @ buf @ replicate (nat len - length buf) nul @
              drop (nat (cookie_index s) + nat len) pot"
    have t: "t = s\<lparr>cookie_pot := Some ?p\<rparr>"
      using wr fortune_write_fits [OF inv pot(1) 4, of buf] True by (simp add: Let_def)
    have "length ?p = 4096" "nul \<in> set ?p" using pot True 4 by auto
    with t pot pre show ?thesis by (simp add: fortune_inv_def)
  next
    case False
    let ?p = "take (nat (cookie_index s)) pot @ take (nat len - 1) buf @ nul #
              drop (nat (cookie_index s) + nat len) pot"
    have t: "t = s\<lparr>cookie_pot := Some ?p, cookie_index := cookie_index s + len\<rparr>"
      using wr fortune_write_fits [OF inv pot(1) 4, of buf] False by (auto simp: Let_def)
    have l: "length (take (nat (cookie_index s)) pot @ take (nat len - 1) buf) = nat (cookie_index s + len - 1)"
      using pot 4 False by (simp add: nat_add_distrib [symmetric]) 
    then have "?p ! nat (cookie_index s + len - 1) = nul"
      by (metis append.assoc nth_append_length)
    moreover have "length ?p = 4096" using pot 4 False by auto
    ultimately show ?thesis using t pot 4 by (simp add: fortune_inv_def)
  qed
qed (use inv wr in \<open>auto simp: fortune_write_full fortune_write_over fortune_write_empty split: if_splits\<close>)

inductive_cases fortune_stepE: "fortune_step s t"

interpretation fortune: invariant fortune_loaded fortune_step fortune_inv
proof unfold_locales
  show "fortune_inv s" if "fortune_loaded s" for s using that by (rule fortune_inv_loaded)
  show "fortune_inv t" if "fortune_inv s" "fortune_step s t" for s t
    using that(2) fortune_inv_write [OF that(1)] fortune_inv_read [OF that(1)]
    by (cases rule: fortune_step.cases) auto
qed

section \<open>The pot as a ring of fortunes\<close>

definition fortune_rel :: "fortune \<Rightarrow> char list list \<Rightarrow> nat \<Rightarrow> bool" where
  "fortune_rel s fs k \<longleftrightarrow>
     fortune_inv s \<and> (\<exists>rest. cookie_pot s = Some (message_bytes fs @ rest)) \<and>
     cookie_index s = int (length (message_bytes fs)) \<and>
     next_fortune s = int (length (message_bytes (take k fs))) \<and> k \<le> length fs \<and>
     (\<forall>f \<in> set fs. nul \<notin> set f)"

text \<open>
  Writing a line: the text of a fortune and its newline, whose place the final zero byte takes.
  Reading: a fresh open of the file (position 0) with a buffer as large as the pot.
\<close>

definition fortune_put :: "char list \<Rightarrow> fortune \<Rightarrow> fortune option" where
  "fortune_put f s =
     (case fortune_write (f @ [CHR 0x0A]) (int (length f) + 1) s of
        Inl e \<Rightarrow> None
      | Inr (r, t) \<Rightarrow> if r = int (length f) + 1 then Some t else None)"

definition fortune_get :: "fortune \<Rightarrow> (char list \<times> fortune) option" where
  "fortune_get s =
     (case fortune_read 4096 4096 0 s of
        Inl e \<Rightarrow> None
      | Inr (r, out, ppos, t) \<Rightarrow> Some (c_str out, t))"

definition fortune_fits :: "char list list \<Rightarrow> bool" where
  "fortune_fits fs \<longleftrightarrow> length (message_bytes fs) \<le> 4096 \<and> (\<forall>f \<in> set fs. nul \<notin> set f)"

definition ring_turn :: "nat \<Rightarrow> nat \<Rightarrow> nat" where
  "ring_turn k n = (if n \<le> k then 0 else k)"

lemma fortune_put_law:
  assumes R: "fortune_rel s fs k" and fits: "fortune_fits (fs @ [f])"
  shows "\<exists>t. fortune_put f s = Some t \<and> fortune_rel t (fs @ [f]) k"
proof -
  obtain rest where pot: "cookie_pot s = Some (message_bytes fs @ rest)" using R by (auto simp: fortune_rel_def)
  have inv: "fortune_inv s" and idx: "cookie_index s = int (length (message_bytes fs))"
    using R by (auto simp: fortune_rel_def)
  let ?len = "int (length f) + 1"
  have len: "0 < ?len" "cookie_index s + ?len \<le> 4096" using fits idx by (auto simp: fortune_fits_def)
  have n: "nat ?len = Suc (length f)" by simp
  obtain t where t: "fortune_write (f @ [CHR 0x0A]) ?len s = Inr (?len, t)"
    "t = s\<lparr>cookie_pot := Some (message_bytes fs @ f @ nul # drop (Suc (length f)) rest),
           cookie_index := cookie_index s + ?len\<rparr>"
    using fortune_write_fits [OF inv pot len, of "f @ [CHR 0x0A]"] idx by (simp add: Let_def n)
  have "fortune_inv t" using fortune_inv_write [OF inv t(1)] len by simp
  with R fits t idx have "fortune_rel t (fs @ [f]) k" by (auto simp: fortune_rel_def fortune_fits_def)
  with t(1) show ?thesis by (simp add: fortune_put_def)
qed

lemma fortune_start_rel:
  assumes R: "fortune_rel s fs k" and k: "ring_turn k (length fs) < length fs"
  shows "fortune_start s = int (length (message_bytes (take (ring_turn k (length fs)) fs)))"
proof (cases "k < length fs")
  case True
  then have "length (message_bytes (take k fs)) < length (message_bytes fs)"
    using arg_cong [OF message_bytes_split [OF True], of length] by simp
  with R True show ?thesis by (simp add: fortune_rel_def fortune_start_def ring_turn_def)
next
  case False
  with R have "k = length fs" by (simp add: fortune_rel_def)
  with R show ?thesis by (simp add: fortune_rel_def fortune_start_def ring_turn_def)
qed

lemma fortune_get_law:
  assumes R: "fortune_rel s fs k" and k: "ring_turn k (length fs) < length fs"
  shows "\<exists>t. fortune_get s = Some (fs ! ring_turn k (length fs), t) \<and>
             fortune_rel t fs (Suc (ring_turn k (length fs)))"
proof -
  let ?k = "ring_turn k (length fs)"
  obtain rest where pot: "cookie_pot s = Some (message_bytes fs @ rest)" using R by (auto simp: fortune_rel_def)
  have inv: "fortune_inv s" and fnul: "nul \<notin> set (fs ! ?k)" and len: "length (message_bytes fs) \<le> 4096"
    using R k by (auto simp: fortune_rel_def fortune_inv_def)
  note st = fortune_start_rel [OF R k]
  let ?b = "message_bytes (take ?k fs)" and ?rest = "message_bytes (drop (Suc ?k) fs) @ rest"
  have split: "message_bytes fs @ rest = ?b @ fs ! ?k @ nul # ?rest"
    by (subst message_bytes_split [OF k]) simp
  have drop: "drop (nat (fortune_start s)) (message_bytes fs @ rest) = fs ! ?k @ nul # ?rest"
    by (simp add: split st)
  have str: "c_strlen (drop (nat (fortune_start s)) (message_bytes fs @ rest)) = Inr (length (fs ! ?k))"
    unfolding drop by (rule c_strlen_append [OF fnul])
  have bound: "int (length (fs ! ?k)) + 1 \<le> 4096" using len by (simp add: message_bytes_split [OF k])
  have next_k: "length (message_bytes (take (Suc ?k) fs)) = length ?b + length (fs ! ?k) + 1"
    by (simp add: take_Suc_conv_app_nth [OF k])
  define t where "t = s\<lparr>next_fortune := fortune_start s + (int (length (fs ! ?k)) + 1)\<rparr>"
  have read: "fortune_read 4096 4096 0 s = Inr (4096, fs ! ?k @ [nul], 1, t)"
    using fortune_read_eq [OF inv pot _ _ _ _ str, of 0 4096 4096, unfolded drop] bound
    by (simp add: t_def Let_def nat_add_distrib)
  have "fortune_inv t" using fortune_inv_read [OF inv read] by simp
  with R k st next_k pot have "fortune_rel t fs (Suc ?k)" by (auto simp: fortune_rel_def t_def)
  with read c_str_append [OF fnul, of "[]"] show ?thesis by (simp add: fortune_get_def)
qed

interpretation pot: message_store fortune_rel fortune_put fortune_get ring_turn fortune_fits
proof unfold_locales
  show "\<exists>t. fortune_put m s = Some t \<and> fortune_rel t (ms @ [m]) k"
    if "fortune_rel s ms k" "fortune_fits (ms @ [m])" for s ms k m using fortune_put_law that by blast
  show "\<exists>t. fortune_get s = Some (ms ! ring_turn k (length ms), t) \<and>
            fortune_rel t ms (Suc (ring_turn k (length ms)))"
    if "fortune_rel s ms k" "ring_turn k (length ms) < length ms" for s ms k
    using fortune_get_law that by blast
  show "fortune_fits ms" if "fortune_fits (ms @ ns)" for ms ns using that by (auto simp: fortune_fits_def)
qed

lemma fortune_rel_loaded:
  assumes "fortune_loaded s" shows "fortune_rel s [] 0"
proof -
  from assms obtain c where "fortune_init c fortune_static = (0, s)" by (auto simp: fortune_loaded_def)
  then have "cookie_index s = 0" "next_fortune s = 0" "\<exists>pot. cookie_pot s = Some pot"
    by (auto simp: fortune_init_def fortune_static_def ENOMEM_val_def Let_def split: if_splits)
  with fortune_inv_loaded [OF assms] show ?thesis by (auto simp: fortune_rel_def)
qed

lemma ring_turns: "k \<le> n \<Longrightarrow> 0 < n \<Longrightarrow> turns ring_turn n k c = map (\<lambda>i. (k + i) mod n) [0..<c]"
proof (induction c arbitrary: k)
  case (Suc c)
  have turn: "ring_turn k n = k mod n" "Suc (ring_turn k n) \<le> n" using Suc.prems by (auto simp: ring_turn_def)
  have "(Suc (k mod n) + i) mod n = (k + Suc i) mod n" for i
    using mod_Suc_eq [of "k mod n + i" n] mod_Suc_eq [of "k + i" n] by (simp add: mod_simps)
  then have "turns ring_turn n k (Suc c) = k mod n # map (\<lambda>i. (k + Suc i) mod n) [0..<c]"
    using Suc.IH [OF turn(2) Suc.prems(2)] turn(1) by simp
  then show ?case by (simp only: map_upt_Suc) simp
qed simp

section \<open>Properties\<close>

definition fortune_calls_ok :: fortune_calls where
  "fortune_calls_ok = \<lparr>vmalloc_ok = True, proc_create_ok = True, proc_mkdir_ok = True, proc_symlink_ok = True\<rparr>"

definition fortune_fresh :: fortune where
  "fortune_fresh = \<lparr>cookie_pot = Some (replicate 4096 nul), cookie_index = 0, next_fortune = 0,
     proc_entry = True, proc_directory = True, proc_link = True\<rparr>"

lemma fortune_fresh_init: "fortune_init fortune_calls_ok fortune_static = (0, fortune_fresh)"
  by (simp add: fortune_init_def fortune_calls_ok_def fortune_static_def fortune_fresh_def
      MAX_COOKIE_LENGTH_def ENOMEM_val_def Let_def)

lemma fortune_loaded_fresh: "fortune_loaded fortune_fresh"
  using fortune_fresh_init by (auto simp: fortune_loaded_def)

lemma fortune_reachable_fresh: "fortune_reachable fortune_fresh"
  by (rule reach_init) (rule fortune_loaded_fresh)

lemma fortune_loaded_eq:
  assumes "fortune_loaded s" shows "s = fortune_fresh"
proof -
  from assms obtain c where "fortune_init c fortune_static = (0, s)" by (auto simp: fortune_loaded_def)
  then show ?thesis
    by (auto simp: fortune_init_def fortune_static_def fortune_fresh_def MAX_COOKIE_LENGTH_def
        ENOMEM_val_def Let_def split: if_splits)
qed

text \<open>C10: the pot is a ring of fortunes. After the module is loaded and fortunes that fit the pot
  were written, one line each, any number of reads delivers them one by one in the order they were
  written, starting over after the last.\<close>

theorem fortune_round_robin:
  assumes "fortune_loaded s" and "fortune_fits ms" and "ms \<noteq> []"
  shows "\<exists>t. put_all fortune_put ms s = Some t \<and>
    (\<forall>c. \<exists>u. get_all fortune_get c t = Some (map (\<lambda>i. ms ! (i mod length ms)) [0..<c], u))"
proof -
  from pot.put_all_law [OF fortune_rel_loaded [OF assms(1)], of ms] assms(2)
  obtain t where t: "put_all fortune_put ms s = Some t" "fortune_rel t ms 0" by auto
  have turns: "turns ring_turn (length ms) 0 c = map (\<lambda>i. i mod length ms) [0..<c]" for c
    using ring_turns [of 0 "length ms" c] assms(3) by simp
  have "\<exists>u. get_all fortune_get c t = Some (map (\<lambda>i. ms ! (i mod length ms)) [0..<c], u)" for c
    using pot.get_all_law [OF t(2), of c] assms(3) by (auto simp: turns comp_def)
  with t(1) show ?thesis by blast
qed

theorem fortune_round_robin_witness:
  "\<exists>t u. put_all fortune_put [''spam'', ''egg''] fortune_fresh = Some t \<and>
         get_all fortune_get 3 t = Some ([''spam'', ''egg'', ''spam''], u)"
proof -
  have "fortune_fits [''spam'', ''egg'']" by (simp add: fortune_fits_def nul_def)
  from fortune_round_robin [OF fortune_loaded_fresh this] obtain t where
    t: "put_all fortune_put [''spam'', ''egg''] fortune_fresh = Some t"
    "\<forall>c. \<exists>u. get_all fortune_get c t =
       Some (map (\<lambda>i. [''spam'', ''egg''] ! (i mod length [''spam'', ''egg''])) [0..<c], u)"
    by (elim meta_impE exE conjE) simp
  moreover from this(2) have
    "\<exists>u. get_all fortune_get 3 t = Some (map (\<lambda>i. [''spam'', ''egg''] ! (i mod 2)) [0..<3], u)"
    by (elim allE [of _ 3]) (simp add: numeral_2_eq_2)
  moreover have "map (\<lambda>i. [''spam'', ''egg''] ! (i mod 2)) [0..<3] = [''spam'', ''egg'', ''spam'']"
    by (simp add: numeral_3_eq_3)
  ultimately show ?thesis by metis
qed

text \<open>C11: a read is always safe. In every reachable state of the module \<open>fortune_read\<close> finds the end
  of a string inside the pot, never copies more than the user's buffer takes and never moves its
  index out of the pot; the value it returns on a first read is the length the user passed, not the
  number of bytes it copied.\<close>

theorem fortune_read_safe:
  assumes "fortune_reachable s" and "0 \<le> room" and "0 \<le> len" and "len < 2 ^ 63" and "ppos \<le> 0"
  shows "\<exists>out t. fortune_read room len ppos s = Inr (len, out, 1, t) \<and>
           int (length out) \<le> min room len \<and> 0 \<le> next_fortune t \<and> next_fortune t \<le> 4096"
proof -
  have inv: "fortune_inv s" using assms(1) by (rule fortune.reachable_inv)
  then obtain pot where pot: "cookie_pot s = Some pot" by (auto simp: fortune_inv_def)
  obtain n where n: "c_strlen (drop (nat (fortune_start s)) pot) = Inr n"
    using fortune_string [OF inv pot] by metis
  have "fortune_read room len ppos s =
    (let l = min (int n + 1) len in
      Inr (len, take (nat (min l room)) (drop (nat (fortune_start s)) pot), 1,
           s\<lparr>next_fortune := fortune_start s + (if room < l then 0 else l)\<rparr>))"
    by (rule fortune_read_eq [OF inv pot assms(5,3,4,2) n])
  then obtain out t where r: "fortune_read room len ppos s = Inr (len, out, 1, t)"
    "int (length out) \<le> min room len"
    using assms by (simp add: Let_def) linarith
  have "fortune_inv t" by (rule fortune_inv_read [OF inv r(1) assms(2-4)])
  with r show ?thesis by (auto simp: fortune_inv_def)
qed

theorem fortune_read_safe_witness:
  "\<exists>out t. fortune_read 10 100 0 fortune_fresh = Inr (100, out, 1, t) \<and> length out \<le> 10"
  using fortune_read_safe [OF fortune_reachable_fresh, of 10 100 0] by force

text \<open>C12: when a write is unsafe. In every reachable state \<open>fortune_write\<close> refuses the lengths that
  do not fit even with the one byte too many of its guard, and it writes outside the pot exactly for
  the length that ends one byte behind it, and for an empty write into an empty pot.\<close>

theorem fortune_write_faults:
  assumes "fortune_reachable s" and "0 \<le> len"
  shows "((\<exists>e. fortune_write buf len s = Inl e) \<longleftrightarrow>
            cookie_index s + len = 4097 \<or> cookie_index s + len = 0) \<and>
         ((\<exists>t. fortune_write buf len s = Inr (- ENOSPC_val, t)) \<longleftrightarrow> cookie_index s + len > 4097)"
proof -
  have inv: "fortune_inv s" using assms(1) by (rule fortune.reachable_inv)
  then obtain pot where pot: "cookie_pot s = Some pot" "0 \<le> cookie_index s"
    by (auto simp: fortune_inv_def)
  from inv assms(2) show ?thesis
  proof (cases rule: fortune_write_cases)
    case 1
    with pot(2) assms(2) show ?thesis using fortune_write_full [OF inv 1] inv
      by (auto simp: fortune_inv_def)
  next
    case 2
    then show ?thesis using fortune_write_over [OF inv 2] by simp
  next
    case 3
    then show ?thesis using fortune_write_empty [OF inv] pot inv
      by (auto simp: ENOSPC_val_def fortune_inv_def)
  next
    case 4
    then show ?thesis using fortune_write_fits [OF inv pot(1) 4, of buf] pot(2)
      by (auto simp: Let_def ENOSPC_val_def EFAULT_val_def)
  qed
qed

theorem fortune_write_faults_witness:
  "(\<exists>e. fortune_write (replicate 5000 CHR 0x41) 4097 fortune_fresh = Inl e) \<and>
   (\<exists>e. fortune_write [] 0 fortune_fresh = Inl e) \<and>
   (\<exists>t. fortune_write [] 4098 fortune_fresh = Inr (- ENOSPC_val, t))"
  using fortune_write_faults [OF fortune_reachable_fresh, of 4097]
    fortune_write_faults [OF fortune_reachable_fresh, of 0]
    fortune_write_faults [OF fortune_reachable_fresh, of 4098]
  by (simp add: fortune_fresh_def)

text \<open>A read before the first write spoils the first fortune. If the empty pot is read once, the
  index to read from moves to 1, and the first fortune written afterwards is delivered without its
  first letter.\<close>

theorem fortune_early_read:
  assumes "fortune_loaded s" and "f \<noteq> []" and "nul \<notin> set f" and "length f < 4096"
  shows "\<exists>t u v. fortune_get s = Some ([], t) \<and> fortune_put f t = Some u \<and> fortune_get u = Some (tl f, v)"
proof -
  have s: "s = fortune_fresh" using assms(1) by (rule fortune_loaded_eq)
  have inv: "fortune_inv s" using assms(1) by (rule fortune_inv_loaded)
  have pot: "cookie_pot s = Some (replicate 4096 nul)" by (simp add: s fortune_fresh_def)
  have start: "fortune_start s = 0" by (simp add: s fortune_fresh_def fortune_start_def)
  define t where "t = s\<lparr>next_fortune := 1\<rparr>"
  have len0: "c_strlen (replicate 4096 nul) = Inr 0" by (subst c_strlen_eq) (simp add: c_str_def)
  have read: "fortune_read 4096 4096 0 s = Inr (4096, [nul], 1, t)"
    using fortune_read_eq [OF inv pot _ _ _ _, of 0 4096 4096 0] len0 by (simp add: start t_def)
  have inv_t: "fortune_inv t" using fortune_inv_read [OF inv read] by simp
  have pot_t: "cookie_pot t = Some (replicate 4096 nul)" "cookie_index t = 0"
    by (simp_all add: t_def s fortune_fresh_def)
  let ?len = "int (length f) + 1" and ?rest = "replicate (4095 - length f) nul"
  have len: "0 < ?len" "cookie_index t + ?len \<le> 4096" using assms pot_t by auto
  define u where "u = t\<lparr>cookie_pot := Some (f @ nul # ?rest), cookie_index := ?len\<rparr>"
  have w: "fortune_write (f @ [CHR 0x0A]) ?len t = Inr (?len, u)"
    using fortune_write_fits [OF inv_t pot_t(1) len, of "f @ [CHR 0x0A]"] pot_t(2)
    by (simp add: Let_def u_def nat_add_distrib)
  have inv_u: "fortune_inv u" using fortune_inv_write [OF inv_t w] len by simp
  have start_u: "fortune_start u = 1" using assms(2) by (cases f) (auto simp: u_def t_def fortune_start_def)
  obtain c g where f: "f = c # g" using assms(2) by (cases f) auto
  have drop: "drop (nat (fortune_start u)) (f @ nul # ?rest) = g @ nul # ?rest"
    by (simp add: start_u f)
  have str: "c_strlen (drop (nat (fortune_start u)) (f @ nul # ?rest)) = Inr (length g)"
    unfolding drop by (rule c_strlen_append) (use assms f in simp)
  have "\<exists>v. fortune_read 4096 4096 0 u = Inr (4096, g @ [nul], 1, v)"
    using fortune_read_eq [OF inv_u _ _ _ _ _ str, of 0 4096 4096, unfolded drop] assms(4) f
    by (simp add: u_def Let_def nat_add_distrib)
  moreover have "c_str (g @ [nul]) = g" by (rule c_str_append) (use assms f in simp)
  moreover have "c_str [nul] = []" by (simp add: c_str_def)
  ultimately show ?thesis using read w f by (auto simp: fortune_get_def fortune_put_def)
qed

theorem fortune_early_read_witness:
  "\<exists>t u v. fortune_get fortune_fresh = Some ([], t) \<and> fortune_put ''spam'' t = Some u \<and>
           fortune_get u = Some (''pam'', v)"
  using fortune_early_read [OF fortune_loaded_fresh, of "''spam''"] by (simp add: nul_def)

text \<open>C13: loading fails half way. \<open>fortune_init\<close> succeeds exactly when the allocation and all three
  registrations do; when one of the registrations fails it frees the pot but leaves the entries that
  were made in \<open>/proc\<close>, so a read through \<open>/proc/fortune\<close> then uses freed memory.\<close>

theorem fortune_init_errors:
  assumes "fortune_init c fortune_static = (ret, s)"
  shows "(ret = 0 \<longleftrightarrow> vmalloc_ok c \<and> proc_create_ok c \<and> proc_mkdir_ok c \<and> proc_symlink_ok c) \<and>
         (ret \<noteq> 0 \<longrightarrow> ret = - ENOMEM_val \<and> cookie_pot s = None \<and>
            proc_entry s = (vmalloc_ok c \<and> proc_create_ok c) \<and>
            (\<forall>room len. fortune_read room len 0 s = Inl Use_After_Free))"
  using assms
  by (auto simp: fortune_init_def fortune_static_def ENOMEM_val_def Let_def fortune_read_def split: if_splits)

theorem fortune_init_errors_witness:
  "\<exists>s. proc_entry s \<and> fortune_read 10 10 0 s = Inl Use_After_Free"
proof -
  let ?c = "fortune_calls_ok\<lparr>proc_symlink_ok := False\<rparr>"
  obtain ret s where i: "fortune_init ?c fortune_static = (ret, s)" by fastforce
  from fortune_init_errors [OF i] have "proc_entry s \<and> fortune_read 10 10 0 s = Inl Use_After_Free"
    by (simp add: fortune_calls_ok_def)
  then show ?thesis by blast
qed

end
