(* ===== verification/C_Strings.thy ===== *)
theory C_Strings
  imports Prelude
begin

text \<open>
  The string functions of the C library that several programs use: \<open>atoi\<close>, the decimal conversions
  of \<open>printf\<close>, and \<open>strtok\<close> with a blank as the only separator.
\<close>

section \<open>Numbers\<close>

text \<open>\<open>atoi\<close>: white space, a sign, digits; it reads one character beyond the number.\<close>

definition is_digit :: "char \<Rightarrow> bool" where
  "is_digit c \<longleftrightarrow> 48 \<le> (of_char c :: nat) \<and> (of_char c :: nat) \<le> 57"

fun atoi_digits :: "int \<Rightarrow> char list \<Rightarrow> c_fault + int" where
  "atoi_digits v [] = Inl Out_Of_Bounds"
| "atoi_digits v (c # cs) =
     (if is_digit c then atoi_digits (10 * v + (of_char c - 48)) cs else Inr v)"

fun atoi :: "char list \<Rightarrow> c_fault + int" where
  "atoi [] = Inl Out_Of_Bounds"
| "atoi (c # cs) =
     (if c = CHR '' '' \<or> (9 \<le> (of_char c :: nat) \<and> (of_char c :: nat) \<le> 13) then atoi cs
      else if c = CHR ''-'' then map_sum (\<lambda>x. x) (\<lambda>v. to_s32 (- v)) (atoi_digits 0 cs)
      else if c = CHR ''+'' then map_sum (\<lambda>x. x) to_s32 (atoi_digits 0 cs)
      else map_sum (\<lambda>x. x) to_s32 (atoi_digits 0 (c # cs)))"

text \<open>\<open>%u\<close>, and \<open>%d\<close> of a number that is not negative\<close>

fun decimal :: "nat \<Rightarrow> string" where
  "decimal n = (if n < 10 then [char_of (48 + n)] else decimal (n div 10) @ [char_of (48 + n mod 10)])"

declare decimal.simps [simp del]

text \<open>What \<open>%d\<close> prints, \<open>atoi\<close> reads back.\<close>

lemma atoi_digit:
  assumes "d < 10"
  shows "atoi_digits v (char_of (48 + d) # cs) = atoi_digits (10 * v + int d) cs"
proof -
  have "(of_char (char_of (48 + d) :: char) :: nat) = 48 + d" using assms by simp
  moreover from this have "(of_char (char_of (48 + d) :: char) :: int) = 48 + int d"
    by (metis of_nat_add of_nat_numeral of_nat_of_char)
  ultimately show ?thesis using assms by (simp add: is_digit_def)
qed

lemma atoi_digits_decimal:
  "atoi_digits v (decimal n @ cs) = atoi_digits (v * 10 ^ length (decimal n) + int n) cs"
proof (induction n arbitrary: v cs rule: decimal.induct)
  case (1 n)
  show ?case
  proof (cases "n < 10")
    case True
    then show ?thesis by (simp add: decimal.simps [of n] atoi_digit mult.commute del: atoi_digits.simps)
  next
    case False
    then have "atoi_digits v (decimal n @ cs) =
        atoi_digits v (decimal (n div 10) @ (char_of (48 + n mod 10) # cs))"
      by (simp add: decimal.simps [of n])
    also have "\<dots> = atoi_digits (v * 10 ^ length (decimal (n div 10)) + int (n div 10)) (char_of (48 + n mod 10) # cs)"
      using 1 False by blast
    also have "\<dots> = atoi_digits (10 * (v * 10 ^ length (decimal (n div 10)) + int (n div 10)) + int (n mod 10)) cs"
      by (rule atoi_digit) simp
    also have "10 * (v * 10 ^ length (decimal (n div 10)) + int (n div 10)) + int (n mod 10) =
        v * 10 ^ length (decimal n) + int n"
      using False by (simp add: decimal.simps [of n] algebra_simps zdiv_int zmod_int)
    finally show ?thesis .
  qed
qed

lemma decimal_Cons: "\<exists>d cs. decimal n = char_of (48 + d :: nat) # cs \<and> d < 10"
proof (induction n rule: decimal.induct)
  case (1 n)
  show ?case
  proof (cases "n < 10")
    case True
    then show ?thesis by (intro exI [of _ n]) (auto simp: decimal.simps [of n])
  next
    case False
    with 1 obtain d cs where "decimal (n div 10) = char_of (48 + d :: nat) # cs" "d < 10" by blast
    with False show ?thesis by (intro exI [of _ d]) (auto simp: decimal.simps [of n])
  qed
qed

lemma atoi_decimal:
  assumes "n < 2 ^ 31" "\<not> is_digit c" shows "atoi (decimal n @ c # r) = Inr (int n)"
proof -
  obtain d cs where d: "decimal n = char_of (48 + d :: nat) # cs" "d < 10" using decimal_Cons by blast
  have o: "(of_char (char_of (48 + d) :: char) :: nat) = 48 + d" using d(2) by simp
  have "char_of (48 + d) \<noteq> (c' :: char)" if "(of_char c' :: nat) < 48" for c'
    using o that by auto
  then have "atoi (decimal n @ c # r) = map_sum (\<lambda>x. x) to_s32 (atoi_digits 0 (decimal n @ c # r))"
    using o by (simp add: d(1))
  also have "\<dots> = Inr (to_s32 (int n))"
    using assms(2) by (simp add: atoi_digits_decimal)
  finally show ?thesis using assms(1) by simp
qed

section \<open>\<open>strtok (s, " ")\<close>\<close>

text \<open>The next token and what is left of the string behind the byte that ends the token.\<close>

definition strtok :: "char list \<Rightarrow> (char list \<times> char list) option" where
  "strtok s =
     (let t = dropWhile (\<lambda>c. c = CHR '' '') s in
      if t = [] then None
      else Some (takeWhile (\<lambda>c. c \<noteq> CHR '' '') t, drop 1 (dropWhile (\<lambda>c. c \<noteq> CHR '' '') t)))"

definition token :: "char list \<Rightarrow> bool" where
  "token w \<longleftrightarrow> w \<noteq> [] \<and> CHR '' '' \<notin> set w"

fun unwords :: "char list list \<Rightarrow> char list" where
  "unwords [] = []"
| "unwords [w] = w"
| "unwords (w # ws) = w @ CHR '' '' # unwords ws"

lemma strtok_unwords:
  assumes "token w" "\<forall>v \<in> set ws. token v"
  shows "strtok (unwords (w # ws)) = Some (w, unwords ws)"
proof -
  from assms obtain c w' where w: "w = c # w'" "c \<noteq> CHR '' ''" by (cases w) (auto simp: token_def)
  have no: "\<forall>x \<in> set w. x \<noteq> CHR '' ''" using assms(1) by (auto simp: token_def)
  show ?thesis
  proof (cases ws)
    case Nil
    moreover have "dropWhile (\<lambda>c. c \<noteq> CHR '' '') w = []" "takeWhile (\<lambda>c. c \<noteq> CHR '' '') w = w"
      using no by (simp_all add: takeWhile_eq_all_conv)
    ultimately show ?thesis using w Nil by (simp add: strtok_def del: dropWhile_eq_Nil_conv)
  next
    case (Cons v vs)
    then have s: "unwords (w # ws) = w @ CHR '' '' # unwords ws" by simp
    have d: "dropWhile (\<lambda>c. c = CHR '' '') (w @ CHR '' '' # unwords ws) = w @ CHR '' '' # unwords ws"
      using w by simp
    have "takeWhile (\<lambda>c. c \<noteq> CHR '' '') (w @ CHR '' '' # unwords ws) = w"
      "dropWhile (\<lambda>c. c \<noteq> CHR '' '') (w @ CHR '' '' # unwords ws) = CHR '' '' # unwords ws"
      using no by (simp_all add: takeWhile_append2 dropWhile_append2)
    then show ?thesis unfolding s strtok_def Let_def d using w by simp
  qed
qed

lemma strtok_Nil [simp]: "strtok [] = None"
  by (simp add: strtok_def)

end
