(* ===== verification/Cookie_Queue.thy ===== *)
theory Cookie_Queue
  imports Message_Store C_Strings
begin

text \<open>
  The second fortune module, \<open>6-semestr/lab4/part2/main.c\<close>: writes append to a page as in
  \<open>fortune.c\<close>, but without any check of the space left, and a read shows one string through
  \<open>seq_printf\<close> and moves on for good. The operations of \<open>seq_file\<close> belong to the kernel and are a
  parameter; the handlers run one at a time, calls that overlap are not modelled.
\<close>

section \<open>The \<open>seq_file\<close> of the kernel\<close>

text \<open>
  What \<open>my_show\<close> and its caller use of \<open>seq_file\<close>: \<open>seq_buffer n\<close> is an empty one with a buffer of \<open>n\<close>
  bytes, \<open>seq_text\<close> what has been printed into it. As the kernel documents it, a text is appended if it
  fits with its zero byte; otherwise the \<open>seq_file\<close> has overflowed, and its text is discarded.
\<close>

record 'm seq_ops =
  seq_buffer :: "nat \<Rightarrow> 'm"
  seq_printf :: "'m \<Rightarrow> char list \<Rightarrow> 'm"
  seq_text :: "'m \<Rightarrow> char list"
  seq_size :: "'m \<Rightarrow> nat"
  seq_overflowed :: "'m \<Rightarrow> bool"

definition seq_empty :: "'m seq_ops \<Rightarrow> 'm \<Rightarrow> bool" where
  "seq_empty ops m \<longleftrightarrow> seq_text ops m = [] \<and> \<not> seq_overflowed ops m"

definition seq_ops_ok :: "'m seq_ops \<Rightarrow> bool" where
  "seq_ops_ok ops \<longleftrightarrow>
     (\<forall>n. seq_empty ops (seq_buffer ops n) \<and> seq_size ops (seq_buffer ops n) = n) \<and>
     (\<forall>m l. seq_size ops (seq_printf ops m l) = seq_size ops m \<and>
        (if \<not> seq_overflowed ops m \<and> length (seq_text ops m) + length l < seq_size ops m
         then \<not> seq_overflowed ops (seq_printf ops m l) \<and> seq_text ops (seq_printf ops m l) = seq_text ops m @ l
         else seq_overflowed ops (seq_printf ops m l)))"

lemma seq_printf_empty:
  assumes "seq_ops_ok ops" "seq_empty ops m"
  shows "length l < seq_size ops m \<Longrightarrow>
      \<not> seq_overflowed ops (seq_printf ops m l) \<and> seq_text ops (seq_printf ops m l) = l"
    and "seq_size ops m \<le> length l \<Longrightarrow> seq_overflowed ops (seq_printf ops m l)"
proof -
  have "if \<not> seq_overflowed ops m \<and> length (seq_text ops m) + length l < seq_size ops m
      then \<not> seq_overflowed ops (seq_printf ops m l) \<and> seq_text ops (seq_printf ops m l) = seq_text ops m @ l
      else seq_overflowed ops (seq_printf ops m l)"
    using assms(1) unfolding seq_ops_ok_def by blast
  then show "length l < seq_size ops m \<Longrightarrow>
      \<not> seq_overflowed ops (seq_printf ops m l) \<and> seq_text ops (seq_printf ops m l) = l"
    and "seq_size ops m \<le> length l \<Longrightarrow> seq_overflowed ops (seq_printf ops m l)"
    using assms(2) by (auto simp: seq_empty_def)
qed

section \<open>State and operations\<close>

definition COOKIE_POT_SIZE :: int where
  "COOKIE_POT_SIZE = 4096"

record cookies =
  cookie_str :: "char list option"
  write_index :: int
  read_index :: int
  proc_names :: "string list"

definition show_line :: "int \<Rightarrow> char list \<Rightarrow> char list" where
  "show_line i m = ''Index is '' @ decimal (nat i) @ '', message is '' @ m @ [CHR 0x0A]"

text \<open>
  \<open>my_show\<close>: what it returns, the \<open>seq_file\<close> after it and the new state. \<open>%s\<close> reads up to the first zero
  byte, as \<open>strlen\<close> does after it. Whether \<open>seq_printf\<close> had room is not looked at.
\<close>

definition my_show :: "'m seq_ops \<Rightarrow> 'm \<Rightarrow> cookies \<Rightarrow> c_fault + (int \<times> 'm \<times> cookies)" where
  "my_show ops m s =
     (case cookie_str s of
        None \<Rightarrow> Inl Null_Deref
      | Some str \<Rightarrow>
         if read_index s > int (length str) then Inl Out_Of_Bounds
         else case c_strlen (drop (nat (read_index s)) str) of
           Inl e \<Rightarrow> Inl e
         | Inr n \<Rightarrow>
            let line = show_line (read_index s) (take n (drop (nat (read_index s)) str)) in
            Inr (0, seq_printf ops m line,
                 if n \<noteq> 0 then s\<lparr>read_index := to_u32 (read_index s + (int n + 1))\<rparr> else s))"

definition my_write :: "char list \<Rightarrow> int \<Rightarrow> cookies \<Rightarrow> c_fault + (int \<times> cookies)" where
  "my_write buffer count s =
     (case cookie_str s of
        None \<Rightarrow> Inl Null_Deref
      | Some str \<Rightarrow>
         (case copy_from_user str (write_index s) buffer count of
            Inl e \<Rightarrow> Inl e
          | Inr (left, str1) \<Rightarrow>
             if left \<noteq> 0 then Inr (- 14, s\<lparr>cookie_str := Some str1\<rparr>)
             else let w = to_u32 (write_index s + count) in
               case store str1 (to_u32 (w - 1)) nul of
                 Inl e \<Rightarrow> Inl e
               | Inr str2 \<Rightarrow> Inr (count, s\<lparr>cookie_str := Some str2, write_index := w\<rparr>)))"

text \<open>
  Loading: the results of \<open>proc_mkdir\<close> and \<open>proc_symlink\<close> are not looked at. \<open>made\<close> tells which
  registrations succeed.
\<close>

definition cookies_init :: "bool \<Rightarrow> (string \<Rightarrow> bool) \<Rightarrow> cookies \<Rightarrow> int \<times> cookies" where
  "cookies_init vmalloc made s =
     (let s0 = s\<lparr>write_index := 0, read_index := 0\<rparr> in
      if \<not> vmalloc then (- 12, s0\<lparr>cookie_str := None\<rparr>)
      else let s1 = s0\<lparr>cookie_str := Some (replicate (nat COOKIE_POT_SIZE) nul)\<rparr> in
        if \<not> made ''fortune'' then (- 12, s1\<lparr>cookie_str := None\<rparr>)
        else (0, s1\<lparr>proc_names := filter made [''fortune'', ''cookie_dir'', ''cookie_symlink'']\<rparr>))"

definition cookies_exit :: "cookies \<Rightarrow> cookies" where
  "cookies_exit s = s\<lparr>cookie_str := None,
     proc_names := filter (\<lambda>n. n \<notin> {''fortune'', ''cookie_dir'', ''cookie_symlink''}) (proc_names s)\<rparr>"

definition cookies_static :: cookies where
  "cookies_static = \<lparr>cookie_str = None, write_index = 0, read_index = 0, proc_names = []\<rparr>"

definition cookies_loaded :: "cookies \<Rightarrow> bool" where
  "cookies_loaded s \<longleftrightarrow> (\<exists>made. cookies_init True made cookies_static = (0, s))"

section \<open>What a write does\<close>

definition cookies_inv :: "cookies \<Rightarrow> bool" where
  "cookies_inv s \<longleftrightarrow>
     (\<exists>str. cookie_str s = Some str \<and> length str = 4096) \<and>
     0 \<le> write_index s \<and> write_index s \<le> 4096 \<and> 0 \<le> read_index s \<and> read_index s \<le> 4096"

lemma my_write_over:
  assumes "cookies_inv s" "0 < count" "4096 < write_index s + count"
  shows "\<exists>e. my_write buffer count s = Inl e"
  using assms
  by (auto simp: cookies_inv_def my_write_def copy_from_user_def store_block_def Let_def min_def
      split: sum.splits if_splits)

lemma my_write_none:
  assumes "cookies_inv s"
  shows "my_write buffer 0 s =
    (if write_index s = 0 then Inl Out_Of_Bounds
     else Inr (0, s\<lparr>cookie_str := map_option (\<lambda>p. p[nat (write_index s - 1) := nul]) (cookie_str s)\<rparr>))"
  using assms
  by (auto simp: cookies_inv_def my_write_def copy_from_user_def store_block_def store_def Let_def to_u32_def)

lemma my_write_fits:
  assumes inv: "cookies_inv s" and str: "cookie_str s = Some p"
    and count: "0 < count" "write_index s + count \<le> 4096"
  shows "my_write buffer count s =
    (let i = nat (write_index s); n = nat count in
     if int (length buffer) < count
     then Inr (- 14, s\<lparr>cookie_str := Some (take i p @ buffer @ replicate (n - length buffer) nul @ drop (i + n) p)\<rparr>)
     else Inr (count, s\<lparr>cookie_str := Some (take i p @ take (n - 1) buffer @ nul # drop (i + n) p),
                        write_index := write_index s + count\<rparr>))"
proof -
  have facts: "length p = 4096" "0 \<le> write_index s" "write_index s \<le> 4096"
    using inv str by (auto simp: cookies_inv_def)
  let ?i = "nat (write_index s)" and ?n = "nat count"
  show ?thesis
  proof (cases "int (length buffer) < count")
    case True
    then have "copy_from_user p (write_index s) buffer count =
      Inr (count - int (length buffer), take ?i p @ buffer @ replicate (?n - length buffer) nul @ drop (?i + ?n) p)"
      using facts count by (auto simp: copy_from_user_def store_block_def Let_def)
    with True str show ?thesis by (simp add: my_write_def Let_def)
  next
    case False
    have copy: "copy_from_user p (write_index s) buffer count =
      Inr (0, take ?i p @ take ?n buffer @ drop (?i + ?n) p)"
      using facts count False by (intro copy_from_user_all) auto
    have w: "to_u32 (write_index s + count) = write_index s + count"
      "to_u32 (write_index s + count - 1) = write_index s + count - 1" using facts count by simp_all
    have n: "?n = Suc (?n - 1)" "?n - 1 < length buffer" using count False by auto
    have pos: "nat (write_index s + count - 1) = ?i + (?n - 1)" using facts count by simp
    have "store (take ?i p @ take ?n buffer @ drop (?i + ?n) p) (write_index s + count - 1) nul =
        Inr (take ?i p @ take (?n - 1) buffer @ nul # drop (?i + ?n) p)"
      using store_last [of ?i p ?n buffer] n facts count by (simp add: pos store_def)
    then show ?thesis using False str copy w by (simp add: my_write_def Let_def)
  qed
qed

section \<open>The pot as a queue of lines\<close>

definition cookies_rel :: "cookies \<Rightarrow> char list list \<Rightarrow> nat \<Rightarrow> bool" where
  "cookies_rel s ms k \<longleftrightarrow>
     cookies_inv s \<and> cookie_str s = Some (message_bytes ms @ replicate (4096 - length (message_bytes ms)) nul) \<and>
     write_index s = int (length (message_bytes ms)) \<and>
     read_index s = int (length (message_bytes (take k ms))) \<and> k \<le> length ms \<and>
     (\<forall>m \<in> set ms. nul \<notin> set m \<and> m \<noteq> [])"

text \<open>A line and its newline are written; a read shows one line.\<close>

definition cookies_put :: "char list \<Rightarrow> cookies \<Rightarrow> cookies option" where
  "cookies_put m s =
     (case my_write (m @ [CHR 0x0A]) (int (length m) + 1) s of
        Inl e \<Rightarrow> None
      | Inr (r, t) \<Rightarrow> if r = int (length m) + 1 then Some t else None)"

text \<open>
  The line that \<open>my_show\<close> gives to \<open>seq_printf\<close>, whether there is room for it or not, and the message in
  it: what follows the fixed text, up to the newline.
\<close>

definition given_line :: "char list seq_ops" where
  "given_line = \<lparr>seq_buffer = (\<lambda>n. []), seq_printf = (\<lambda>m l. l), seq_text = (\<lambda>m. m), seq_size = length,
     seq_overflowed = (\<lambda>m. False)\<rparr>"

definition cookies_get :: "cookies \<Rightarrow> (char list \<times> cookies) option" where
  "cookies_get s =
     (case my_show given_line [] s of
        Inl e \<Rightarrow> None
      | Inr (ret, line, t) \<Rightarrow>
         Some (butlast (drop (length (''Index is '' @ decimal (nat (read_index s)) @ '', message is '')) line), t))"

definition cookies_fit :: "char list list \<Rightarrow> bool" where
  "cookies_fit ms \<longleftrightarrow> length (message_bytes ms) \<le> 4096 \<and> (\<forall>m \<in> set ms. nul \<notin> set m \<and> m \<noteq> [])"

definition queue_turn :: "nat \<Rightarrow> nat \<Rightarrow> nat" where
  "queue_turn k n = k"

lemma show_line_message:
  "butlast (drop (length (''Index is '' @ decimal i @ '', message is '')) (show_line (int i) m)) = m"
proof -
  have "show_line (int i) m = (''Index is '' @ decimal i @ '', message is '') @ m @ [CHR 0x0A]"
    by (simp add: show_line_def)
  then show ?thesis by (metis append_eq_conv_conj butlast_snoc)
qed

lemma cookies_get_show:
  assumes "0 \<le> read_index s"
    and "my_show given_line [] s = Inr (0, show_line (read_index s) m, t)"
  shows "cookies_get s = Some (m, t)"
  using assms show_line_message [of "nat (read_index s)" m] by (simp add: cookies_get_def)

lemma cookies_put_law:
  assumes R: "cookies_rel s ms k" and fits: "cookies_fit (ms @ [m])"
  shows "\<exists>t. cookies_put m s = Some t \<and> cookies_rel t (ms @ [m]) k"
proof -
  let ?b = "message_bytes ms" and ?len = "int (length m) + 1"
  let ?rest = "replicate (4096 - length ?b) nul"
  have str: "cookie_str s = Some (?b @ ?rest)" and inv: "cookies_inv s"
    and w: "write_index s = int (length ?b)" using R by (auto simp: cookies_rel_def)
  have bound: "length ?b + length m + 1 \<le> 4096" using fits by (simp add: cookies_fit_def)
  have count: "0 < ?len" "write_index s + ?len \<le> 4096" using bound w by auto
  have n: "nat ?len = Suc (length m)" by simp
  define t where "t = s\<lparr>cookie_str := Some (?b @ m @ nul # drop (Suc (length m)) ?rest),
                         write_index := write_index s + ?len\<rparr>"
  have put: "my_write (m @ [CHR 0x0A]) ?len s = Inr (?len, t)"
    using my_write_fits [OF inv str count, of "m @ [CHR 0x0A]"] w by (simp add: Let_def n t_def)
  have "cookies_inv t" using inv count bound w by (auto simp: cookies_inv_def t_def)
  with R fits w have "cookies_rel t (ms @ [m]) k" by (auto simp: cookies_rel_def cookies_fit_def t_def)
  with put show ?thesis by (simp add: cookies_put_def)
qed

lemma cookies_show_law:
  assumes R: "cookies_rel s ms k" and k: "k < length ms"
  shows "\<exists>t. (\<forall>(ops :: 'm seq_ops) b. my_show ops b s = Inr (0, seq_printf ops b (show_line (read_index s) (ms ! k)), t)) \<and>
    cookies_rel t ms (Suc k)"
proof -
  let ?b = "message_bytes (take k ms)"
  let ?rest = "replicate (4096 - length (message_bytes ms)) nul"
  let ?after = "message_bytes (drop (Suc k) ms) @ ?rest"
  have str: "cookie_str s = Some (message_bytes ms @ ?rest)" and inv: "cookies_inv s"
    and r: "read_index s = int (length ?b)" and m: "nul \<notin> set (ms ! k)" "ms ! k \<noteq> []"
    using R k by (auto simp: cookies_rel_def)
  have split: "message_bytes ms = ?b @ ms ! k @ nul # message_bytes (drop (Suc k) ms)"
    by (rule message_bytes_split [OF k])
  have drop: "drop (nat (read_index s)) (message_bytes ms @ ?rest) = ms ! k @ nul # ?after"
    by (simp add: r) (simp add: split)
  have len: "length (message_bytes ms) \<le> 4096" "length ?b + length (ms ! k) + 1 \<le> length (message_bytes ms)"
    using R arg_cong [OF split, of length] by (auto simp: cookies_rel_def cookies_inv_def)
  have next_k: "length (message_bytes (take (Suc k) ms)) = length ?b + length (ms ! k) + 1"
    by (simp add: take_Suc_conv_app_nth [OF k])
  define t where "t = s\<lparr>read_index := read_index s + (int (length (ms ! k)) + 1)\<rparr>"
  have u32: "to_u32 (read_index s + (int (length (ms ! k)) + 1)) = read_index s + (int (length (ms ! k)) + 1)"
    using len by (simp add: r)
  have str_k: "c_strlen (ms ! k @ nul # ?after) = Inr (length (ms ! k))" by (rule c_strlen_append [OF m(1)])
  have in_range: "(read_index s > int (length (message_bytes ms @ ?rest))) = False" using len r by simp
  have "my_show ops b s = Inr (0, seq_printf ops b (show_line (read_index s) (ms ! k)), t)" for ops :: "'m seq_ops" and b
    unfolding my_show_def str option.case in_range if_False drop str_k sum.case
    using m(2) by (simp add: t_def u32 Let_def)
  moreover have "cookies_rel t ms (Suc k)"
    using R k len next_k by (auto simp: cookies_rel_def cookies_inv_def t_def r)
  ultimately show ?thesis by blast
qed

lemma cookies_get_law:
  assumes R: "cookies_rel s ms k" and k: "k < length ms"
  shows "\<exists>t. cookies_get s = Some (ms ! k, t) \<and> cookies_rel t ms (Suc k)"
proof -
  obtain t where t: "my_show given_line [] s = Inr (0, show_line (read_index s) (ms ! k), t)" "cookies_rel t ms (Suc k)"
    using cookies_show_law [OF R k, where 'm = "char list"] that
    by (metis given_line_def seq_ops.simps(2))
  have "0 \<le> read_index s" using R by (simp add: cookies_rel_def cookies_inv_def)
  with t show ?thesis using cookies_get_show by blast
qed

interpretation cookie_pot: message_store cookies_rel cookies_put cookies_get queue_turn cookies_fit
proof unfold_locales
  show "\<exists>t. cookies_put m s = Some t \<and> cookies_rel t (ms @ [m]) k"
    if "cookies_rel s ms k" "cookies_fit (ms @ [m])" for s ms k m using cookies_put_law that by blast
  show "\<exists>t. cookies_get s = Some (ms ! queue_turn k (length ms), t) \<and>
            cookies_rel t ms (Suc (queue_turn k (length ms)))"
    if "cookies_rel s ms k" "queue_turn k (length ms) < length ms" for s ms k
    using cookies_get_law that by (simp add: queue_turn_def)
  show "cookies_fit ms" if "cookies_fit (ms @ ns)" for ms ns using that by (auto simp: cookies_fit_def)
qed

section \<open>Properties\<close>

lemma cookies_loaded_eq:
  assumes "cookies_loaded s"
  shows "cookie_str s = Some (replicate 4096 nul) \<and> write_index s = 0 \<and> read_index s = 0"
  using assms
  by (auto simp: cookies_loaded_def cookies_init_def cookies_static_def COOKIE_POT_SIZE_def Let_def split: if_splits)

lemma cookies_rel_loaded: "cookies_loaded s \<Longrightarrow> cookies_rel s [] 0"
  using cookies_loaded_eq [of s] by (simp add: cookies_rel_def cookies_inv_def)

definition cookies_fresh :: cookies where
  "cookies_fresh = \<lparr>cookie_str = Some (replicate 4096 nul), write_index = 0, read_index = 0,
     proc_names = [''fortune'', ''cookie_dir'', ''cookie_symlink'']\<rparr>"

lemma cookies_loaded_fresh: "cookies_loaded cookies_fresh"
  by (auto simp: cookies_loaded_def cookies_init_def cookies_static_def cookies_fresh_def
      COOKIE_POT_SIZE_def Let_def intro!: exI [of _ "\<lambda>_. True"])

text \<open>Calls of \<open>my_show\<close> one after the other, each with a \<open>seq_file\<close> of its own.\<close>

fun show_all :: "'m seq_ops \<Rightarrow> 'm list \<Rightarrow> cookies \<Rightarrow> c_fault + ('m list \<times> cookies)" where
  "show_all ops [] s = Inr ([], s)"
| "show_all ops (b # bs) s =
     (case my_show ops b s of
        Inl e \<Rightarrow> Inl e
      | Inr (ret, c, t) \<Rightarrow> map_sum id (\<lambda>(cs, u). (c # cs, u)) (show_all ops bs t))"

text \<open>The line for message \<open>k\<close>, or for the empty message when all have been shown.\<close>

definition pot_line :: "char list list \<Rightarrow> nat \<Rightarrow> char list" where
  "pot_line ms k = show_line (int (length (message_bytes (take k ms)))) (if k < length ms then ms ! k else [])"

lemma show_all_lines:
  "cookies_rel s ms k \<Longrightarrow> k + length bs \<le> length ms \<Longrightarrow>
     \<exists>u. show_all ops bs s = Inr (map (\<lambda>j. seq_printf ops (bs ! j) (pot_line ms (k + j))) [0..<length bs], u) \<and>
       cookies_rel u ms (k + length bs)"
proof (induction bs arbitrary: s k)
  case (Cons b bs)
  from Cons.prems have k: "k < length ms" and r: "read_index s = int (length (message_bytes (take k ms)))"
    by (auto simp: cookies_rel_def)
  obtain t where t: "my_show ops b s = Inr (0, seq_printf ops b (pot_line ms k), t)" "cookies_rel t ms (Suc k)"
    using cookies_show_law [OF Cons.prems(1) k] k r unfolding pot_line_def by (metis (full_types))
  obtain u where u: "show_all ops bs t = Inr (map (\<lambda>j. seq_printf ops (bs ! j) (pot_line ms (Suc k + j))) [0..<length bs], u)"
    "cookies_rel u ms (Suc k + length bs)"
    using Cons.IH [OF t(2)] Cons.prems(2) by auto
  have "map (\<lambda>j. seq_printf ops ((b # bs) ! j) (pot_line ms (k + j))) [0..<length (b # bs)] =
      seq_printf ops b (pot_line ms k) # map (\<lambda>j. seq_printf ops (bs ! j) (pot_line ms (Suc k + j))) [0..<length bs]"
    by (simp add: upt_conv_Cons map_Suc_upt [symmetric] comp_def del: upt_Suc map_Suc_upt)
  with t(1) u show ?case by simp
qed simp

text \<open>C14: the pot is a queue of lines. After the module is loaded and non-empty lines that fit the
  pot were written, every call of \<open>my_show\<close> takes the next line, in the order they were written, and no line
  twice. With a \<open>seq_file\<close> that behaves as documented and is empty before the call, the line is then its whole
  text if its buffer has room for it, and is lost otherwise: the next call goes on with the line after it.\<close>

theorem cookies_fifo:
  assumes "cookies_loaded s" and "cookies_fit ms" and "length bs \<le> length ms"
    and "seq_ops_ok ops" and "\<forall>b \<in> set bs. seq_empty ops b"
  shows "\<exists>t cs u. put_all cookies_put ms s = Some t \<and> show_all ops bs t = Inr (cs, u) \<and>
    length cs = length bs \<and>
    (\<forall>j < length bs. if length (pot_line ms j) < seq_size ops (bs ! j)
       then \<not> seq_overflowed ops (cs ! j) \<and> seq_text ops (cs ! j) = pot_line ms j
       else seq_overflowed ops (cs ! j)) \<and>
    read_index u = int (length (message_bytes (take (length bs) ms)))"
proof -
  from cookie_pot.put_all_law [OF cookies_rel_loaded [OF assms(1)], of ms] assms(2)
  obtain t where t: "put_all cookies_put ms s = Some t" "cookies_rel t ms 0" by auto
  let ?cs = "map (\<lambda>j. seq_printf ops (bs ! j) (pot_line ms j)) [0..<length bs]"
  obtain u where u: "show_all ops bs t = Inr (?cs, u)" "cookies_rel u ms (length bs)"
    using show_all_lines [OF t(2), of bs ops] assms(3) by auto
  have "\<forall>j < length bs. if length (pot_line ms j) < seq_size ops (bs ! j)
      then \<not> seq_overflowed ops (?cs ! j) \<and> seq_text ops (?cs ! j) = pot_line ms j
      else seq_overflowed ops (?cs ! j)"
    using assms(5) seq_printf_empty [OF assms(4)] by auto
  moreover have "read_index u = int (length (message_bytes (take (length bs) ms)))"
    using u(2) unfolding cookies_rel_def by blast
  moreover have "length ?cs = length bs" by simp
  ultimately show ?thesis using t(1) u(1) by blast
qed

text \<open>A \<open>seq_file\<close>: the size of the buffer and its text, \<open>None\<close> once it has overflowed.\<close>

definition paged_ops :: "(nat \<times> char list option) seq_ops" where
  "paged_ops = \<lparr>seq_buffer = (\<lambda>n. (n, Some [])),
     seq_printf = (\<lambda>(n, m) l. (n, case m of None \<Rightarrow> None
       | Some x \<Rightarrow> if length x + length l < n then Some (x @ l) else None)),
     seq_text = (\<lambda>(n, m). case m of None \<Rightarrow> [] | Some x \<Rightarrow> x), seq_size = fst,
     seq_overflowed = (\<lambda>(n, m). m = None)\<rparr>"

lemma paged_ops_ok: "seq_ops_ok paged_ops"
  by (auto simp: seq_ops_ok_def seq_empty_def paged_ops_def split: option.splits)

theorem cookies_fifo_witness:
  "\<exists>t cs u. put_all cookies_put [''spam'', ''egg''] cookies_fresh = Some t \<and>
     show_all paged_ops [(20, Some []), (4096, Some [])] t = Inr (cs, u) \<and>
     seq_overflowed paged_ops (cs ! 0) \<and> seq_text paged_ops (cs ! 1) = ''Index is 5, message is egg'' @ [CHR 0x0A]"
proof -
  let ?ms = "[''spam'', ''egg'']" and ?bs = "[(20, Some []), (4096, Some [])] :: (nat \<times> char list option) list"
  have lines: "length (pot_line ?ms 0) = 28" "pot_line ?ms 1 = ''Index is 5, message is egg'' @ [CHR 0x0A]"
    by (simp_all add: pot_line_def show_line_def decimal.simps char_of_def bit_0)
  have "cookies_fit ?ms" "length ?bs \<le> length ?ms" "\<forall>b \<in> set ?bs. seq_empty paged_ops b"
    by (simp_all add: cookies_fit_def nul_def seq_empty_def paged_ops_def)
  from cookies_fifo [OF cookies_loaded_fresh this(1,2) paged_ops_ok this(3)] obtain t cs u where
    "put_all cookies_put ?ms cookies_fresh = Some t" "show_all paged_ops ?bs t = Inr (cs, u)"
    and cs: "\<forall>j < length ?bs. if length (pot_line ?ms j) < seq_size paged_ops (?bs ! j)
       then \<not> seq_overflowed paged_ops (cs ! j) \<and> seq_text paged_ops (cs ! j) = pot_line ?ms j
       else seq_overflowed paged_ops (cs ! j)"
    by blast
  moreover have "seq_overflowed paged_ops (cs ! 0)"
    using cs [rule_format, of 0] lines(1) by (simp add: paged_ops_def)
  moreover have "seq_text paged_ops (cs ! 1) = ''Index is 5, message is egg'' @ [CHR 0x0A]"
    using cs [rule_format, of 1] unfolding lines(2) by (simp add: paged_ops_def)
  ultimately show ?thesis by blast
qed

text \<open>C21: a write checks nothing. As long as the index is inside the pot, \<open>my_write\<close> accepts every
  length, and it writes outside the pot exactly when the bytes do not fit behind those written
  before, or when nothing has been written and the length is zero.\<close>

theorem my_write_unchecked:
  assumes "cookies_inv s" and "0 \<le> count"
  shows "(\<exists>e. my_write buffer count s = Inl e) \<longleftrightarrow>
           write_index s + count > 4096 \<or> write_index s + count = 0"
proof -
  obtain p where p: "cookie_str s = Some p" "0 \<le> write_index s" "write_index s \<le> 4096"
    using assms(1) by (auto simp: cookies_inv_def)
  consider "count = 0" | "0 < count" "4096 < write_index s + count"
    | "0 < count" "write_index s + count \<le> 4096" using assms(2) by linarith
  then show ?thesis
  proof cases
    case 1
    then show ?thesis using my_write_none [OF assms(1)] p by auto
  next
    case 2
    then show ?thesis using my_write_over [OF assms(1) 2] by simp
  next
    case 3
    then show ?thesis using my_write_fits [OF assms(1) p(1) 3, of buffer] p(2) by (auto simp: Let_def)
  qed
qed

lemma cookies_inv_fresh: "cookies_inv cookies_fresh"
  using cookies_rel_loaded [OF cookies_loaded_fresh] by (simp add: cookies_rel_def)

theorem my_write_unchecked_witness:
  "\<exists>e. my_write (replicate 5000 CHR 0x41) 5000 cookies_fresh = Inl e"
  using my_write_unchecked [OF cookies_inv_fresh, of 5000] by (simp add: cookies_fresh_def)

text \<open>
  An empty line is next: there is a zero byte at the index to read from, and it lies before the
  index to write to.
\<close>

definition stalled :: "cookies \<Rightarrow> bool" where
  "stalled s \<longleftrightarrow> cookies_inv s \<and> read_index s < write_index s \<and>
     (\<exists>p. cookie_str s = Some p \<and> p ! nat (read_index s) = nul)"

inductive cookies_step :: "cookies \<Rightarrow> cookies \<Rightarrow> bool" where
  step_show: "my_show (ops :: char list seq_ops) b s = Inr (ret, c, t) \<Longrightarrow> cookies_step s t"
| step_put: "my_write buffer count s = Inr (r, t) \<Longrightarrow> 0 \<le> count \<Longrightarrow> cookies_step s t"

lemma stalled_show:
  assumes "stalled s" shows "my_show ops b s = Inr (0, seq_printf ops b (show_line (read_index s) []), s)"
proof -
  obtain p where p: "cookie_str s = Some p" "length p = 4096" "p ! nat (read_index s) = nul"
    "0 \<le> read_index s" "read_index s < 4096"
    using assms by (auto simp: stalled_def cookies_inv_def)
  then have "drop (nat (read_index s)) p = nul # drop (Suc (nat (read_index s))) p"
    by (simp add: Cons_nth_drop_Suc [symmetric])
  with p show ?thesis by (simp add: my_show_def Let_def)
qed

lemma stalled_write:
  assumes st: "stalled s" and wr: "my_write buffer count s = Inr (r, t)" and count: "0 \<le> count"
  shows "stalled t \<and> read_index t = read_index s"
proof -
  obtain p where p: "cookie_str s = Some p" "length p = 4096" "p ! nat (read_index s) = nul"
    "0 \<le> read_index s" "read_index s < write_index s" "write_index s \<le> 4096" and inv: "cookies_inv s"
    using st by (auto simp: stalled_def cookies_inv_def)
  have keep: "(take (nat (write_index s)) p @ xs) ! nat (read_index s) = nul" for xs
    using p by (auto simp: nth_append)
  consider "count = 0" | "0 < count" "4096 < write_index s + count"
    | "0 < count" "write_index s + count \<le> 4096" using count by linarith
  then show ?thesis
  proof cases
    case 1
    with p inv wr my_write_none [OF inv, of buffer] show ?thesis
      by (auto simp: stalled_def cookies_inv_def nth_list_update)
  next
    case 2
    then show ?thesis using my_write_over [OF inv 2, of buffer] wr by auto
  next
    case 3
    with p inv wr keep my_write_fits [OF inv p(1) 3, of buffer] show ?thesis
      by (auto simp: stalled_def cookies_inv_def Let_def split: if_splits)
  qed
qed

interpretation stall: invariant "\<lambda>t. stalled t \<and> read_index t = i" cookies_step
    "\<lambda>t. stalled t \<and> read_index t = i" for i
proof unfold_locales
  show "stalled t \<and> read_index t = i" if "stalled s \<and> read_index s = i" "cookies_step s t" for s t
    using that by (auto simp: stalled_show elim!: cookies_step.cases dest: stalled_write)
qed

text \<open>An empty line blocks the queue. Once an empty line is next to be shown, every read shows
  the empty message and no read or write ever moves the index on, so the lines behind it are never
  shown.\<close>

theorem cookies_stall:
  assumes "stalled s" and "steps cookies_step n s t"
  shows "read_index t = read_index s \<and> cookies_get t = Some ([], t)"
proof -
  have "stalled t \<and> read_index t = read_index s"
    using stall.steps_inv [OF assms(2), of "read_index s"] assms(1) by simp
  moreover from this have "cookies_get t = Some ([], t)"
    by (intro cookies_get_show) (auto simp: stalled_show given_line_def, simp add: stalled_def cookies_inv_def)
  ultimately show ?thesis by blast
qed

theorem cookies_stall_witness:
  "\<exists>s t. my_write [CHR 0x0A] 1 cookies_fresh = Inr (1, s) \<and> cookies_put ''spam'' s = Some t \<and>
         cookies_get t = Some ([], t)"
proof -
  have fresh: "cookie_str cookies_fresh = Some (replicate 4096 nul)" "write_index cookies_fresh = 0"
    by (simp_all add: cookies_fresh_def)
  define s where "s = cookies_fresh\<lparr>cookie_str := Some (nul # replicate 4095 nul), write_index := 1\<rparr>"
  have w1: "my_write [CHR 0x0A] 1 cookies_fresh = Inr (1, s)"
    using my_write_fits [OF cookies_inv_fresh fresh(1), of 1 "[CHR 0x0A]"]
    by (simp add: fresh(2) Let_def s_def)
  have st: "stalled s"
    by (simp add: stalled_def cookies_inv_def s_def cookies_fresh_def)
  then have inv: "cookies_inv s" "cookie_str s = Some (nul # replicate 4095 nul)" "write_index s = 1"
    by (simp_all add: stalled_def s_def)
  obtain t where t: "my_write (''spam'' @ [CHR 0x0A]) 5 s = Inr (5, t)"
    using my_write_fits [OF inv(1,2), of 5 "''spam'' @ [CHR 0x0A]"] inv(3) by (simp add: Let_def)
  have "steps cookies_step (Suc 0) s t"
    by (rule steps_Suc [of cookies_step 0 s s t, OF steps_0 step_put [OF t]]) simp
  from cookies_stall [OF st this] w1 t show ?thesis by (auto simp: cookies_put_def)
qed

end
