(* ===== verification/Cookie_Files.thy ===== *)
theory Cookie_Files
  imports Cookie_Queue
begin

text \<open>
  Reading \<open>/proc/fortune\<close> of \<open>6-semestr/lab4/part2/main.c\<close>: what \<open>my_show\<close> makes of the contract of the
  kernel's \<open>seq_read\<close>.
\<close>

section \<open>Lines and their lengths\<close>



section \<open>The operations of the file\<close>





section \<open>What a reader of the file gets\<close>







end
