(* ===== verification/Directory_Walk.thy ===== *)
theory Directory_Walk
  imports Complex_Main Prelude
begin

text \<open>
  The directory walk of \<open>6-semestr/lab2/main.c\<close>: \<open>dopath\<close> descends into a directory by changing
  into it and calls \<open>counter\<close> for every file. The file system is a tree with permissions, the
  current directory is part of the state, and every open directory uses up a file descriptor.
\<close>

section \<open>The file system\<close>

datatype mode = S_IFREG | S_IFDIR | S_IFBLK | S_IFCHR | S_IFIFO | S_IFLNK | S_IFSOCK

text \<open>
  A directory has a read permission (\<open>opendir\<close>), a search permission (\<open>chdir\<close>, and looking up a
  name in it) and its entries in the order in which \<open>readdir\<close> gives them.
\<close>

datatype fnode = Leaf mode | Dir bool bool "(string \<times> fnode) list"

fun lookup :: "fnode \<Rightarrow> string list \<Rightarrow> fnode option" where
  "lookup n [] = Some n"
| "lookup (Leaf m) (p # ps) = None"
| "lookup (Dir r x es) (p # ps) =
     (if x then (case map_of es p of None \<Rightarrow> None | Some n \<Rightarrow> lookup n ps) else None)"

fun st_mode :: "fnode \<Rightarrow> mode" where
  "st_mode (Leaf m) = m"
| "st_mode (Dir r x es) = S_IFDIR"

section \<open>State\<close>

record counts =
  nreg :: int
  ndir :: int
  nblk :: int
  nchr :: int
  nfifo :: int
  nslink :: int
  nsock :: int

record walk = counts +
  cwd :: "string list"
  lines :: "string list"
  messages :: "string list"

datatype ftw = FTW_F | FTW_D | FTW_DNR | FTW_NS

definition lstat :: "fnode \<Rightarrow> string list \<Rightarrow> walk \<Rightarrow> fnode option" where
  "lstat fs path w = lookup fs (cwd w @ path)"

definition chdir :: "fnode \<Rightarrow> string list \<Rightarrow> walk \<Rightarrow> walk" where
  "chdir fs path w =
     (case lookup fs (cwd w @ path) of
        Some (Dir r True es) \<Rightarrow> w\<lparr>cwd := cwd w @ path\<rparr>
      | _ \<Rightarrow> w)"

definition chdir_up :: "walk \<Rightarrow> walk" where
  "chdir_up w = w\<lparr>cwd := butlast (cwd w)\<rparr>"

fun path_name :: "string list \<Rightarrow> string" where
  "path_name [] = ''.''"
| "path_name [n] = n"
| "path_name (n # ns) = n @ ''/'' @ path_name ns"

section \<open>\<open>counter\<close>\<close>

text \<open>\<open>indent\<close> is what \<open>dopath\<close> has printed on the line already.\<close>

fun count_file :: "mode \<Rightarrow> walk \<Rightarrow> int \<times> walk" where
  "count_file S_IFREG w = (0, w\<lparr>nreg := nreg w + 1\<rparr>)"
| "count_file S_IFBLK w = (0, w\<lparr>nblk := nblk w + 1\<rparr>)"
| "count_file S_IFCHR w = (0, w\<lparr>nchr := nchr w + 1\<rparr>)"
| "count_file S_IFIFO w = (0, w\<lparr>nfifo := nfifo w + 1\<rparr>)"
| "count_file S_IFLNK w = (0, w\<lparr>nslink := nslink w + 1\<rparr>)"
| "count_file S_IFSOCK w = (0, w\<lparr>nsock := nsock w + 1\<rparr>)"
| "count_file S_IFDIR w = (-1, w\<lparr>messages := messages w @ [''directory has type FTW_F'']\<rparr>)"

fun counter :: "string \<Rightarrow> string \<Rightarrow> mode \<Rightarrow> ftw \<Rightarrow> walk \<Rightarrow> int \<times> walk" where
  "counter indent path m FTW_F w =
     count_file m (w\<lparr>lines := lines w @ [indent @ ''-- '' @ path]\<rparr>)"
| "counter indent path m FTW_D w =
     (0, w\<lparr>lines := lines w @ [indent @ ''-- '' @ path @ ''/''], ndir := ndir w + 1\<rparr>)"
| "counter indent path m FTW_DNR w =
     (-1, w\<lparr>messages := messages w @ [''no access to a directory'']\<rparr>)"
| "counter indent path m FTW_NS w =
     (-1, w\<lparr>messages := messages w @ [''stat error'']\<rparr>)"

section \<open>\<open>dopath\<close>\<close>

definition indentation :: "nat \<Rightarrow> string" where
  "indentation depth = concat (replicate depth [CHR 0x7C, CHR 0x09])"

text \<open>The loop over \<open>readdir\<close>: it ends with the first entry whose walk does not return 0.\<close>

fun read_entries ::
  "(string \<Rightarrow> walk \<Rightarrow> int \<times> walk) \<Rightarrow> string list \<Rightarrow> int \<Rightarrow> walk \<Rightarrow> int \<times> walk" where
  "read_entries f [] ret w = (ret, w)"
| "read_entries f (n # ns) ret w =
     (if ret \<noteq> 0 then (ret, w)
      else if n \<noteq> ''.'' \<and> n \<noteq> ''..''
      then (case f n w of (r, w') \<Rightarrow> read_entries f ns r w')
      else read_entries f ns ret w)"

text \<open>
  One call of \<open>dopath\<close>; \<open>descend\<close> is the recursive call, or \<open>None\<close> when the process has no file
  descriptor left and \<open>opendir\<close> fails for that reason.
\<close>

definition dopath_body ::
  "(string \<Rightarrow> walk \<Rightarrow> int \<times> walk) option \<Rightarrow> fnode \<Rightarrow> string list \<Rightarrow> nat \<Rightarrow> walk \<Rightarrow> int \<times> walk" where
  "dopath_body descend fs path depth w =
     (case lstat fs path w of
        None \<Rightarrow> counter [] (path_name path) S_IFREG FTW_NS w
      | Some (Leaf m) \<Rightarrow> counter (indentation depth) (path_name path) m FTW_F w
      | Some (Dir r x es) \<Rightarrow>
         (case counter (indentation depth) (path_name path) S_IFDIR FTW_D w of (ret, w1) \<Rightarrow>
          if ret \<noteq> 0 then (ret, w1)
          else case descend of
              None \<Rightarrow> counter [] (path_name path) S_IFDIR FTW_DNR w1
            | Some f \<Rightarrow>
               if \<not> r then counter [] (path_name path) S_IFDIR FTW_DNR w1
               else case read_entries f (''.'' # ''..'' # map fst es) ret (chdir fs path w1) of
                      (ret', w2) \<Rightarrow> (ret', chdir_up w2)))"

text \<open>The number of free file descriptors bounds how deep the walk can go.\<close>

primrec dopath :: "nat \<Rightarrow> fnode \<Rightarrow> string list \<Rightarrow> nat \<Rightarrow> walk \<Rightarrow> int \<times> walk" where
  "dopath 0 fs path depth w = dopath_body None fs path depth w"
| "dopath (Suc k) fs path depth w =
     dopath_body (Some (\<lambda>n. dopath k fs [n] (Suc depth))) fs path depth w"

section \<open>\<open>main\<close>\<close>

definition walk_start :: "string list \<Rightarrow> walk" where
  "walk_start dir = \<lparr>nreg = 0, ndir = 0, nblk = 0, nchr = 0, nfifo = 0, nslink = 0, nsock = 0,
     cwd = dir, lines = [], messages = []\<rparr>"

definition nTotal :: "walk \<Rightarrow> int" where
  "nTotal w = nreg w + ndir w + nblk w + nchr w + nfifo w + nslink w + nsock w"

definition printed_total :: "walk \<Rightarrow> int" where
  "printed_total w = (if nTotal w = 0 then 1 else nTotal w)"

text \<open>
  \<open>n * 100.0 / nTotal\<close> is computed in \<open>double\<close>: each conversion and operation gives the exact value rounded to
  53 significant bits, to the nearest, ties to even. \<open>scale_up\<close> and \<open>scale_down\<close> find the power of two that
  brings a value between \<open>2 ^ 52\<close> and \<open>2 ^ 53\<close>. The values here are 0 or between \<open>2 ^ - 63\<close> and \<open>2 ^ 70\<close>, so
  the bounds of the exponent are never met.
\<close>

definition nearest_even :: "rat \<Rightarrow> int" where
  "nearest_even x =
     (let n = \<lfloor>x\<rfloor>; r = x - of_int n in if r < 1 / 2 \<or> r = 1 / 2 \<and> even n then n else n + 1)"

lemma ceiling_half:
  fixes y :: rat assumes "1 < y" shows "\<lceil>y / 2\<rceil> < \<lceil>y\<rceil>"
proof -
  have "y \<le> of_int \<lceil>y\<rceil>" by (rule le_of_int_ceiling)
  moreover have "2 \<le> \<lceil>y\<rceil>" using assms by (simp add: le_ceiling_iff)
  then have "2 \<le> (of_int \<lceil>y\<rceil> :: rat)" by simp
  ultimately have "y / 2 \<le> of_int \<lceil>y\<rceil> - 1" by linarith
  then have "y / 2 \<le> of_int (\<lceil>y\<rceil> - 1)" by simp
  then have "\<lceil>y / 2\<rceil> \<le> \<lceil>y\<rceil> - 1" by (rule ceiling_le)
  then show ?thesis by simp
qed

function scale_up :: "rat \<Rightarrow> nat" where
  "scale_up x = (if x \<le> 0 \<or> 2 ^ 52 \<le> x then 0 else Suc (scale_up (2 * x)))"
  by pat_completeness auto
termination
proof (relation "measure (\<lambda>x. nat \<lceil>2 ^ 52 / x\<rceil>)")
  fix x :: rat assume "\<not> (x \<le> 0 \<or> 2 ^ 52 \<le> x)"
  then have "0 < x" "x < 2 ^ 52" by auto
  then have "1 < 2 ^ 52 / x" by simp
  moreover have "2 ^ 52 / (2 * x) = (2 ^ 52 / x) / 2" by simp
  ultimately have "\<lceil>2 ^ 52 / (2 * x)\<rceil> < \<lceil>2 ^ 52 / x\<rceil>" using ceiling_half by metis
  moreover have "0 < \<lceil>2 ^ 52 / x\<rceil>" using \<open>0 < x\<close> by simp
  ultimately show "(2 * x, x) \<in> measure (\<lambda>x. nat \<lceil>2 ^ 52 / x\<rceil>)" by simp
qed simp

function scale_down :: "rat \<Rightarrow> nat" where
  "scale_down x = (if x < 2 ^ 53 then 0 else Suc (scale_down (x / 2)))"
  by pat_completeness auto
termination
proof (relation "measure (\<lambda>x. nat \<lfloor>x\<rfloor>)")
  fix x :: rat assume "\<not> x < 2 ^ 53"
  then have "2 ^ 53 \<le> x" by simp
  then have "x / 2 + 1 \<le> x" by simp
  then have "\<lfloor>x / 2\<rfloor> < \<lfloor>x\<rfloor>" by linarith
  moreover have "0 < \<lfloor>x\<rfloor>" using \<open>2 ^ 53 \<le> x\<close> by simp
  ultimately show "(x / 2, x) \<in> measure (\<lambda>x. nat \<lfloor>x\<rfloor>)" by simp
qed simp

declare scale_up.simps [simp del] scale_down.simps [simp del]

definition double_of :: "rat \<Rightarrow> rat" where
  "double_of x = (let k = scale_up x; j = scale_down x in of_int (nearest_even (x * 2 ^ k / 2 ^ j)) * 2 ^ j / 2 ^ k)"

definition percent :: "int \<Rightarrow> walk \<Rightarrow> rat" where
  "percent n w = double_of (double_of (double_of (of_int n) * 100) / double_of (of_int (printed_total w)))"

text \<open>\<open>%5.2f\<close> prints a value to the nearest hundredth, ties to even; this is the number of hundredths.\<close>

definition hundredths :: "rat \<Rightarrow> int" where
  "hundredths x = nearest_even (x * 100)"

text \<open>The result: what is printed for each type, the count and the hundredths of its percentage, the total, and the exit value.\<close>

definition walk_main ::
  "nat \<Rightarrow> fnode \<Rightarrow> string list \<Rightarrow> string list list \<Rightarrow> (string + ((int \<times> int) list \<times> int)) \<times> int" where
  "walk_main fds fs dir args =
     (case args of
        [path] \<Rightarrow>
          (case dopath fds fs path 0 (walk_start dir) of (ret, w) \<Rightarrow>
             (Inr (map (\<lambda>n. (n, hundredths (percent n w))) [nreg w, ndir w, nblk w, nchr w, nfifo w, nslink w, nsock w],
                   printed_total w), ret))
      | _ \<Rightarrow> (Inl ''ERROR, wrong arguments.'', -1))"

section \<open>The specification: a preorder listing\<close>

text \<open>
  What a walk should report: the files in preorder with their depth, up to and including the first
  directory that cannot be read; the second component tells whether there is none.
\<close>

fun walk_tree :: "nat \<Rightarrow> string \<Rightarrow> fnode \<Rightarrow> (nat \<times> string \<times> mode) list \<times> bool"
  and walk_list :: "nat \<Rightarrow> (string \<times> fnode) list \<Rightarrow> (nat \<times> string \<times> mode) list \<times> bool" where
  "walk_tree d n (Leaf m) = ([(d, n, m)], True)"
| "walk_tree d n (Dir r x es) =
     (if r then (case walk_list (Suc d) es of (ev, ok) \<Rightarrow> ((d, n, S_IFDIR) # ev, ok))
      else ([(d, n, S_IFDIR)], False))"
| "walk_list d [] = ([], True)"
| "walk_list d ((n, t) # es) =
     (case walk_tree d n t of (ev, ok) \<Rightarrow>
        if ok then (case walk_list d es of (ev', ok') \<Rightarrow> (ev @ ev', ok')) else (ev, False))"

text \<open>A tree in which every directory can be searched, and the number of directories on a path.\<close>

fun wf_node :: "fnode \<Rightarrow> bool" and wf_entries :: "(string \<times> fnode) list \<Rightarrow> bool" where
  "wf_node (Leaf m) = (m \<noteq> S_IFDIR)"
| "wf_node (Dir r x es) = (x \<and> distinct (map fst es) \<and> wf_entries es)"
| "wf_entries [] = True"
| "wf_entries ((n, t) # es) = (n \<noteq> ''.'' \<and> n \<noteq> ''..'' \<and> wf_node t \<and> wf_entries es)"

fun levels :: "fnode \<Rightarrow> nat" and levels_list :: "(string \<times> fnode) list \<Rightarrow> nat" where
  "levels (Leaf m) = 0"
| "levels (Dir r x es) = Suc (levels_list es)"
| "levels_list [] = 0"
| "levels_list ((n, t) # es) = max (levels t) (levels_list es)"

definition number :: "mode \<Rightarrow> (nat \<times> string \<times> mode) list \<Rightarrow> int" where
  "number m ev = int (length (filter (\<lambda>(d, n, m'). m' = m) ev))"

fun line_of :: "nat \<times> string \<times> mode \<Rightarrow> string" where
  "line_of (d, n, m) = indentation d @ ''-- '' @ n @ (if m = S_IFDIR then ''/'' else [])"

definition report :: "(nat \<times> string \<times> mode) list \<Rightarrow> bool \<Rightarrow> walk \<Rightarrow> walk" where
  "report ev ok w = w\<lparr>nreg := nreg w + number S_IFREG ev, ndir := ndir w + number S_IFDIR ev,
     nblk := nblk w + number S_IFBLK ev, nchr := nchr w + number S_IFCHR ev,
     nfifo := nfifo w + number S_IFIFO ev, nslink := nslink w + number S_IFLNK ev,
     nsock := nsock w + number S_IFSOCK ev, lines := lines w @ map line_of ev,
     messages := messages w @ (if ok then [] else [''no access to a directory''])\<rparr>"

lemma number_simps [simp]:
  "number m [] = 0" "number m ((d, n, m') # ev) = (if m' = m then 1 else 0) + number m ev"
  "number m (ev @ ev') = number m ev + number m ev'"
  by (simp_all add: number_def)

lemma report_cwd [simp]: "cwd (report ev ok w) = cwd w"
  by (simp add: report_def)

lemma report_none [simp]: "report [] True w = w"
  by (simp add: report_def)

lemma report_append: "report ev' ok (report ev True w) = report (ev @ ev') ok w"
  by (simp add: report_def add.assoc)

lemma report_move: "(report ev ok (w\<lparr>cwd := c\<rparr>))\<lparr>cwd := c'\<rparr> = (report ev ok w)\<lparr>cwd := c'\<rparr>"
  by (simp add: report_def)

lemma report_back: "(report ev ok w)\<lparr>cwd := cwd w\<rparr> = report ev ok w"
  by (simp add: report_def)

lemma lookup_append: "lookup n (ps @ qs) = Option.bind (lookup n ps) (\<lambda>m. lookup m qs)"
  by (induction n ps rule: lookup.induct) (auto split: option.splits)

lemma counter_leaf: "m \<noteq> S_IFDIR \<Longrightarrow>
    counter (indentation d) n m FTW_F w = (0, report [(d, n, m)] True w)"
  by (cases m) (simp_all add: report_def)

lemma counter_dir: "counter (indentation d) n m FTW_D w = (0, report [(d, n, S_IFDIR)] True w)"
  by (simp add: report_def)

lemma counter_dnr: "counter i n m FTW_DNR (report ev True w) = (-1, report ev False w)"
  by (simp add: report_def)

lemma wf_entry: "wf_entries es \<Longrightarrow> (n, t) \<in> set es \<Longrightarrow> wf_node t \<and> n \<noteq> ''.'' \<and> n \<noteq> ''..''"
  by (induction es) auto

lemma levels_entry: "(n, t) \<in> set es \<Longrightarrow> levels t \<le> levels_list es"
  by (induction es) (auto simp: le_max_iff_disj)

definition walked :: "(nat \<times> string \<times> mode) list \<times> bool \<Rightarrow> walk \<Rightarrow> int \<times> walk" where
  "walked p w = (if snd p then 0 else -1, report (fst p) (snd p) w)"

lemma dopath_walk:
  "levels t \<le> k \<Longrightarrow> wf_node t \<Longrightarrow> lookup fs (cwd w @ [n]) = Some t \<Longrightarrow>
     dopath k fs [n] d w = walked (walk_tree d n t) w"
  "(\<And>n t. (n, t) \<in> set es \<Longrightarrow> levels t \<le> k \<and> wf_node t \<and> n \<noteq> ''.'' \<and> n \<noteq> ''..'' \<and>
      lookup fs (cwd w @ [n]) = Some t) \<Longrightarrow>
     read_entries (\<lambda>n. dopath k fs [n] d) (map fst es) 0 w = walked (walk_list d es) w"
proof (induction d n t and d es arbitrary: k w and k w rule: walk_tree_walk_list.induct)
  case (1 d n m)
  then show ?case
    by (cases k) (simp_all add: dopath_body_def lstat_def counter_leaf walked_def del: counter.simps)
next
  case (2 d n r x es)
  then obtain k' where k: "k = Suc k'" "levels_list es \<le> k'" by (cases k) auto
  have x: "x" and wf: "wf_entries es" "distinct (map fst es)" using 2 by auto
  let ?w1 = "report [(d, n, S_IFDIR)] True w"
  have child: "levels t' \<le> k' \<and> wf_node t' \<and> n' \<noteq> ''.'' \<and> n' \<noteq> ''..'' \<and>
      lookup fs (cwd (?w1\<lparr>cwd := cwd w @ [n]\<rparr>) @ [n']) = Some t'" if "(n', t') \<in> set es" for n' t'
    using that wf_entry [OF wf(1) that] levels_entry [OF that] k(2) wf(2) 2(4) x
    by (simp add: lookup_append [of fs "cwd w @ [n]" "[n']", simplified])
  show ?case
  proof (cases r)
    case True
    have entries: "read_entries (\<lambda>n'. dopath k' fs [n'] (Suc d)) (map fst es) 0 (?w1\<lparr>cwd := cwd w @ [n]\<rparr>)
        = walked (walk_list (Suc d) es) (?w1\<lparr>cwd := cwd w @ [n]\<rparr>)"
      using True child by (intro "2.IH") auto
    have cd: "chdir fs [n] ?w1 = ?w1\<lparr>cwd := cwd w @ [n]\<rparr>"
      using 2(4) x by (simp add: chdir_def)
    obtain ev ok where ev: "walk_list (Suc d) es = (ev, ok)" by fastforce
    have "chdir_up (report ev ok (?w1\<lparr>cwd := cwd w @ [n]\<rparr>)) = report ev ok ?w1"
      using report_move [where ev = ev and ok = ok and w = ?w1 and c' = "cwd w"]
        report_back [where ev = ev and ok = ok and w = ?w1]
      by (simp add: chdir_up_def)
    with True ev entries cd show ?thesis
      by (simp add: k dopath_body_def lstat_def 2(4) counter_dir walked_def report_append del: counter.simps)
  next
    case False
    then show ?thesis
      by (simp add: k dopath_body_def lstat_def 2(4) counter_dir counter_dnr walked_def del: counter.simps)
  qed
next
  case (3 d)
  then show ?case by (simp add: walked_def)
next
  case (4 d n t es)
  from 4(3) [of n t] have t: "levels t \<le> k" "wf_node t" "n \<noteq> ''.''" "n \<noteq> ''..''"
    "lookup fs (cwd w @ [n]) = Some t" by auto
  note head = "4.IH"(1) [OF t(1,2,5)]
  obtain ev ok where ev: "walk_tree d n t = (ev, ok)" by fastforce
  show ?case
  proof (cases ok)
    case True
    have "read_entries (\<lambda>n. dopath k fs [n] d) (map fst es) 0 (report ev True w) =
        walked (walk_list d es) (report ev True w)"
      by (rule "4.IH"(2) [OF ev [symmetric] True]) (use 4(3) in auto)
    with True ev head t show ?thesis by (simp add: walked_def report_append split: prod.splits)
  next
    case False
    have stop: "read_entries f ns (-1) v = (-1, v)" for f ns v by (cases ns) auto
    from False ev head t show ?thesis by (simp add: walked_def stop)
  qed
qed

section \<open>Properties\<close>

text \<open>C16: the walk is the preorder listing. For a file in the directory the program is started in,
  if every directory below it can be searched and there are enough file descriptors for its depth,
  \<open>dopath\<close> prints the files in preorder with their depth, counts each by its type, comes back to the
  directory it started from, and returns 0; the first directory that cannot be read is still counted
  but ends the whole walk with -1 and one message.\<close>

theorem dopath_correct:
  assumes "levels t \<le> fds" and "wf_node t" and "lookup fs (cwd w @ [n]) = Some t"
    and "walk_tree d n t = (ev, ok)"
  shows "dopath fds fs [n] d w = (if ok then 0 else -1, report ev ok w)"
  using dopath_walk(1) [OF assms(1-3)] assms(4) by (simp add: walked_def)

definition sample_tree :: fnode where
  "sample_tree = Dir True True [(''a'', Dir True True [(''b'', Leaf S_IFREG), (''c'', Leaf S_IFLNK)]),
     (''d'', Dir False True [(''e'', Leaf S_IFREG)]), (''f'', Leaf S_IFREG)]"

theorem dopath_correct_witness:
  "dopath 5 (Dir True True [(''top'', sample_tree)]) [''top''] 0 (walk_start []) =
     (-1, report [(0, ''top'', S_IFDIR), (1, ''a'', S_IFDIR), (2, ''b'', S_IFREG), (2, ''c'', S_IFLNK),
                  (1, ''d'', S_IFDIR)] False (walk_start []))"
proof -
  have tree: "walk_tree 0 ''top'' sample_tree =
    ([(0, ''top'', S_IFDIR), (1, ''a'', S_IFDIR), (2, ''b'', S_IFREG), (2, ''c'', S_IFLNK), (1, ''d'', S_IFDIR)], False)"
    by (simp add: sample_tree_def)
  have "levels sample_tree \<le> 5" "wf_node sample_tree"
    "lookup (Dir True True [(''top'', sample_tree)]) (cwd (walk_start []) @ [''top'']) = Some sample_tree"
    by (simp_all add: sample_tree_def walk_start_def)
  from dopath_correct [OF this tree] show ?thesis by simp
qed

text \<open>A tree that can be read everywhere, and the number of files in it.\<close>

fun readable :: "fnode \<Rightarrow> bool" and readable_list :: "(string \<times> fnode) list \<Rightarrow> bool" where
  "readable (Leaf m) = True"
| "readable (Dir r x es) = (r \<and> readable_list es)"
| "readable_list [] = True"
| "readable_list ((n, t) # es) = (readable t \<and> readable_list es)"

fun files :: "fnode \<Rightarrow> nat" and files_list :: "(string \<times> fnode) list \<Rightarrow> nat" where
  "files (Leaf m) = 1"
| "files (Dir r x es) = Suc (files_list es)"
| "files_list [] = 0"
| "files_list ((n, t) # es) = files t + files_list es"

lemma walk_readable:
  "readable t \<Longrightarrow> \<exists>ev. walk_tree d n t = (ev, True) \<and> length ev = files t"
  "readable_list es \<Longrightarrow> \<exists>ev. walk_list d es = (ev, True) \<and> length ev = files_list es"
  by (induction d n t and d es rule: walk_tree_walk_list.induct) force+

lemma number_total:
  "number S_IFREG ev + number S_IFDIR ev + number S_IFBLK ev + number S_IFCHR ev + number S_IFIFO ev +
   number S_IFLNK ev + number S_IFSOCK ev = int (length ev)"
proof (induction ev)
  case (Cons e ev)
  obtain d n m where "e = (d, n, m)" by (cases e)
  with Cons show ?case by (cases m) simp_all
qed simp

lemma nTotal_report: "nTotal (report ev ok (walk_start dir)) = int (length ev)"
  using number_total [of ev] by (simp add: nTotal_def report_def walk_start_def)

lemma files_pos: "0 < files t"
  by (cases t) auto

text \<open>The error of the roundings.\<close>

lemma nearest_even_error: "\<bar>of_int (nearest_even x) - x\<bar> \<le> 1 / 2"
proof -
  have "of_int \<lfloor>x\<rfloor> \<le> x" "x < of_int \<lfloor>x\<rfloor> + 1" by linarith+
  then show ?thesis by (auto simp: nearest_even_def Let_def abs_le_iff)
qed

lemma scale_up_large: "0 < x \<Longrightarrow> 2 ^ 52 \<le> x * 2 ^ scale_up x"
proof (induction x rule: scale_up.induct)
  case (1 x)
  then show ?case by (cases "2 ^ 52 \<le> x") (simp_all add: scale_up.simps [of x] mult.commute mult.left_commute)
qed

lemma scale_down_large: "2 ^ 52 \<le> x \<Longrightarrow> 2 ^ 52 \<le> x / 2 ^ scale_down x"
proof (induction x rule: scale_down.induct)
  case (1 x)
  then show ?case by (cases "x < 2 ^ 53") (simp_all add: scale_down.simps [of x])
qed

lemma scale_large:
  assumes "0 < x" shows "2 ^ 52 \<le> x * 2 ^ scale_up x / 2 ^ scale_down x"
proof (cases "x < 2 ^ 53")
  case True
  then have "scale_down x = 0" by (simp add: scale_down.simps)
  with scale_up_large [OF assms] show ?thesis by simp
next
  case False
  then have "scale_up x = 0" "2 ^ 52 \<le> x" by (simp_all add: scale_up.simps)
  with scale_down_large [of x] show ?thesis by simp
qed

lemma double_error:
  assumes "0 \<le> x" shows "\<bar>double_of x - x\<bar> \<le> x / 2 ^ 53"
proof (cases "x = 0")
  case True
  then show ?thesis by (simp add: double_of_def scale_up.simps scale_down.simps nearest_even_def)
next
  case False
  with assms have x: "0 < x" by simp
  let ?s = "2 ^ scale_up x / 2 ^ scale_down x :: rat"
  let ?m = "of_int (nearest_even (x * ?s)) :: rat"
  have s: "0 < ?s" by simp
  have large: "2 ^ 52 \<le> x * ?s" using scale_large [OF x] by (metis times_divide_eq_right)
  have "double_of x = ?m / ?s" by (simp add: double_of_def Let_def)
  then have "\<bar>double_of x - x\<bar> * ?s = \<bar>?m - x * ?s\<bar>" using s by (simp add: abs_mult_pos field_simps)
  also have "\<dots> \<le> 1 / 2" by (rule nearest_even_error)
  also have "\<dots> = 2 ^ 52 / 2 ^ 53" by simp
  also have "\<dots> \<le> x * ?s / 2 ^ 53" using large by (rule divide_right_mono) simp
  also have "\<dots> = x / 2 ^ 53 * ?s" by (simp only: times_divide_eq_left)
  finally show ?thesis using s by (simp only: mult_le_cancel_right_pos)
qed

lemma double_bounds:
  assumes "0 \<le> x"
  shows "x * (1 - 1 / 2 ^ 53) \<le> double_of x" "double_of x \<le> x * (1 + 1 / 2 ^ 53)"
proof -
  have "x * (1 - 1 / 2 ^ 53) = x - x / 2 ^ 53" "x * (1 + 1 / 2 ^ 53) = x + x / 2 ^ 53"
    by (simp_all only: right_diff_distrib distrib_left mult_1_right times_divide_eq_right)
  moreover have "x - d \<le> double_of x \<and> double_of x \<le> x + d" if "\<bar>double_of x - x\<bar> \<le> d" for d using that by auto
  ultimately show "x * (1 - 1 / 2 ^ 53) \<le> double_of x" "double_of x \<le> x * (1 + 1 / 2 ^ 53)"
    using double_error [OF assms] by metis+
qed

lemma double_nonneg: "0 \<le> x \<Longrightarrow> 0 \<le> double_of x"
  using double_bounds(1) [of x] by (rule order_trans [rotated]) simp_all

text \<open>The three roundings of a percentage together.\<close>

lemma percent_error:
  assumes n: "0 \<le> n" and total: "0 < printed_total w"
  defines "x \<equiv> of_int n * 100 / of_int (printed_total w)"
  shows "\<bar>percent n w - x\<bar> \<le> x / 2 ^ 50"
proof -
  let ?l = "1 - 1 / 2 ^ 53 :: rat" and ?u = "1 + 1 / 2 ^ 53 :: rat"
  let ?n = "of_int n :: rat" and ?t = "of_int (printed_total w) :: rat"
  let ?a = "double_of (double_of ?n * 100)" and ?b = "double_of ?t"
  have t: "0 < ?t" "0 \<le> ?n" "0 \<le> x" using n total by (simp_all add: x_def)
  note d = double_bounds [OF t(2)] double_nonneg [OF t(2)]
  have a: "double_of ?n * 100 * ?l \<le> ?a" "?a \<le> double_of ?n * 100 * ?u"
    using double_bounds [of "double_of ?n * 100"] d(3) by simp_all
  have b: "?t * ?l \<le> ?b" "?b \<le> ?t * ?u" using double_bounds [of ?t] t(1) by simp_all
  have low: "?n * ?l * 100 * ?l \<le> ?a" using a(1) d(1) by (elim order_trans [rotated]) (intro mult_right_mono; simp)
  have up: "?a \<le> ?n * ?u * 100 * ?u" using a(2) d(2) by (elim order_trans) (intro mult_right_mono; simp)
  have bpos: "0 < ?t * ?l" using t(1) by simp
  have "?a / ?b \<le> ?n * ?u * 100 * ?u / (?t * ?l)" using up b(1) bpos t(2) by (intro frac_le) simp_all
  also have "\<dots> = x * (?u * ?u / ?l)" by (simp add: x_def)
  finally have q1: "?a / ?b \<le> x * (?u * ?u / ?l)" .
  have "x * (?l * ?l / ?u) = ?n * ?l * 100 * ?l / (?t * ?u)" by (simp add: x_def)
  also have "\<dots> \<le> ?a / ?b" using low b bpos t(2) double_nonneg d(3) by (intro frac_le) simp_all
  finally have q2: "x * (?l * ?l / ?u) \<le> ?a / ?b" .
  have q: "0 \<le> ?a / ?b" using q2 by (rule order_trans [rotated]) (use t(3) in simp)
  have "percent n w \<le> ?a / ?b * ?u" "?a / ?b * ?l \<le> percent n w"
    using double_bounds [OF q] by (simp_all add: percent_def)
  then have "percent n w \<le> x * (?u * ?u / ?l) * ?u" "x * (?l * ?l / ?u) * ?l \<le> percent n w"
    using mult_right_mono [OF q1, of ?u] mult_right_mono [OF q2, of ?l] by simp_all
  moreover have "x * (?u * ?u / ?l) * ?u \<le> x * (1 + 1 / 2 ^ 50)" "x * (1 - 1 / 2 ^ 50) \<le> x * (?l * ?l / ?u) * ?l"
    unfolding mult.assoc using t(3) by (intro mult_left_mono; simp)+
  ultimately have "percent n w \<le> x * (1 + 1 / 2 ^ 50)" "x * (1 - 1 / 2 ^ 50) \<le> percent n w"
    by (blast intro: order_trans)+
  moreover have "x * (1 - 1 / 2 ^ 50) = x - x / 2 ^ 50" "x * (1 + 1 / 2 ^ 50) = x + x / 2 ^ 50"
    by (simp_all only: right_diff_distrib distrib_left mult_1_right times_divide_eq_right)
  moreover have "\<bar>p - x\<bar> \<le> d" if "p \<le> x + d" "x - d \<le> p" for p d :: rat using that by auto
  ultimately show ?thesis by metis
qed

lemma hundredths_error:
  assumes "0 \<le> n" "n \<le> printed_total w" "0 < printed_total w"
  shows "\<bar>of_int (hundredths (percent n w)) - of_int n * 10000 / of_int (printed_total w)\<bar> \<le> (51 / 100 :: rat)"
proof -
  let ?x = "of_int n * 100 / of_int (printed_total w) :: rat"
  have "?x \<le> 100" using assms by (simp add: divide_le_eq)
  then have "?x / 2 ^ 50 \<le> 100 / 2 ^ 50" by (rule divide_right_mono) simp
  also have "\<dots> \<le> 1 / 10000" by simp
  finally have "\<bar>percent n w - ?x\<bar> \<le> 1 / 10000" using percent_error [OF assms(1,3)] by (rule order_trans [rotated])
  moreover have "\<bar>of_int (hundredths (percent n w)) - percent n w * 100\<bar> \<le> 1 / 2"
    unfolding hundredths_def by (rule nearest_even_error)
  moreover have "of_int n * 10000 / of_int (printed_total w) = ?x * 100" by simp
  moreover have "\<bar>h - x * 100\<bar> \<le> 51 / 100" if "\<bar>p - x\<bar> \<le> 1 / 10000" "\<bar>h - p * 100\<bar> \<le> 1 / 2" for p h x :: rat
    using that by linarith
  ultimately show ?thesis by metis
qed

text \<open>Seven values, each near its share of 10000, have a sum near 10000.\<close>

lemma sum_near:
  fixes h :: "int \<Rightarrow> int" and t :: nat
  assumes near: "\<forall>c \<in> set cs. \<bar>of_int (h c) - of_int c * 10000 / of_nat t\<bar> \<le> (51 / 100 :: rat)"
    and sum: "sum_list cs = int t" and t: "0 < t" and len: "length cs = 7"
  shows "\<bar>of_int (sum_list (map h cs)) - 10000\<bar> < (4 :: rat)"
proof -
  have "\<bar>of_int (sum_list (map h ds)) - of_int (sum_list ds) * 10000 / of_nat t\<bar> \<le> of_nat (length ds) * (51 / 100 :: rat)"
    if "set ds \<subseteq> set cs" for ds
    using that
  proof (induction ds)
    case (Cons d ds)
    have add: "\<bar>(a + b) - (x + y)\<bar> \<le> p + q" if "\<bar>a - x\<bar> \<le> p" "\<bar>b - y\<bar> \<le> q" for a b x y p q :: rat
      using that by linarith
    have "\<bar>of_int (h d) - of_int d * 10000 / of_nat t\<bar> \<le> (51 / 100 :: rat)"
      "\<bar>of_int (sum_list (map h ds)) - of_int (sum_list ds) * 10000 / of_nat t\<bar> \<le> of_nat (length ds) * (51 / 100 :: rat)"
      using near Cons by simp_all
    from add [OF this] show ?case by (simp only: list.map sum_list.Cons of_int_add length_Cons of_nat_Suc
        distrib_right add_divide_distrib mult_1)
  qed simp
  from this [of cs] have "\<bar>of_int (sum_list (map h cs)) - 10000\<bar> * 100 \<le> (357 :: rat)"
    using t by (simp add: sum len)
  moreover have "\<bar>x\<bar> < 4" if "\<bar>x\<bar> * 100 \<le> 357" for x :: rat using that by linarith
  ultimately show ?thesis by blast
qed

text \<open>C17: the summary nearly adds up. For a tree that can be read and searched everywhere the program
  exits with 0, the total it prints is the number of files in the tree, and the counters of the seven
  types add up to it. Each percentage, computed in \<open>double\<close> and printed with two digits, is within 0.0051 of the exact
  one, so that the seven printed percentages add up to 100 with an error of at most 0.03.\<close>

theorem walk_summary:
  assumes "levels t \<le> fds" and "wf_node t" and "readable t" and "lookup fs (dir @ [n]) = Some t"
  shows "\<exists>rows. walk_main fds fs dir [[n]] = (Inr (rows, int (files t)), 0) \<and>
           sum_list (map fst rows) = int (files t) \<and> \<bar>sum_list (map snd rows) - 10000\<bar> \<le> 3 \<and>
           (\<forall>(c, h) \<in> set rows. \<bar>of_int h - of_int c * 10000 / of_nat (files t)\<bar> \<le> (51 / 100 :: rat))"
proof -
  obtain ev where ev: "walk_tree 0 n t = (ev, True)" "length ev = files t"
    using walk_readable(1) [OF assms(3)] by blast
  define w where "w = report ev True (walk_start dir)"
  let ?cs = "[nreg w, ndir w, nblk w, nchr w, nfifo w, nslink w, nsock w]"
  let ?h = "\<lambda>c. hundredths (percent c w)"
  have run: "dopath fds fs [n] 0 (walk_start dir) = (0, w)"
    using dopath_walk(1) [OF assms(1,2), of fs "walk_start dir" n 0] assms(4) ev(1)
    by (simp add: walked_def walk_start_def w_def)
  have nTotal: "nTotal w = int (files t)" by (simp add: w_def nTotal_report ev(2))
  have printed: "printed_total w = int (files t)" using files_pos [of t] by (simp add: printed_total_def nTotal)
  have total: "sum_list ?cs = int (files t)" using nTotal by (simp add: nTotal_def)
  have nonneg: "\<forall>c \<in> set ?cs. 0 \<le> c" by (simp add: w_def report_def walk_start_def number_def)
  have "\<bar>of_int (?h c) - of_int c * 10000 / of_nat (files t)\<bar> \<le> (51 / 100 :: rat)" if "c \<in> set ?cs" for c
  proof -
    have "0 \<le> c" "c \<le> int (files t)" using that nonneg total member_le_sum_list [of c ?cs] by auto
    then show ?thesis using hundredths_error [of c w] files_pos [of t] unfolding printed by simp
  qed
  then have near: "\<forall>c \<in> set ?cs. \<bar>of_int (?h c) - of_int c * 10000 / of_nat (files t)\<bar> \<le> (51 / 100 :: rat)" by blast
  have "\<bar>of_int (sum_list (map ?h ?cs)) - 10000\<bar> < (4 :: rat)"
    using files_pos [of t] by (intro sum_near [OF near total]) simp_all
  then have sum: "\<bar>sum_list (map ?h ?cs) - 10000\<bar> \<le> 3" by linarith
  define rows where "rows = map (\<lambda>n. (n, ?h n)) ?cs"
  have "map fst rows = ?cs" "map snd rows = map ?h ?cs" by (simp_all add: rows_def)
  moreover have "walk_main fds fs dir [[n]] = (Inr (rows, int (files t)), 0)"
    by (simp add: walk_main_def run printed rows_def)
  moreover have "\<forall>(c, h) \<in> set rows. \<bar>of_int h - of_int c * 10000 / of_nat (files t)\<bar> \<le> (51 / 100 :: rat)"
    using near by (auto simp: rows_def)
  ultimately show ?thesis using total sum by (intro exI [of _ rows]) simp
qed

text \<open>Three files of different types: three times 33.33.\<close>

theorem walk_summary_witness:
  "\<exists>rows. walk_main 5 (Dir True True [(''a'', Dir True True [(''b'', Leaf S_IFREG), (''c'', Leaf S_IFLNK)])])
             [] [[''a'']] = (Inr (rows, 3), 0) \<and> sum_list (map snd rows) = 9999"
proof -
  let ?t = "Dir True True [(''b'', Leaf S_IFREG), (''c'', Leaf S_IFLNK)]"
  obtain rows where rows: "walk_main 5 (Dir True True [(''a'', ?t)]) [] [[''a'']] = (Inr (rows, 3), 0)"
    and near: "\<forall>(c, h) \<in> set rows. \<bar>of_int h - of_int c * 10000 / of_nat 3\<bar> \<le> (51 / 100 :: rat)"
    using walk_summary [of ?t 5 "Dir True True [(''a'', ?t)]" "[]" "''a''"] by auto
  have h: "h = (if c = 0 then 0 else 3333)" if "(c, h) \<in> set rows" "c = 0 \<or> c = 1" for c h
  proof -
    have e: "\<bar>of_int h - of_int c * 10000 / 3\<bar> \<le> (51 / 100 :: rat)" using near that(1) by auto
    have "h < a + 1 \<and> a - 1 < h" if "\<bar>of_int h - x\<bar> \<le> (51 / 100 :: rat)" "\<bar>x - of_int a\<bar> \<le> 1 / 3" for x a
    proof -
      have "of_int h < (of_int a + 1 :: rat)" "of_int a - 1 < (of_int h :: rat)" using that by linarith+
      then show ?thesis by (metis of_int_1 of_int_add of_int_diff of_int_less_iff)
    qed
    from this [OF e, of "if c = 0 then 0 else 3333"] show ?thesis using that(2) by auto
  qed
  have counts: "map fst rows = [1, 1, 0, 0, 0, 1, 0]"
    using rows by (auto simp: walk_main_def numeral_eq_Suc dopath_body_def lstat_def walk_start_def chdir_def chdir_up_def)
  have "snd x = (if fst x = 0 then 0 else 3333)" if "x \<in> set rows" for x
  proof -
    have "fst x \<in> set (map fst rows)" using that by simp
    then have "fst x = 0 \<or> fst x = 1" unfolding counts by auto
    with that h [of "fst x" "snd x"] show ?thesis by simp
  qed
  then have "map snd rows = map (\<lambda>c. if c = 0 then 0 else 3333) (map fst rows)" by simp
  also have "\<dots> = [3333, 3333, 0, 0, 0, 3333, 0]" by (simp add: counts)
  finally have "sum_list (map snd rows) = 9999" by simp
  with rows show ?thesis by (intro exI [of _ rows]) simp
qed

text \<open>C18: a directory that can be read but not searched, and whose first entry has the name of the directory
  itself, is entered again and again. \<open>chdir\<close> fails, its
  result is not looked at, and the names read are looked up in the directory the walk is in: since the
  first of them is the name of the directory itself, the walk descends into the same directory until
  no file descriptor is left, having counted it once for every descriptor, and then fails.\<close>

theorem unsearchable_descends:
  assumes "lookup fs (cwd w @ [n]) = Some (Dir True False ((n, t) # es))"
    and "n \<noteq> ''.''" and "n \<noteq> ''..''"
  shows "\<exists>w'. dopath fds fs [n] d w = (-1, w') \<and> ndir w' = ndir w + int fds + 1"
  using assms(1)
proof (induction fds arbitrary: d w)
  case 0
  then show ?case by (simp add: dopath_body_def lstat_def)
next
  case (Suc k)
  let ?w1 = "w\<lparr>lines := lines w @ [indentation d @ ''-- '' @ n @ ''/''], ndir := ndir w + 1\<rparr>"
  have cd: "chdir fs [n] ?w1 = ?w1" using Suc.prems by (simp add: chdir_def)
  have "lookup fs (cwd ?w1 @ [n]) = Some (Dir True False ((n, t) # es))" using Suc.prems by simp
  from Suc.IH [OF this, of "Suc d"] obtain w' where w': "dopath k fs [n] (Suc d) ?w1 = (-1, w')"
    "ndir w' = ndir w + int (Suc k) + 1" by auto
  have stop: "read_entries f ns (-1) v = (-1, v)" for f ns v by (cases ns) auto
  have "dopath (Suc k) fs [n] d w = (-1, chdir_up w')"
    using Suc.prems assms(2,3) cd w'(1) by (simp add: dopath_body_def lstat_def stop)
  with w'(2) show ?case by (simp add: chdir_up_def)
qed

theorem unsearchable_descends_witness:
  "\<exists>w'. dopath 1000 (Dir True True [(''a'', Dir True False [(''a'', Leaf S_IFREG)])]) [''a''] 0 (walk_start []) = (-1, w') \<and>
        ndir w' = 1001"
  using unsearchable_descends [of "Dir True True [(''a'', Dir True False [(''a'', Leaf S_IFREG)])]"
      "walk_start []" "''a''" "Leaf S_IFREG" "[]" 1000 0]
  by (simp add: walk_start_def del: dopath.simps)

end
