(* ===== verification/Select_Server.thy ===== *)
theory Select_Server
  imports C_Strings
begin

text \<open>
  The TCP server of \<open>6-semestr/lab6/part_02/server.c\<close>: one process that waits with \<open>select\<close> for
  new connections and for messages of the connected clients. The functions \<open>connection\<close> and
  \<open>message\<close> and the loop of \<open>main\<close> are modelled; what the system calls return is a parameter of
  each iteration.
\<close>

section \<open>State\<close>

definition SIZE_BUFFER :: nat where "SIZE_BUFFER = 100"
definition CLIENTS :: nat where "CLIENTS = 100"
definition FD_SETSIZE :: nat where "FD_SETSIZE = 1024"

datatype server_line = Connected int | Disconnected int | Said int string

text \<open>
  \<open>client\<close>, \<open>allset\<close> and \<open>errno\<close> are part of the state; the stack buffers hold whatever was on
  the stack, given with each iteration.
\<close>

record server =
  sockfd :: int
  client :: "int list"
  allset :: "int list"
  maxi :: int
  maxfd :: int
  pid_client :: "int list"
  errno_of :: int
  log_of :: "server_line list"
  replies :: "(int \<times> string) list"

record server_io =
  io_select :: "int option"
  io_ready :: "int list"
  io_accept :: "int + int"
  io_read :: "int \<Rightarrow> int + char list"
  io_write :: "int \<Rightarrow> int"
  io_stack :: "char list"

definition FD_SET :: "int \<Rightarrow> int list \<Rightarrow> c_fault + int list" where
  "FD_SET fd fds =
     (if fd < 0 \<or> int FD_SETSIZE \<le> fd then Inl Out_Of_Bounds
      else Inr (if fd \<in> set fds then fds else fds @ [fd]))"

definition FD_CLR :: "int \<Rightarrow> int list \<Rightarrow> int list" where
  "FD_CLR fd fds = filter (\<lambda>x. x \<noteq> fd) fds"

text \<open>What a buffer of the stack holds after \<open>read\<close>; a failed \<open>read\<close> leaves it as it was.\<close>

definition read_into :: "char list \<Rightarrow> int + char list \<Rightarrow> char list" where
  "read_into stack r = (case r of Inl e \<Rightarrow> stack | Inr d \<Rightarrow> d @ drop (length d) stack)"

section \<open>\<open>connection\<close>\<close>

text \<open>
  The loop that looks for a free slot: it stores the descriptor in every free slot it passes and
  goes on as long as the next slot is occupied.
\<close>

function find_slot :: "int \<Rightarrow> nat \<Rightarrow> int list \<Rightarrow> c_fault + (nat \<times> int list)" where
  "find_slot connfd i cs =
     (if length cs \<le> i then Inl Out_Of_Bounds
      else let cs' = (if cs ! i < 0 then cs[i := connfd] else cs) in
        if length cs \<le> Suc i then Inl Out_Of_Bounds
        else if 0 \<le> cs' ! Suc i then find_slot connfd (Suc i) cs'
        else Inr (Suc i, cs'))"
  by pat_completeness auto

termination
  by (relation "measure (\<lambda>(c, i, cs). length cs - i)") (auto simp: Let_def)

definition connection :: "int list \<Rightarrow> server_io \<Rightarrow> server \<Rightarrow> c_fault + (int \<times> server)" where
  "connection rset io s =
     (if sockfd s \<notin> set rset then Inr (0, s)
      else case io_accept io of
        Inl e \<Rightarrow> Inr (e, s\<lparr>errno_of := e\<rparr>)
      | Inr connfd \<Rightarrow>
         (case find_slot connfd 0 (client s) of
            Inl f \<Rightarrow> Inl f
          | Inr (i, cs) \<Rightarrow>
             if i = FD_SETSIZE then Inr (errno_of s, s\<lparr>client := cs\<rparr>)
             else case FD_SET connfd (allset s) of
               Inl f \<Rightarrow> Inl f
             | Inr fds \<Rightarrow>
                (case atoi (read_into (io_stack io) (io_read io connfd)) of
                   Inl f \<Rightarrow> Inl f
                 | Inr pid \<Rightarrow>
                    (case store (pid_client s) (int i) pid of
                       Inl f \<Rightarrow> Inl f
                     | Inr pids \<Rightarrow>
                        Inr (0, s\<lparr>client := cs, allset := fds, maxfd := max (maxfd s) connfd,
                                  maxi := max (maxi s) (int i), pid_client := pids,
                                  errno_of := (case io_read io connfd of Inl e \<Rightarrow> e | Inr d \<Rightarrow> errno_of s),
                                  log_of := log_of s @ [Connected pid]\<rparr>)))))"

section \<open>\<open>message\<close>\<close>

text \<open>One slot. \<open>read\<close> returning 0 is the end of the connection; an error is taken for a message.\<close>

definition message_slot :: "nat \<Rightarrow> int list \<Rightarrow> server_io \<Rightarrow> server \<Rightarrow> c_fault + server" where
  "message_slot i rset io s =
     (case load (client s) (int i) of
        Inl f \<Rightarrow> Inl f
      | Inr fd \<Rightarrow>
         if \<not> (0 < fd \<and> fd \<in> set rset) then Inr s
         else case load (pid_client s) (int i) of
           Inl f \<Rightarrow> Inl f
         | Inr pid \<Rightarrow>
            if io_read io fd = Inr []
            then Inr (s\<lparr>allset := FD_CLR fd (allset s), client := (client s)[i := -1],
                        log_of := log_of s @ [Disconnected pid]\<rparr>)
            else let buffer = read_into (io_stack io) (io_read io fd);
                     e1 = (case io_read io fd of Inl e \<Rightarrow> e | Inr d \<Rightarrow> errno_of s);
                     e2 = (if io_write io fd \<noteq> 0 then io_write io fd else e1) in
              case c_strlen buffer of
                Inl f \<Rightarrow> Inl f
              | Inr n \<Rightarrow> Inr (s\<lparr>errno_of := e2, replies := replies s @ [(fd, ''good'')],
                               log_of := log_of s @ [Said pid (take n buffer)]\<rparr>))"

fun message_loop :: "nat list \<Rightarrow> int list \<Rightarrow> server_io \<Rightarrow> server \<Rightarrow> c_fault + server" where
  "message_loop [] rset io s = Inr s"
| "message_loop (i # is) rset io s =
     (case message_slot i rset io s of Inl f \<Rightarrow> Inl f | Inr t \<Rightarrow> message_loop is rset io t)"

definition message :: "int list \<Rightarrow> server_io \<Rightarrow> server \<Rightarrow> c_fault + (int \<times> server)" where
  "message rset io s =
     (case message_loop [0..<nat (maxi s + 1)] rset io s of Inl f \<Rightarrow> Inl f | Inr t \<Rightarrow> Inr (0, t))"

section \<open>\<open>main\<close>\<close>

text \<open>
  \<open>socket\<close> gives a descriptor or an error; the values of \<open>errno\<close> after \<open>bind\<close> and \<open>listen\<close>. The
  result is the exit value or the state in which the loop starts.
\<close>

definition server_main :: "nat \<Rightarrow> int + int \<Rightarrow> int \<Rightarrow> int \<Rightarrow> int + server" where
  "server_main argc socket bind_errno listen_errno =
     (if argc \<noteq> 2 then Inl (-1)
      else case socket of
        Inl e \<Rightarrow> Inl e
      | Inr fd \<Rightarrow>
         if bind_errno \<noteq> 0 then Inl bind_errno
         else Inr \<lparr>sockfd = fd, client = replicate FD_SETSIZE (-1), allset = [fd], maxi = -1, maxfd = fd,
                   pid_client = replicate CLIENTS 0, errno_of = listen_errno, log_of = [], replies = []\<rparr>)"

datatype server_result = Serving server | Exited_with int | Crashed c_fault

text \<open>
  One turn of the loop; \<open>select\<close> leaves in \<open>rset\<close> the descriptors that are ready. Its result is not looked at:
  when it fails (\<open>io_select\<close> is the error then), \<open>rset\<close> still has all descriptors, and \<open>connection\<close> is called
  before \<open>errno\<close> is tested.
\<close>

definition server_turn :: "server_io \<Rightarrow> server \<Rightarrow> server_result" where
  "server_turn io s =
     (let (rset, s') = (case io_select io of
             None \<Rightarrow> (filter (\<lambda>fd. fd \<in> set (io_ready io)) (allset s), s)
           | Some e \<Rightarrow> (allset s, s\<lparr>errno_of := e\<rparr>)) in
      case connection rset io s' of
        Inl f \<Rightarrow> Crashed f
      | Inr (r, t) \<Rightarrow>
         if errno_of t \<noteq> 0 then Exited_with (errno_of t)
         else case message rset io t of
           Inl f \<Rightarrow> Crashed f
         | Inr (r', u) \<Rightarrow> if errno_of u \<noteq> 0 then Exited_with (errno_of u) else Serving u)"

text \<open>\<open>close_signal\<close>: the handler of SIGINT; its argument is \<open>errno\<close> after a failed \<open>close\<close>, or 0.\<close>

definition close_signal :: "int \<Rightarrow> string option \<times> int" where
  "close_signal e = (if e \<noteq> 0 then (None, e) else (Some ''Socket closed'', 0))"

declare find_slot.simps [simp del]

section \<open>What the system calls promise\<close>

text \<open>
  A new descriptor is one that is not open, \<open>read\<close> gives at most what the buffer takes, a failed
  call sets \<open>errno\<close>, the stack buffer has \<open>SIZE_BUFFER\<close> bytes.
\<close>

definition io_ok :: "server \<Rightarrow> server_io \<Rightarrow> bool" where
  "io_ok s io \<longleftrightarrow>
     (case io_accept io of Inl e \<Rightarrow> e \<noteq> 0 | Inr fd \<Rightarrow> 0 < fd \<and> fd \<notin> set (allset s)) \<and>
     (\<forall>fd. case io_read io fd of Inl e \<Rightarrow> e \<noteq> 0 | Inr d \<Rightarrow> length d \<le> SIZE_BUFFER) \<and>
     io_select io \<noteq> Some 0 \<and> length (io_stack io) = SIZE_BUFFER"

inductive server_step :: "server \<Rightarrow> server \<Rightarrow> bool" where
  "io_ok s io \<Longrightarrow> server_turn io s = Serving t \<Longrightarrow> server_step s t"

definition server_init :: "server \<Rightarrow> bool" where
  "server_init s \<longleftrightarrow> (\<exists>fd. 0 < fd \<and> server_main 2 (Inr fd) 0 0 = Inr s)"

abbreviation server_reachable :: "server \<Rightarrow> bool" where
  "server_reachable \<equiv> reachable server_init server_step"

section \<open>Only slot 0 is ever used\<close>

text \<open>All slots but the first, when they are free.\<close>

definition free_slots :: "int list" where
  "free_slots = replicate 1023 (-1)"

lemma all_slots_free: "replicate FD_SETSIZE (-1) = -1 # free_slots"
proof -
  have size: "FD_SETSIZE = Suc 1023" by (simp add: FD_SETSIZE_def)
  show ?thesis unfolding size by (simp only: free_slots_def replicate_Suc)
qed

lemma free_slots_first [simp]: "free_slots ! 0 = -1" "length free_slots = 1023"
  by (simp_all add: free_slots_def)

fun line_ok :: "server_line \<Rightarrow> bool" where
  "line_ok (Connected pid) = True"
| "line_ok (Disconnected pid) = (pid = 0)"
| "line_ok (Said pid text) = (pid = 0)"

definition slots_inv :: "server \<Rightarrow> bool" where
  "slots_inv s \<longleftrightarrow>
     (\<exists>c. client s = c # free_slots \<and> (c = -1 \<or> 0 < c \<and> c \<in> set (allset s) \<and> c \<noteq> sockfd s)) \<and>
     (maxi s = -1 \<or> maxi s = 1) \<and> sockfd s \<in> set (allset s) \<and>
     (\<exists>pids. pid_client s = 0 # pids \<and> length pids = 99) \<and> list_all line_ok (log_of s)"

lemma slots_inv_errno: "slots_inv (s\<lparr>errno_of := e\<rparr>) = slots_inv s"
  by (simp add: slots_inv_def)

lemma all_clients_zero: "replicate CLIENTS 0 = 0 # replicate 99 0"
proof -
  have size: "CLIENTS = Suc 99" by (simp add: CLIENTS_def)
  show ?thesis unfolding size by (simp only: replicate_Suc)
qed

lemma find_slot_first:
  "find_slot fd 0 (c # free_slots) =
     Inr (1, (if c < 0 then fd else c) # free_slots)"
  by (subst find_slot.simps) (simp add: Let_def)

lemma FD_SET_fresh: "FD_SET fd fds = Inr fds' \<Longrightarrow> set fds' = insert fd (set fds)"
  by (auto simp: FD_SET_def split: if_splits)

lemma FD_CLR_set [simp]: "set (FD_CLR fd fds) = set fds - {fd}"
  by (auto simp: FD_CLR_def)

text \<open>The effect of \<open>connection\<close>.\<close>

lemma connection_cases:
  assumes inv: "slots_inv s" and io: "io_ok s io" and c: "connection rset io s = Inr (r, t)"
  obtains "sockfd s \<notin> set rset" "t = s"
  | e where "io_accept io = Inl e" "t = s\<lparr>errno_of := e\<rparr>" "e \<noteq> 0"
  | fd pid fds where "io_accept io = Inr fd" "fd \<notin> set (allset s)" "0 < fd"
      "set fds = insert fd (set (allset s))"
      "t = s\<lparr>client := (if client s ! 0 < 0 then fd else client s ! 0) # free_slots,
             allset := fds, maxfd := max (maxfd s) fd, maxi := 1,
             pid_client := (pid_client s)[1 := pid],
             errno_of := (case io_read io fd of Inl e \<Rightarrow> e | Inr d \<Rightarrow> errno_of s),
             log_of := log_of s @ [Connected pid]\<rparr>"
proof (cases "sockfd s \<in> set rset")
  case False
  then have "connection rset io s = Inr (0, s)" by (simp add: connection_def)
  with c have "t = s" by simp
  with False show thesis by (rule that(1))
next
  case True
  show thesis
  proof (cases "io_accept io")
    case (Inl e)
    with True have "connection rset io s = Inr (e, s\<lparr>errno_of := e\<rparr>)" by (simp add: connection_def)
    with c have "t = s\<lparr>errno_of := e\<rparr>" by (metis Inr_inject prod.inject)
    moreover have "e \<noteq> 0" using io Inl by (simp add: io_ok_def)
    ultimately show thesis by (rule that(2) [OF Inl])
  next
    case (Inr fd)
    obtain x where x: "client s = x # free_slots" using inv by (auto simp: slots_inv_def)
    from inv have m: "max (maxi s) 1 = 1" by (auto simp: slots_inv_def)
    let ?cs = "(if x < 0 then fd else x) # free_slots"
    have slot: "find_slot fd 0 (client s) = Inr (1, ?cs)" unfolding x by (rule find_slot_first)
    obtain fds where f: "FD_SET fd (allset s) = Inr fds"
      using True Inr c slot by (cases "FD_SET fd (allset s)") (simp_all add: connection_def FD_SETSIZE_def)
    obtain pid where pid: "atoi (read_into (io_stack io) (io_read io fd)) = Inr pid"
      using True Inr c slot f
      by (cases "atoi (read_into (io_stack io) (io_read io fd))") (simp_all add: connection_def FD_SETSIZE_def)
    obtain pids where p: "store (pid_client s) 1 pid = Inr pids"
      using True Inr c slot f pid by (cases "store (pid_client s) 1 pid") (simp_all add: connection_def FD_SETSIZE_def)
    have t: "t = s\<lparr>client := ?cs, allset := fds, maxfd := max (maxfd s) fd, maxi := 1, pid_client := pids,
             errno_of := (case io_read io fd of Inl e \<Rightarrow> e | Inr d \<Rightarrow> errno_of s),
             log_of := log_of s @ [Connected pid]\<rparr>"
      using True Inr c slot f pid p m by (simp add: connection_def FD_SETSIZE_def)
    have "pids = (pid_client s)[1 := pid]" using p by (auto simp: store_def split: if_splits)
    with t x have "t = s\<lparr>client := (if client s ! 0 < 0 then fd else client s ! 0) # free_slots,
             allset := fds, maxfd := max (maxfd s) fd, maxi := 1,
             pid_client := (pid_client s)[1 := pid],
             errno_of := (case io_read io fd of Inl e \<Rightarrow> e | Inr d \<Rightarrow> errno_of s),
             log_of := log_of s @ [Connected pid]\<rparr>" by (simp only: nth_Cons_0)
    moreover have "fd \<notin> set (allset s)" "0 < fd" using io Inr by (simp_all add: io_ok_def)
    ultimately show thesis by (intro that(3) [OF Inr _ _ FD_SET_fresh [OF f]])
  qed
qed

text \<open>The effect of \<open>message\<close>: only slot 0 counts.\<close>

lemma message_slot_cases:
  assumes inv: "slots_inv s" and m: "message_slot 0 rset io s = Inr t"
  obtains "t = s"
  | c where "client s ! 0 = c" "0 < c" "c \<in> set rset" "io_read io c = Inr []"
      "t = s\<lparr>allset := FD_CLR c (allset s), client := -1 # free_slots,
             log_of := log_of s @ [Disconnected 0]\<rparr>"
  | c e msg where "client s ! 0 = c" "0 < c" "c \<in> set rset" "io_read io c \<noteq> Inr []"
      "t = s\<lparr>errno_of := e, replies := replies s @ [(c, ''good'')],
             log_of := log_of s @ [Said 0 msg]\<rparr>"
proof -
  obtain c where c: "client s = c # free_slots" using inv by (auto simp: slots_inv_def)
  have l: "load (client s) (int 0) = Inr c" "load (pid_client s) (int 0) = Inr 0" "client s ! 0 = c"
    using inv c by (auto simp: slots_inv_def load_def)
  show thesis
  proof (cases "0 < c \<and> c \<in> set rset")
    case False
    with m l that(1) show thesis by (simp add: message_slot_def)
  next
    case True
    show thesis
    proof (cases "io_read io c = Inr []")
      case True': True
      with True m l c have "t = s\<lparr>allset := FD_CLR c (allset s), client := -1 # free_slots,
             log_of := log_of s @ [Disconnected 0]\<rparr>" by (simp add: message_slot_def)
      with True True' l(3) show thesis by (intro that(2)) simp_all
    next
      case False
      with True m l obtain e n where "t = s\<lparr>errno_of := e, replies := replies s @ [(c, ''good'')],
             log_of := log_of s @ [Said 0 (take n (read_into (io_stack io) (io_read io c)))]\<rparr>"
        by (auto simp: message_slot_def Let_def split: sum.splits)
      with True False l(3) show thesis by (intro that(3)) simp_all
    qed
  qed
qed

lemma slots_inv_slot:
  assumes inv: "slots_inv s" and m: "message_slot 0 rset io s = Inr t"
  shows "slots_inv t"
  using inv m
proof (cases rule: message_slot_cases)
  case (2 c)
  then show ?thesis using inv by (auto simp: slots_inv_def)
qed (use inv in \<open>simp_all add: slots_inv_def\<close>)

lemma message_eq:
  assumes inv: "slots_inv s" and m: "message rset io s = Inr (r, t)"
  shows "t = s \<or> message_slot 0 rset io s = Inr t"
proof -
  have slot1: "message_slot 1 rset io u = Inr u" if u: "slots_inv u" for u
  proof -
    obtain c where "client u = c # free_slots" using u by (auto simp: slots_inv_def)
    then have "load (client u) (int 1) = Inr (-1)" by (simp add: load_def)
    then show ?thesis by (simp add: message_slot_def)
  qed
  have "maxi s = -1 \<or> maxi s = 1" using inv by (simp add: slots_inv_def)
  then show ?thesis
  proof
    assume "maxi s = -1"
    with m show ?thesis by (simp add: message_def)
  next
    assume "maxi s = 1"
    then have list: "[0..<nat (maxi s + 1)] = [0, 1]" by (simp add: upt_rec)
    show ?thesis
    proof (cases "message_slot 0 rset io s")
      case (Inr u)
      with m list slot1 [OF slots_inv_slot [OF inv Inr]] show ?thesis by (simp add: message_def)
    qed (use m list in \<open>simp add: message_def\<close>)
  qed
qed

lemma slots_inv_connection:
  assumes inv: "slots_inv s" and io: "io_ok s io" and c: "connection rset io s = Inr (r, t)"
  shows "slots_inv t"
  using inv io c
proof (cases rule: connection_cases)
  case (3 fd pid fds)
  obtain x pids where s: "client s = x # free_slots" "pid_client s = 0 # pids" "length pids = 99"
    "x = -1 \<or> 0 < x \<and> x \<in> set (allset s) \<and> x \<noteq> sockfd s" "sockfd s \<in> set (allset s)"
    "list_all line_ok (log_of s)"
    using inv by (auto simp: slots_inv_def)
  have "fd \<noteq> sockfd s" using 3(2) s(5) by blast
  then have slot: "(if x < 0 then fd else x) = -1 \<or> 0 < (if x < 0 then fd else x) \<and>
      (if x < 0 then fd else x) \<in> set fds \<and> (if x < 0 then fd else x) \<noteq> sockfd s"
    using s(4) 3(3,4) by (cases "x < 0") simp_all
  have "(0 # pids)[1 := pid] = 0 # pids[0 := pid]" by simp
  with slot s(3,5,6) 3(4) show ?thesis
    unfolding slots_inv_def 3(5) s(1,2) by (cases "x < 0") simp_all
next
  case 1
  with inv show ?thesis by simp
next
  case (2 e)
  with inv show ?thesis by (simp add: slots_inv_errno)
qed

lemma slots_inv_message:
  "slots_inv s \<Longrightarrow> message rset io s = Inr (r, t) \<Longrightarrow> slots_inv t"
  using message_eq slots_inv_slot by blast

text \<open>No call clears \<open>errno\<close>, so the server does not go on after a failed \<open>select\<close>.\<close>

lemma connection_errno:
  assumes "connection rset io s = Inr (r, t)" "io_ok s io" "errno_of s \<noteq> 0" shows "errno_of t \<noteq> 0"
proof (cases "sockfd s \<in> set rset")
  case True
  show ?thesis
  proof (cases "io_accept io")
    case (Inl e)
    with assms True show ?thesis by (auto simp: connection_def io_ok_def)
  next
    case (Inr fd)
    have "case io_read io fd of Inl e \<Rightarrow> e \<noteq> 0 | Inr d \<Rightarrow> True" using assms(2) by (auto simp: io_ok_def split: sum.splits)
    with assms(1,3) True Inr show ?thesis
      by (auto simp: connection_def split: sum.splits if_splits)
  qed
qed (use assms in \<open>auto simp: connection_def\<close>)

lemma server_turnE:
  assumes "server_turn io s = Serving u" "io_ok s io"
  obtains r t r' where "connection (filter (\<lambda>fd. fd \<in> set (io_ready io)) (allset s)) io s = Inr (r, t)"
    "errno_of t = 0" "message (filter (\<lambda>fd. fd \<in> set (io_ready io)) (allset s)) io t = Inr (r', u)" "errno_of u = 0"
proof (cases "io_select io")
  case None
  with assms(1) that show thesis by (auto simp: server_turn_def Let_def split: sum.splits if_splits)
next
  case (Some e)
  let ?s = "s\<lparr>errno_of := e\<rparr>"
  have "io_ok ?s io" "errno_of ?s \<noteq> 0"
    using assms(2) Some by (auto simp: io_ok_def split: sum.splits)
  with assms(1) Some connection_errno [of "allset s" io ?s] show thesis
    by (auto simp: server_turn_def Let_def split: sum.splits if_splits)
qed

interpretation server: invariant server_init server_step slots_inv
proof unfold_locales
  show "slots_inv s" if "server_init s" for s
    using that
    by (auto simp: server_init_def server_main_def slots_inv_def all_slots_free all_clients_zero)
  show "slots_inv t" if "slots_inv s" "server_step s t" for s t
    using that(2)
  proof cases
    case (1 io)
    from 1(2,1) show ?thesis
      by (rule server_turnE) (use that(1) 1(1) slots_inv_connection slots_inv_message in blast)
  qed
qed

section \<open>Descriptors without a slot\<close>

definition leaked :: "int \<Rightarrow> server \<Rightarrow> bool" where
  "leaked fd s \<longleftrightarrow> fd \<in> set (allset s) \<and> fd \<notin> set (client s) \<and> fd \<noteq> sockfd s"

definition replies_to :: "int \<Rightarrow> server \<Rightarrow> (int \<times> string) list" where
  "replies_to fd s = filter (\<lambda>r. fst r = fd) (replies s)"

lemma first_slot: "slots_inv s \<Longrightarrow> client s = client s ! 0 # free_slots"
  by (auto simp: slots_inv_def)

lemma set_free_slots [simp]: "set free_slots = {-1}"
  by (simp add: free_slots_def)

lemma leaked_message:
  assumes inv: "slots_inv s" and l: "leaked fd s" and fd: "0 < fd" and m: "message rset io s = Inr (r, t)"
  shows "leaked fd t \<and> replies_to fd t = replies_to fd s"
proof -
  have c: "set (client s) = {client s ! 0, -1}" using arg_cong [OF first_slot [OF inv], of set] by auto
  have "t = s \<or> message_slot 0 rset io s = Inr t" by (rule message_eq [OF inv m])
  then show ?thesis
  proof
    assume "message_slot 0 rset io s = Inr t"
    with inv show ?thesis
    proof (cases rule: message_slot_cases)
      case (2 c)
      with l fd c show ?thesis by (simp add: leaked_def replies_to_def)
    next
      case (3 c e msg)
      with l fd c show ?thesis by (simp add: leaked_def replies_to_def)
    qed (use l in simp)
  qed (use l in simp)
qed

lemma leaked_connection:
  assumes inv: "slots_inv s" and io: "io_ok s io" and l: "leaked fd s" and fd: "0 < fd"
    and c: "connection rset io s = Inr (r, t)"
  shows "leaked fd t \<and> replies_to fd t = replies_to fd s"
  using inv io c
proof (cases rule: connection_cases)
  case (3 x pid fds)
  have s: "set (client s) = {client s ! 0, -1}" using arg_cong [OF first_slot [OF inv], of set] by auto
  have "x \<noteq> fd" using 3(2) l by (auto simp: leaked_def)
  with l s fd 3(4) show ?thesis
    unfolding 3(5) by (cases "client s ! 0 < 0") (simp_all add: leaked_def replies_to_def)
qed (use l in \<open>simp_all add: leaked_def replies_to_def\<close>)

interpretation leak: invariant
    "\<lambda>s. slots_inv s \<and> 0 < fd \<and> leaked fd s \<and> replies_to fd s = rs" server_step
    "\<lambda>s. slots_inv s \<and> 0 < fd \<and> leaked fd s \<and> replies_to fd s = rs" for fd rs
proof unfold_locales
  show "slots_inv u \<and> 0 < fd \<and> leaked fd u \<and> replies_to fd u = rs"
    if inv: "slots_inv s \<and> 0 < fd \<and> leaked fd s \<and> replies_to fd s = rs" and st: "server_step s u" for s u
    using st
  proof cases
    case (1 io)
    from 1(2,1) obtain r t r' where
      c: "connection (filter (\<lambda>fd. fd \<in> set (io_ready io)) (allset s)) io s = Inr (r, t)" and
      m: "message (filter (\<lambda>fd. fd \<in> set (io_ready io)) (allset s)) io t = Inr (r', u)"
      by (rule server_turnE)
    have t: "slots_inv t" "leaked fd t \<and> replies_to fd t = rs"
      using inv slots_inv_connection [OF _ 1(1) c] leaked_connection [OF _ 1(1) _ _ c] by auto
    then show ?thesis using inv slots_inv_message [OF t(1) m] leaked_message [OF t(1) _ _ m] by auto
  qed
qed

section \<open>Properties\<close>

definition server_fresh :: server where
  "server_fresh = \<lparr>sockfd = 3, client = -1 # free_slots, allset = [3], maxi = -1, maxfd = 3,
     pid_client = 0 # replicate 99 0, errno_of = 0, log_of = [], replies = []\<rparr>"

lemma server_fresh_init: "server_init server_fresh"
  by (auto simp: server_fresh_def server_init_def server_main_def all_slots_free all_clients_zero
      intro!: exI [of _ 3])

lemma server_fresh_reachable: "server_reachable server_fresh"
  by (rule reach_init) (rule server_fresh_init)

text \<open>A client that connects as descriptor \<open>fd\<close> and sends the process number 7.\<close>

definition connect_io :: "int \<Rightarrow> server_io" where
  "connect_io fd = \<lparr>io_select = None, io_ready = [3], io_accept = Inr fd, io_read = (\<lambda>_. Inr ''7''), io_write = (\<lambda>_. 0),
     io_stack = replicate 100 nul\<rparr>"

lemma connect_select: "io_select (connect_io fd) = None"
  by (simp add: connect_io_def)

lemma connect_io_ok: "0 < fd \<Longrightarrow> fd \<notin> set (allset s) \<Longrightarrow> io_ok s (connect_io fd)"
  by (simp add: io_ok_def connect_io_def SIZE_BUFFER_def)

lemma connection_eq:
  assumes "sockfd s \<in> set rset" "io_accept io = Inr fd" "find_slot fd 0 (client s) = Inr (i, cs)"
    "i \<noteq> FD_SETSIZE" "FD_SET fd (allset s) = Inr fds"
    "atoi (read_into (io_stack io) (io_read io fd)) = Inr pid" "store (pid_client s) (int i) pid = Inr pids"
  shows "connection rset io s = Inr (0, s\<lparr>client := cs, allset := fds, maxfd := max (maxfd s) fd,
     maxi := max (maxi s) (int i), pid_client := pids,
     errno_of := (case io_read io fd of Inl e \<Rightarrow> e | Inr d \<Rightarrow> errno_of s),
     log_of := log_of s @ [Connected pid]\<rparr>)"
  using assms by (simp add: connection_def)

lemma connect_pid: "atoi (read_into (io_stack (connect_io fd)) (io_read (connect_io fd) fd)) = Inr 7"
proof -
  have "replicate 99 nul = nul # replicate 98 nul" by (simp add: numeral_eq_Suc)
  then show ?thesis by (simp add: connect_io_def read_into_def is_digit_def nul_def)
qed

definition server_busy :: server where
  "server_busy = server_fresh\<lparr>client := 4 # free_slots, allset := [3, 4], maxfd := 4, maxi := 1,
     pid_client := 0 # 7 # replicate 98 0, log_of := [Connected 7]\<rparr>"

lemma store_pid: "store (0 # replicate 99 0) 1 (v :: int) = Inr (0 # v # replicate 98 0)"
proof -
  have pids: "replicate 99 (0::int) = 0 # replicate 98 0" by (simp add: numeral_eq_Suc)
  show ?thesis unfolding pids by (simp add: store_def)
qed

lemma server_first_connects: "server_turn (connect_io 4) server_fresh = Serving server_busy"
proof -
  have rset: "filter (\<lambda>fd. fd \<in> set (io_ready (connect_io 4))) (allset server_fresh) = [3]"
    by (simp add: connect_io_def server_fresh_def)
  have slot: "find_slot 4 0 (client server_fresh) = Inr (1, 4 # free_slots)"
    by (simp add: server_fresh_def find_slot_first)
  have pids: "store (pid_client server_fresh) (int 1) 7 = Inr (0 # 7 # replicate 98 0)"
    using store_pid by (simp add: server_fresh_def)
  have fds: "FD_SET 4 (allset server_fresh) = Inr [3, 4]"
    by (simp add: FD_SET_def FD_SETSIZE_def server_fresh_def)
  have conn: "connection [3] (connect_io 4) server_fresh = Inr (0, server_busy)"
    by (subst connection_eq [OF _ _ slot _ fds connect_pid pids])
       (simp_all add: connect_io_def server_fresh_def server_busy_def FD_SETSIZE_def)
  have "message [3] (connect_io 4) server_busy = Inr (0, server_busy)"
    by (simp add: message_def message_slot_def server_busy_def server_fresh_def load_def upt_rec)
  with conn show ?thesis
    by (simp add: server_turn_def rset connect_select del: filter.simps) (simp add: server_busy_def server_fresh_def)
qed

lemma server_busy_reachable: "server_reachable server_busy"
  by (rule reach_step [OF server_fresh_reachable server_step.intros [OF connect_io_ok server_first_connects]])
     (simp_all add: server_fresh_def)

text \<open>C19: the table of clients has one slot. In every reachable state of the server all slots of
  \<open>client\<close> but the first are free, \<open>maxi\<close> is -1 or 1, and every message and every end of a
  connection is logged with process number 0, since the number a client sends is stored under the
  index after its slot.\<close>

theorem server_one_slot:
  assumes "server_reachable s" and "0 < i" and "i < FD_SETSIZE"
  shows "client s ! i = -1 \<and> maxi s \<in> {-1, 1} \<and> list_all line_ok (log_of s) \<and> pid_client s ! 0 = 0"
proof -
  have inv: "slots_inv s" using assms(1) by (rule server.reachable_inv)
  then obtain c where "client s = c # free_slots" by (auto simp: slots_inv_def)
  moreover have "free_slots ! (i - 1) = -1" using assms(2,3) by (simp add: free_slots_def FD_SETSIZE_def)
  ultimately show ?thesis using inv assms(2) by (auto simp: slots_inv_def nth_Cons')
qed

theorem server_one_slot_witness:
  "client server_busy ! 7 = -1 \<and> pid_client server_busy ! 0 = 0"
  using server_one_slot [OF server_busy_reachable, of 7] by (simp add: FD_SETSIZE_def)

text \<open>C20: the second client is never served. When a client is connected and another one is accepted,
  the new descriptor gets no slot: in every later state it is still waited for by \<open>select\<close>, is in no
  slot, and has never been answered.\<close>

theorem server_second_client_ignored:
  assumes "server_reachable s" and "0 < client s ! 0" and "io_ok s io"
    and "sockfd s \<in> set (io_ready io)" and "io_accept io = Inr fd"
    and "server_turn io s = Serving t" and "steps server_step n t u"
  shows "fd \<in> set (allset u) \<and> fd \<notin> set (client u) \<and> replies_to fd u = replies_to fd s"
proof -
  have inv: "slots_inv s" using assms(1) by (rule server.reachable_inv)
  let ?rset = "filter (\<lambda>fd. fd \<in> set (io_ready io)) (allset s)"
  have fd: "0 < fd" "fd \<notin> set (allset s)" using assms(3,5) by (auto simp: io_ok_def)
  from assms(6,3) obtain r s1 r' where c: "connection ?rset io s = Inr (r, s1)" "errno_of s1 = 0"
    and m: "message ?rset io s1 = Inr (r', t)" by (rule server_turnE)
  have ready: "sockfd s \<in> set ?rset" using inv assms(4) by (simp add: slots_inv_def)
  have inv1: "slots_inv s1" by (rule slots_inv_connection [OF inv assms(3) c(1)])
  have known: "client s ! 0 \<in> set (allset s)" "sockfd s \<in> set (allset s)"
    using inv assms(2) by (auto simp: slots_inv_def)
  have "leaked fd s1 \<and> replies_to fd s1 = replies_to fd s"
    using inv assms(3) c(1)
  proof (cases rule: connection_cases)
    case (3 x pid fds)
    then have "x = fd" using assms(5) by simp
    with 3(4) fd known assms(2) show ?thesis
      unfolding 3(5) by (auto simp: leaked_def replies_to_def)
  qed (use ready assms(5) in simp_all)
  then have "leaked fd t \<and> replies_to fd t = replies_to fd s" "slots_inv t"
    using leaked_message [OF inv1 _ fd(1) m] slots_inv_message [OF inv1 m] by auto
  then have "slots_inv u \<and> 0 < fd \<and> leaked fd u \<and> replies_to fd u = replies_to fd s"
    using leak.steps_inv [OF assms(7)] fd(1) by blast
  then show ?thesis by (simp add: leaked_def)
qed

theorem server_second_client_ignored_witness:
  "\<exists>t. server_turn (connect_io 5) server_busy = Serving t \<and> 5 \<in> set (allset t) \<and> 5 \<notin> set (client t)"
proof -
  have rset: "filter (\<lambda>fd. fd \<in> set (io_ready (connect_io 5))) (allset server_busy) = [3]"
    by (simp add: connect_io_def server_busy_def)
  let ?t = "server_busy\<lparr>allset := [3, 4, 5], maxfd := 5, log_of := [Connected 7, Connected 7]\<rparr>"
  have slot: "find_slot 5 0 (client server_busy) = Inr (1, 4 # free_slots)"
    by (simp add: server_busy_def find_slot_first)
  have pids: "store (pid_client server_busy) (int 1) 7 = Inr (0 # 7 # replicate 98 0)"
    by (simp add: server_busy_def store_def)
  have fds: "FD_SET 5 (allset server_busy) = Inr [3, 4, 5]"
    by (simp add: FD_SET_def FD_SETSIZE_def server_busy_def)
  have conn: "connection [3] (connect_io 5) server_busy = Inr (0, ?t)"
    by (subst connection_eq [OF _ _ slot _ fds connect_pid pids])
       (simp_all add: connect_io_def server_fresh_def server_busy_def FD_SETSIZE_def)
  have "message [3] (connect_io 5) ?t = Inr (0, ?t)"
    by (simp add: message_def message_slot_def server_busy_def server_fresh_def load_def upt_rec)
  with conn have turn: "server_turn (connect_io 5) server_busy = Serving ?t"
    by (simp add: server_turn_def rset connect_select del: filter.simps) (simp add: server_busy_def server_fresh_def)
  have "io_ok server_busy (connect_io 5)" by (rule connect_io_ok) (simp_all add: server_busy_def)
  from server_second_client_ignored [OF server_busy_reachable _ this _ _ turn steps_0, of 5]
  have "5 \<in> set (allset ?t) \<and> 5 \<notin> set (client ?t)"
    by (simp add: server_busy_def server_fresh_def connect_io_def)
  with turn show ?thesis by blast
qed

lemma server_busy_maxi:
  assumes "server_reachable s"
  shows "errno_of s = 0 \<and> (0 < client s ! 0 \<longrightarrow> maxi s = 1)"
  using assms
proof (induction rule: reachable.induct)
  case (reach_init s)
  then show ?case by (auto simp: server_init_def server_main_def all_slots_free)
next
  case (reach_step s u)
  have inv: "slots_inv s" using reach_step(1) by (rule server.reachable_inv)
  from reach_step(2) show ?case
  proof cases
    case (1 io)
    from 1(2,1) obtain r t r' where
      c: "connection (filter (\<lambda>fd. fd \<in> set (io_ready io)) (allset s)) io s = Inr (r, t)" and
      m: "message (filter (\<lambda>fd. fd \<in> set (io_ready io)) (allset s)) io t = Inr (r', u)" and
      e: "errno_of u = 0" by (rule server_turnE)
    have t: "slots_inv t" by (rule slots_inv_connection [OF inv 1(1) c])
    have mt: "0 < client t ! 0 \<longrightarrow> maxi t = 1"
      using inv 1(1) c by (cases rule: connection_cases) (use reach_step.IH in simp_all)
    from message_eq [OF t m] have "0 < client u ! 0 \<longrightarrow> maxi u = 1"
    proof
      assume "message_slot 0 (filter (\<lambda>fd. fd \<in> set (io_ready io)) (allset s)) io t = Inr u"
      with t show ?thesis by (cases rule: message_slot_cases) (use mt in simp_all)
    qed (use mt in simp)
    with e show ?thesis by blast
  qed
qed

text \<open>The first client is served. In every reachable state with a client in the first slot, if that
  client alone is ready, what it sent is answered with \<open>good\<close> and logged up to the first zero byte
  of the buffer; the end of its connection frees the slot, so that the next client gets it.\<close>

theorem server_serves_first:
  assumes "server_reachable s" and "0 < client s ! 0" and "io_select io = None" and "io_ready io = [client s ! 0]"
    and "io_read io (client s ! 0) = Inr d" and "io_write io (client s ! 0) = 0"
    and "d = [] \<or> nul \<in> set d"
  shows "server_turn io s = Serving
    (if d = []
     then s\<lparr>client := -1 # free_slots, allset := FD_CLR (client s ! 0) (allset s),
            log_of := log_of s @ [Disconnected 0]\<rparr>
     else s\<lparr>replies := replies s @ [(client s ! 0, ''good'')], log_of := log_of s @ [Said 0 (c_str d)]\<rparr>)"
proof -
  let ?c = "client s ! 0" and ?rset = "filter (\<lambda>fd. fd \<in> set (io_ready io)) (allset s)"
  have inv: "slots_inv s" using assms(1) by (rule server.reachable_inv)
  have m: "errno_of s = 0" "maxi s = 1" using server_busy_maxi [OF assms(1)] assms(2) by auto
  have cl: "client s = ?c # free_slots" by (rule first_slot [OF inv])
  have facts: "?c \<in> set (allset s)" "?c \<noteq> sockfd s" "pid_client s ! 0 = 0" "0 < length (pid_client s)"
    using inv assms(2) by (auto simp: slots_inv_def)
  have conn: "connection ?rset io s = Inr (0, s)" using facts assms(4) by (simp add: connection_def)
  have slots: "[0..<nat (maxi s + 1)] = [0, 1]" using m by (simp add: upt_rec)
  have l: "load (client s) 0 = Inr ?c" "load (pid_client s) 0 = Inr 0" "load (client s) 1 = Inr (-1)"
    "load (-1 # free_slots) 1 = Inr (-1)"
    using facts by (simp_all add: load_def) (subst cl, simp add: load_def)+
  show ?thesis
  proof (cases "d = []")
    case True
    have "(client s)[0 := -1] = -1 # free_slots" by (subst cl) simp
    then have "message ?rset io s = Inr (0, s\<lparr>client := -1 # free_slots, allset := FD_CLR ?c (allset s),
            log_of := log_of s @ [Disconnected 0]\<rparr>)"
      using True slots l assms facts by (simp add: message_def message_slot_def)
    with True conn m assms(3) show ?thesis by (simp add: server_turn_def Let_def)
  next
    case False
    then have "nul \<in> set d" using assms(7) by simp
    then obtain d1 d2 where d: "d = d1 @ nul # d2" "nul \<notin> set d1" by (meson split_list_first)
    have str: "c_strlen (d @ x) = Inr (length d1)" "take (length d1) (d @ x) = c_str d" for x
      using d c_strlen_append [of d1 "d2 @ x"] c_str_append [of d1 d2] by simp_all
    have "message ?rset io s = Inr (0, s\<lparr>replies := replies s @ [(?c, ''good'')],
            log_of := log_of s @ [Said 0 (c_str d)]\<rparr>)"
      using False slots l assms facts m str by (simp add: message_def message_slot_def read_into_def Let_def)
    with False conn m assms(3) show ?thesis by (simp add: server_turn_def Let_def)
  qed
qed

theorem server_serves_first_witness:
  "server_turn \<lparr>io_select = None, io_ready = [4], io_accept = Inl 11, io_read = (\<lambda>_. Inr (''hi'' @ [nul])), io_write = (\<lambda>_. 0),
      io_stack = replicate 100 nul\<rparr> server_busy =
   Serving (server_busy\<lparr>replies := [(4, ''good'')], log_of := [Connected 7, Said 0 ''hi'']\<rparr>)"
proof -
  have "c_str (''hi'' @ [nul]) = ''hi''" by (rule c_str_append) (simp add: nul_def)
  with server_serves_first [OF server_busy_reachable, of "\<lparr>io_select = None, io_ready = [4], io_accept = Inl 11,
      io_read = (\<lambda>_. Inr (''hi'' @ [nul])), io_write = (\<lambda>_. 0), io_stack = replicate 100 nul\<rparr>" "''hi'' @ [nul]"]
  show ?thesis by (simp add: server_busy_def server_fresh_def)
qed

end
