(* ===== verification/Select_Client.thy ===== *)
theory Select_Client
  imports Prelude
begin

text \<open>
  The TCP client of \<open>6-semestr/lab6/part_02/client.c\<close>: it connects, sends its process number and
  then sends lines until the user types \<open>exit\<close>. The results of the system calls and what the user
  types are parameters.
\<close>

section \<open>Library functions\<close>

text \<open>\<open>strncpy\<close> copies up to the first zero byte and fills the rest of the \<open>n\<close> bytes with zeros.\<close>

definition strncpy :: "char list \<Rightarrow> nat \<Rightarrow> char list" where
  "strncpy src n = (let s = take n (c_str src) in s @ replicate (n - length s) nul)"

text \<open>
  \<open>getline\<close> makes the buffer large enough for the line and its final zero byte and stores the size
  of the buffer, not of the line, in \<open>len\<close>; \<open>grow\<close> is the size of the buffer for a line that has so many
  bytes. At the end of the input it leaves a buffer that holds the empty string.
\<close>

definition getline_buffer :: "(nat \<Rightarrow> nat) \<Rightarrow> char list \<Rightarrow> char list" where
  "getline_buffer grow line = line @ nul # replicate (grow (length line) - Suc (length line)) nul"

section \<open>The program\<close>

record client_env =
  ce_argc :: nat
  ce_socket :: "int + int"
  ce_server :: "char list option"
  ce_connect_errno :: int
  ce_pid :: "char list"
  ce_grow :: "nat \<Rightarrow> nat"
  ce_typed :: "char list list"

datatype client_event = Sent "char list" | Told string | Connected_to "char list"

datatype client_result = Client_exit int "client_event list" | Client_crash c_fault "client_event list"
  | Client_typing "client_event list"

text \<open>
  One line typed by the user: the buffer that \<open>getline\<close> returns is closed with a zero byte at index
  \<open>len\<close>. The result is the buffer, or a fault.
\<close>

definition read_line :: "(nat \<Rightarrow> nat) \<Rightarrow> char list \<Rightarrow> c_fault + char list" where
  "read_line grow line =
     (let buffer = getline_buffer grow line in store buffer (int (length buffer)) nul)"

text \<open>The loop, with the lines that are still to be typed.\<close>

fun client_loop :: "(nat \<Rightarrow> nat) \<Rightarrow> char list list \<Rightarrow> client_event list \<Rightarrow> client_result" where
  "client_loop grow [] out = Client_typing out"
| "client_loop grow (line # rest) out =
     (case read_line grow line of
        Inl f \<Rightarrow> Client_crash f out
      | Inr buffer \<Rightarrow>
         if c_str buffer = ''exit'' @ [CHR 0x0A] then Client_exit 0 out
         else client_loop grow rest (out @ [Sent buffer, Told ''Message received: '', Told ''Type message: '']))"

text \<open>
  \<open>main\<close>: the host entry is printed before it is tested, so an unknown host is a null pointer given to
  \<open>printf\<close>; the address is copied with \<open>strncpy\<close>.
\<close>

definition client_main :: "client_env \<Rightarrow> client_result" where
  "client_main e =
     (if ce_argc e \<noteq> 3 then Client_exit (-1) [Told ''Usage'']
      else case ce_socket e of
        Inl err \<Rightarrow> Client_exit err []
      | Inr fd \<Rightarrow>
         (case ce_server e of
            None \<Rightarrow> Client_crash Null_Deref []
          | Some h_addr \<Rightarrow>
             let address = strncpy h_addr (length h_addr) in
             if ce_connect_errno e \<noteq> 0 then Client_exit (ce_connect_errno e) [Connected_to address]
             else case store_block (replicate 10 nul) 0 (ce_pid e @ [nul]) of
               Inl f \<Rightarrow> Client_crash f [Connected_to address]
             | Inr buffer \<Rightarrow>
                client_loop (ce_grow e) (ce_typed e)
                  [Connected_to address, Sent (c_str buffer), Told ''Type message: '']))"

text \<open>\<open>close_signal\<close>, the handler of SIGINT: its argument is what \<open>close\<close> returns and the \<open>errno\<close> it sets.\<close>

definition client_close_signal :: "int \<Rightarrow> int \<Rightarrow> client_result" where
  "client_close_signal closed errno =
     (if closed < 0 then Client_exit errno [] else Client_exit 0 [Told ''Socket closed''])"

section \<open>Properties\<close>

text \<open>The client never sends a line. \<open>buffer[len]\<close> is one byte behind the buffer of \<open>getline\<close>, so
  whatever the first line is, the client writes outside the buffer before it sends or even compares
  the line; and an address is only copied up to its first zero byte.\<close>

theorem client_never_sends:
  assumes "ce_argc e = 3" and "ce_socket e = Inr fd" and "ce_server e = Some addr"
    and "ce_connect_errno e = 0" and "nul \<notin> set (ce_pid e)" and "length (ce_pid e) < 10"
    and "ce_typed e = line # rest"
  shows "client_main e = Client_crash Out_Of_Bounds
           [Connected_to (c_str addr @ replicate (length addr - length (c_str addr)) nul),
            Sent (ce_pid e), Told ''Type message: '']"
proof -
  have "length (c_str addr) \<le> length addr" by (simp add: c_str_def length_takeWhile_le)
  then have addr: "strncpy addr (length addr) = c_str addr @ replicate (length addr - length (c_str addr)) nul"
    by (simp add: strncpy_def Let_def)
  have pid: "\<exists>r. store_block (replicate 10 nul) 0 (ce_pid e @ [nul]) = Inr (ce_pid e @ nul # r)"
    using assms(6) by (simp add: store_block_def)
  have "read_line (ce_grow e) line = Inl Out_Of_Bounds"
    by (simp add: read_line_def store_def Let_def)
  with assms pid c_str_append [OF assms(5)] show ?thesis
    by (auto simp: client_main_def addr Let_def)
qed

theorem client_never_sends_witness:
  "client_main \<lparr>ce_argc = 3, ce_socket = Inr 3, ce_server = Some [CHR 0x7F, nul, nul, CHR 0x01],
      ce_connect_errno = 0, ce_pid = ''4711'', ce_grow = (\<lambda>n. 120), ce_typed = [''hello'']\<rparr> =
   Client_crash Out_Of_Bounds [Connected_to [CHR 0x7F, nul, nul, nul], Sent ''4711'', Told ''Type message: '']"
  using client_never_sends [of "\<lparr>ce_argc = 3, ce_socket = Inr 3, ce_server = Some [CHR 0x7F, nul, nul, CHR 0x01],
      ce_connect_errno = 0, ce_pid = ''4711'', ce_grow = (\<lambda>n. 120), ce_typed = [''hello'']\<rparr>"]
  by (simp add: nul_def c_str_def numeral_eq_Suc)

end
