(* ===== verification/Monitor_Win32.thy ===== *)
theory Monitor_Win32
  imports Prelude
begin

text \<open>
  The readers and writers monitor of \<open>5-semestr/lab6/a.c\<close>, with a Win32 mutex, two events and
  volatile counters. Every access to a shared variable, every interlocked operation and every call
  of the API is one step, and the nine threads interleave freely. \<open>c_read\<close> resets itself when a wait
  on it succeeds, \<open>c_write\<close> does not.
\<close>

section \<open>State\<close>

definition mon_READERS :: nat where "mon_READERS = 5"
definition mon_WRITERS :: nat where "mon_WRITERS = 4"
definition mon_ITERS :: nat where "mon_ITERS = 10"

datatype mreader_pc =
  MR_Loop | MR_Mutex | MR_IncWaiting | MR_TestWrt | MR_TestWaiting | MR_WaitEvent | MR_Reset
  | MR_DecWaiting | MR_IncNr | MR_SetEvent | MR_Release | MR_Print | MR_DecNr | MR_TestNr | MR_Signal | MR_Done

datatype mwriter_pc =
  MW_Loop | MW_Mutex | MW_IncWaiting | MW_TestNr | MW_TestWrt | MW_WaitEvent | MW_Reset | MW_DecWaiting
  | MW_SetWrt | MW_Release | MW_Load | MW_Store "16 word" | MW_Print | MW_ClearWrt | MW_TestReaders
  | MW_SignalRead | MW_SignalWrite | MW_Done

text \<open>A writer has its number and the number of iterations it has done.\<close>

datatype mthread = MReader nat mreader_pc | MWriter nat nat mwriter_pc

datatype mevent = Read_Value nat "16 word" | Wrote_Value nat "16 word"

record monitor =
  mutex_owner :: "nat option"
  nr :: int
  wrt :: bool
  waiting_readers :: int
  waiting_writers :: int
  c_read :: bool
  c_write :: bool
  mbuffer :: "16 word"
  mlog :: "mevent list"
  mthreads :: "mthread list"

section \<open>The threads\<close>

text \<open>
  One step of a reader: \<open>start_read\<close> from \<open>MR_Mutex\<close> to \<open>MR_Release\<close>, \<open>stop_read\<close> from \<open>MR_DecNr\<close>
  to \<open>MR_Signal\<close>. \<open>me\<close> is the position of the thread.
\<close>

fun mreader :: "nat \<Rightarrow> nat \<Rightarrow> mreader_pc \<Rightarrow> monitor \<Rightarrow> (mreader_pc \<times> monitor) option" where
  "mreader me num MR_Loop s =
     Some (if unat (mbuffer s) < mon_ITERS * mon_WRITERS then MR_Mutex else MR_Done, s)"
| "mreader me num MR_Mutex s =
     (if mutex_owner s = None then Some (MR_IncWaiting, s\<lparr>mutex_owner := Some me\<rparr>) else None)"
| "mreader me num MR_IncWaiting s = Some (MR_TestWrt, s\<lparr>waiting_readers := waiting_readers s + 1\<rparr>)"
| "mreader me num MR_TestWrt s = Some (if wrt s then MR_WaitEvent else MR_TestWaiting, s)"
| "mreader me num MR_TestWaiting s =
     Some (if waiting_writers s \<noteq> 0 then MR_WaitEvent else MR_Reset, s)"
| "mreader me num MR_WaitEvent s = (if c_read s then Some (MR_Reset, s\<lparr>c_read := False\<rparr>) else None)"
| "mreader me num MR_Reset s = Some (MR_DecWaiting, s\<lparr>c_read := False\<rparr>)"
| "mreader me num MR_DecWaiting s = Some (MR_IncNr, s\<lparr>waiting_readers := waiting_readers s - 1\<rparr>)"
| "mreader me num MR_IncNr s = Some (MR_SetEvent, s\<lparr>nr := nr s + 1\<rparr>)"
| "mreader me num MR_SetEvent s = Some (MR_Release, s\<lparr>c_read := True\<rparr>)"
| "mreader me num MR_Release s = Some (MR_Print, s\<lparr>mutex_owner := None\<rparr>)"
| "mreader me num MR_Print s = Some (MR_DecNr, s\<lparr>mlog := mlog s @ [Read_Value num (mbuffer s)]\<rparr>)"
| "mreader me num MR_DecNr s = Some (MR_TestNr, s\<lparr>nr := nr s - 1\<rparr>)"
| "mreader me num MR_TestNr s = Some (if nr s = 0 then MR_Signal else MR_Loop, s)"
| "mreader me num MR_Signal s = Some (MR_Loop, s\<lparr>c_write := True\<rparr>)"
| "mreader me num MR_Done s = None"

text \<open>
  One step of a writer: \<open>start_write\<close> from \<open>MW_Mutex\<close> to \<open>MW_Release\<close>, \<open>++buffer\<close> is a load and a
  store, \<open>stop_write\<close> from \<open>MW_ClearWrt\<close> on.
\<close>

fun mwriter :: "nat \<Rightarrow> nat \<Rightarrow> nat \<Rightarrow> mwriter_pc \<Rightarrow> monitor \<Rightarrow> (mwriter_pc \<times> monitor) option" where
  "mwriter me num i MW_Loop s = Some (if i < mon_ITERS then MW_Mutex else MW_Done, s)"
| "mwriter me num i MW_Mutex s =
     (if mutex_owner s = None then Some (MW_IncWaiting, s\<lparr>mutex_owner := Some me\<rparr>) else None)"
| "mwriter me num i MW_IncWaiting s = Some (MW_TestNr, s\<lparr>waiting_writers := waiting_writers s + 1\<rparr>)"
| "mwriter me num i MW_TestNr s = Some (if 0 < nr s then MW_WaitEvent else MW_TestWrt, s)"
| "mwriter me num i MW_TestWrt s = Some (if wrt s then MW_WaitEvent else MW_Reset, s)"
| "mwriter me num i MW_WaitEvent s = (if c_write s then Some (MW_Reset, s) else None)"
| "mwriter me num i MW_Reset s = Some (MW_DecWaiting, s\<lparr>c_write := False\<rparr>)"
| "mwriter me num i MW_DecWaiting s = Some (MW_SetWrt, s\<lparr>waiting_writers := waiting_writers s - 1\<rparr>)"
| "mwriter me num i MW_SetWrt s = Some (MW_Release, s\<lparr>wrt := True\<rparr>)"
| "mwriter me num i MW_Release s = Some (MW_Load, s\<lparr>mutex_owner := None\<rparr>)"
| "mwriter me num i MW_Load s = Some (MW_Store (mbuffer s), s)"
| "mwriter me num i (MW_Store r) s = Some (MW_Print, s\<lparr>mbuffer := r + 1\<rparr>)"
| "mwriter me num i MW_Print s = Some (MW_ClearWrt, s\<lparr>mlog := mlog s @ [Wrote_Value num (mbuffer s)]\<rparr>)"
| "mwriter me num i MW_ClearWrt s = Some (MW_TestReaders, s\<lparr>wrt := False\<rparr>)"
| "mwriter me num i MW_TestReaders s =
     Some (if 0 < waiting_readers s then MW_SignalRead else MW_SignalWrite, s)"
| "mwriter me num i MW_SignalRead s = Some (MW_Loop, s\<lparr>c_read := True\<rparr>)"
| "mwriter me num i MW_SignalWrite s = Some (MW_Loop, s\<lparr>c_write := True\<rparr>)"
| "mwriter me num i MW_Done s = None"

fun mthread_step :: "nat \<Rightarrow> mthread \<Rightarrow> monitor \<Rightarrow> (mthread \<times> monitor) option" where
  "mthread_step me (MReader num pc) s = map_option (map_prod (MReader num) id) (mreader me num pc s)"
| "mthread_step me (MWriter num i pc) s =
     map_option (map_prod (MWriter num (if pc = MW_SignalRead \<or> pc = MW_SignalWrite then Suc i else i)) id)
       (mwriter me num i pc s)"

definition mon_exec :: "nat \<Rightarrow> monitor \<Rightarrow> monitor option" where
  "mon_exec i s =
     (if length (mthreads s) \<le> i then None
      else map_option (\<lambda>(p, t). t\<lparr>mthreads := (mthreads t)[i := p]\<rparr>) (mthread_step i (mthreads s ! i) s))"

section \<open>\<open>main\<close>\<close>

text \<open>
  The handles that could be created; threads are created in order, the first that cannot be created
  ends the program. \<open>mon_started k\<close> is the state after the creation of \<open>k\<close> threads.
\<close>

record mon_env =
  mutex_made :: bool
  read_event_made :: bool
  write_event_made :: bool
  thread_made :: "nat \<Rightarrow> bool"

definition mon_thread :: "nat \<Rightarrow> mthread" where
  "mon_thread i = (if i < mon_READERS then MReader i MR_Loop else MWriter (i - mon_READERS) 0 MW_Loop)"

definition mon_start :: monitor where
  "mon_start = \<lparr>mutex_owner = None, nr = 0, wrt = False, waiting_readers = 0, waiting_writers = 0,
     c_read = True, c_write = True, mbuffer = 0, mlog = [], mthreads = []\<rparr>"

definition mon_create :: "mon_env \<Rightarrow> monitor \<Rightarrow> string + monitor" where
  "mon_create e s =
     (let i = length (mthreads s) in
      if thread_made e i then Inr (s\<lparr>mthreads := mthreads s @ [mon_thread i]\<rparr>)
      else Inl (if i < mon_READERS then ''Error: CreateThread readers!'' else ''Error: CreateThread writers!''))"

definition mon_main :: "mon_env \<Rightarrow> string + monitor" where
  "mon_main e =
     (if \<not> mutex_made e then Inl ''Error: CreateMutex!''
      else if \<not> read_event_made e then Inl ''Error: CreateEvent for can_read!''
      else if \<not> write_event_made e then Inl ''Error: CreateEvent for can_write!''
      else Inr mon_start)"

definition mon_init :: "monitor \<Rightarrow> bool" where
  "mon_init s \<longleftrightarrow> (\<exists>e. mon_main e = Inr s)"

inductive mon_step :: "monitor \<Rightarrow> monitor \<Rightarrow> bool" where
  mon_runs: "mon_exec i s = Some t \<Longrightarrow> mon_step s t"
| mon_creates: "length (mthreads s) < mon_READERS + mon_WRITERS \<Longrightarrow> mon_create e s = Inr t \<Longrightarrow> mon_step s t"

abbreviation mon_reachable :: "monitor \<Rightarrow> bool" where
  "mon_reachable \<equiv> reachable mon_init mon_step"

section \<open>What the counters count\<close>

fun holds_mutex :: "mthread \<Rightarrow> int" where
  "holds_mutex (MReader num pc) =
     (if pc \<in> {MR_IncWaiting, MR_TestWrt, MR_TestWaiting, MR_WaitEvent, MR_Reset, MR_DecWaiting,
               MR_IncNr, MR_SetEvent, MR_Release} then 1 else 0)"
| "holds_mutex (MWriter num i pc) =
     (if pc \<in> {MW_IncWaiting, MW_TestNr, MW_TestWrt, MW_WaitEvent, MW_Reset, MW_DecWaiting,
               MW_SetWrt, MW_Release} then 1 else 0)"

fun reads_now :: "mthread \<Rightarrow> int" where
  "reads_now (MReader num pc) = (if pc \<in> {MR_SetEvent, MR_Release, MR_Print, MR_DecNr} then 1 else 0)"
| "reads_now (MWriter num i pc) = 0"

fun reader_waits :: "mthread \<Rightarrow> int" where
  "reader_waits (MReader num pc) =
     (if pc \<in> {MR_TestWrt, MR_TestWaiting, MR_WaitEvent, MR_Reset, MR_DecWaiting} then 1 else 0)"
| "reader_waits (MWriter num i pc) = 0"

fun writer_waits :: "mthread \<Rightarrow> int" where
  "writer_waits (MReader num pc) = 0"
| "writer_waits (MWriter num i pc) =
     (if pc \<in> {MW_TestNr, MW_TestWrt, MW_WaitEvent, MW_Reset, MW_DecWaiting} then 1 else 0)"

fun writes_now :: "mthread \<Rightarrow> int" where
  "writes_now (MReader num pc) = 0"
| "writes_now (MWriter num i pc) =
     (case pc of MW_Load \<Rightarrow> 1 | MW_Store r \<Rightarrow> 1 | MW_Print \<Rightarrow> 1 | MW_ClearWrt \<Rightarrow> 1 | _ \<Rightarrow> 0)"

definition mon_inv :: "monitor \<Rightarrow> bool" where
  "mon_inv s \<longleftrightarrow>
     tally holds_mutex (mthreads s) = (if mutex_owner s = None then 0 else 1) \<and>
     nr s = tally reads_now (mthreads s) \<and>
     waiting_readers s = tally reader_waits (mthreads s) \<and>
     waiting_writers s = tally writer_waits (mthreads s)"

lemma weights_nonneg [simp]:
  "0 \<le> holds_mutex p" "0 \<le> reads_now p" "0 \<le> reader_waits p" "0 \<le> writer_waits p"
  by (cases p; simp)+

lemma waits_hold: "writer_waits p \<le> holds_mutex p" "reader_waits p \<le> holds_mutex p"
  by (cases p; simp)+

lemma holds_owner:
  assumes "mon_inv s" "i < length (mthreads s)" "holds_mutex (mthreads s ! i) = 1"
  shows "mutex_owner s \<noteq> None"
  using assms tally_ge_one [of holds_mutex i "mthreads s"] by (auto simp: mon_inv_def split: if_splits)

lemma mon_inv_reader:
  assumes inv: "mon_inv s" and i: "i < length (mthreads s)" and p: "mthreads s ! i = MReader num pc"
    and st: "mreader i num pc s = Some (pc', t)"
  shows "mon_inv (t\<lparr>mthreads := (mthreads t)[i := MReader num pc']\<rparr>)"
  using inv i p st holds_owner [OF inv i]
  by (cases pc) (auto simp: mon_inv_def tally_update split: if_splits)

lemma mon_inv_writer:
  assumes inv: "mon_inv s" and i: "i < length (mthreads s)" and p: "mthreads s ! i = MWriter num k pc"
    and st: "mwriter i num k pc s = Some (pc', t)"
  shows "mon_inv (t\<lparr>mthreads := (mthreads t)[i := MWriter num k' pc']\<rparr>)"
  using inv i p st holds_owner [OF inv i]
  by (cases pc) (auto simp: mon_inv_def tally_update split: if_splits)

lemma mon_inv_exec:
  assumes "mon_inv s" "mon_exec i s = Some t" shows "mon_inv t"
proof -
  have i: "i < length (mthreads s)" using assms(2) by (auto simp: mon_exec_def split: if_splits)
  then obtain p u where u: "mthread_step i (mthreads s ! i) s = Some (p, u)"
    "t = u\<lparr>mthreads := (mthreads u)[i := p]\<rparr>" using assms(2) by (auto simp: mon_exec_def)
  show ?thesis
  proof (cases "mthreads s ! i")
    case (MReader num pc)
    with u show ?thesis using mon_inv_reader [OF assms(1) i MReader] by auto
  next
    case (MWriter num k pc)
    with u show ?thesis using mon_inv_writer [OF assms(1) i MWriter] by auto
  qed
qed

lemma mon_inv_create: "mon_inv s \<Longrightarrow> mon_create e s = Inr t \<Longrightarrow> mon_inv t"
  by (auto simp: mon_create_def Let_def mon_inv_def mon_thread_def split: if_splits)

interpretation mon: invariant mon_init mon_step mon_inv
proof unfold_locales
  show "mon_inv s" if "mon_init s" for s
    using that by (auto simp: mon_init_def mon_main_def mon_start_def mon_inv_def split: if_splits)
  show "mon_inv t" if "mon_inv s" "mon_step s t" for s t
    using that(2) by (cases rule: mon_step.cases) (auto intro: mon_inv_exec [OF that(1)] mon_inv_create [OF that(1)])
qed

section \<open>Schedules\<close>

text \<open>\<open>None\<close> creates the next thread, \<open>Some i\<close> runs a step of thread \<open>i\<close>.\<close>

definition mon_all_made :: mon_env where
  "mon_all_made = \<lparr>mutex_made = True, read_event_made = True, write_event_made = True, thread_made = (\<lambda>_. True)\<rparr>"

fun mon_choose :: "nat option \<Rightarrow> monitor \<Rightarrow> monitor option" where
  "mon_choose None s =
     (if length (mthreads s) < mon_READERS + mon_WRITERS
      then (case mon_create mon_all_made s of Inl e \<Rightarrow> None | Inr t \<Rightarrow> Some t) else None)"
| "mon_choose (Some i) s = mon_exec i s"

fun mon_sched :: "nat option list \<Rightarrow> monitor \<Rightarrow> monitor option" where
  "mon_sched [] s = Some s"
| "mon_sched (c # cs) s = (case mon_choose c s of None \<Rightarrow> None | Some t \<Rightarrow> mon_sched cs t)"

lemma mon_sched_reachable: "mon_reachable s \<Longrightarrow> mon_sched cs s = Some t \<Longrightarrow> mon_reachable t"
proof (induction cs arbitrary: s)
  case (Cons c cs)
  then obtain u where u: "mon_choose c s = Some u" "mon_sched cs u = Some t" by (auto split: option.splits)
  then have "mon_step s u" by (cases c) (auto intro: mon_step.intros split: if_splits sum.splits)
  with Cons u show ?case by (blast intro: reach_step)
qed simp

lemma mon_start_init: "mon_init mon_start"
  by (auto simp: mon_init_def mon_main_def mon_all_made_def intro!: exI [of _ mon_all_made])

definition mon_running :: monitor where
  "mon_running = mon_start\<lparr>mthreads := map mon_thread [0..<9]\<rparr>"

lemma mon_running_reachable: "mon_reachable mon_running"
proof (rule mon_sched_reachable)
  show "mon_reachable mon_start" by (rule reach_init) (rule mon_start_init)
  show "mon_sched (replicate 9 None) mon_start = Some mon_running"
    by (simp add: numeral_eq_Suc mon_create_def Let_def mon_all_made_def mon_start_def mon_running_def
        mon_READERS_def mon_WRITERS_def mon_thread_def)
qed

lemmas mon_run_simps = mon_running_def mon_start_def mon_thread_def mon_READERS_def mon_WRITERS_def
  mon_ITERS_def mon_exec_def numeral_eq_Suc

text \<open>A writer gets in; then a reader waits on \<open>c_read\<close>, which is still signalled from its creation.\<close>

definition mon_read_write :: "nat option list" where
  "mon_read_write = replicate 9 (Some 5) @ replicate 10 (Some 0)"

text \<open>
  A writer leaves, but before it signals another one gets in without waiting; the signal then lets a
  third one pass. Both load the buffer before one of them stores it.
\<close>

definition mon_write_write :: "nat option list" where
  "mon_write_write = replicate 14 (Some 5) @ replicate 9 (Some 6) @ [Some 5] @ replicate 10 (Some 7) @
     [Some 6, Some 7, Some 6, Some 6, Some 7, Some 7]"

lemma mon_read_write_run:
  "\<exists>t. mon_sched mon_read_write mon_running = Some t \<and> mthreads t ! 0 = MReader 0 MR_Print \<and>
       mthreads t ! 5 = MWriter 0 0 MW_Load"
  by (simp add: mon_read_write_def mon_run_simps)

lemma mon_write_write_run:
  "\<exists>t. mon_sched mon_write_write mon_running = Some t \<and>
       mlog t = [Wrote_Value 0 1, Wrote_Value 1 2, Wrote_Value 2 2]"
  by (simp add: mon_write_write_def mon_run_simps)

section \<open>Properties\<close>

text \<open>C22: the counters of the monitor. In every reachable state at most one thread is between taking
  and releasing the mutex, \<open>nr\<close> and the waiting counters are the numbers of threads they stand for,
  and a reader that tests \<open>waiting_writers\<close> finds it zero, since a waiting writer keeps the mutex: the
  test never gives a writer precedence.\<close>

theorem mon_counters:
  assumes "mon_reachable s"
  shows "tally holds_mutex (mthreads s) \<le> 1 \<and> nr s = tally reads_now (mthreads s) \<and>
    waiting_readers s = tally reader_waits (mthreads s) \<and> waiting_writers s = tally writer_waits (mthreads s) \<and>
    (\<forall>i num. i < length (mthreads s) \<and> mthreads s ! i = MReader num MR_TestWaiting \<longrightarrow> waiting_writers s = 0)"
proof -
  have inv: "mon_inv s" using assms by (rule mon.reachable_inv)
  then have one: "tally holds_mutex (mthreads s) \<le> 1" by (simp add: mon_inv_def)
  have "waiting_writers s = 0"
    if "i < length (mthreads s)" "mthreads s ! i = MReader num MR_TestWaiting" for i num
  proof -
    have "tally writer_waits (mthreads s) = writer_waits (mthreads s ! i)"
      by (rule tally_own [where f = holds_mutex]) (use that one waits_hold in auto)
    with that inv show ?thesis by (simp add: mon_inv_def)
  qed
  with inv one show ?thesis by (auto simp: mon_inv_def)
qed

theorem mon_counters_witness: "nr mon_running = tally reads_now (mthreads mon_running)"
  using mon_counters [OF mon_running_reachable] by blast

text \<open>The monitor does not exclude. There is a reachable state in which a reader is about to print
  while a writer is about to write, because \<open>c_read\<close> is created signalled; and there is a run in which
  two writers write at the same time and one of the two increments is lost, because \<open>stop_write\<close>
  clears \<open>wrt\<close> before it signals, outside the mutex.\<close>

theorem mon_no_exclusion:
  "(\<exists>s. mon_reachable s \<and> mthreads s ! 0 = MReader 0 MR_Print \<and> mthreads s ! 5 = MWriter 0 0 MW_Load) \<and>
   (\<exists>s. mon_reachable s \<and> mlog s = [Wrote_Value 0 1, Wrote_Value 1 2, Wrote_Value 2 2])"
  using mon_read_write_run mon_write_write_run mon_sched_reachable [OF mon_running_reachable] by metis

end
