(* ===== verification/Monitor_Cpp.thy ===== *)
theory Monitor_Cpp
  imports Prelude
begin

text \<open>
  The readers and writers of \<open>5-semestr/lab6/main.cpp\<close>: a Win32 mutex that readers and writers hold
  while they read and write, and two manual-reset events. The main thread and the nine threads it
  creates interleave freely; every access to a shared variable, every interlocked operation and every
  call of the API is one step. No result of a call is checked in the program, so every call that makes
  an object may fail here, and what the other calls do with a null handle is part of the model.
\<close>

section \<open>State\<close>

definition cx_READERS :: nat where "cx_READERS = 5"
definition cx_WRITERS :: nat where "cx_WRITERS = 4"
definition cx_ITER :: nat where "cx_ITER = 10"

text \<open>
  The places of \<open>Writer\<close> with \<open>StartWrite\<close> and \<open>StopWrite\<close>, and of \<open>Reader\<close> with \<open>StartRead\<close> and
  \<open>StopRead\<close>. The counters of threads inside are plain variables: a load into a register and a store.
\<close>

datatype cwriter_pc =
  CW_Loop | CW_IncWaiting | CW_Lock | CW_ResetRead | CW_LoadUp | CW_StoreUp "32 word" | CW_Unlock
  | CW_WaitEvent | CW_Lock2 | CW_DecWaiting | CW_LoadValue | CW_StoreValue "32 word" | CW_Print "32 word"
  | CW_IncWaiting2 | CW_LoadDown | CW_StoreDown "32 word" | CW_SetRead | CW_Unlock2 | CW_Done

datatype creader_pc =
  CR_Loop | CR_IncWaiting | CR_WaitEvent | CR_Lock | CR_ResetWrite | CR_LoadUp | CR_StoreUp "32 word"
  | CR_Unlock | CR_Lock2 | CR_DecWaiting | CR_IncActive | CR_Print | CR_DecActive | CR_LoadDown
  | CR_StoreDown "32 word" | CR_SetWrite | CR_Unlock2 | CR_Done

text \<open>
  The slots of \<open>writer_Threads\<close> and \<open>reader_Threads\<close>, in the order in which they are filled: a thread
  with its number \<open>num\<close>, the loop variable \<open>i\<close> and its place, or a null handle.
\<close>

datatype cthread = CNull | CWriter nat nat cwriter_pc | CReader nat nat creader_pc

datatype cmain_pc =
  CM_Mutex | CM_EventRead | CM_EventWrite | CM_Create | CM_WaitWriters | CM_WaitReaders | CM_Returned

text \<open>A mutex is free or owned by a thread a number of times.\<close>

datatype win_mutex = Free | Owned nat nat

datatype cevent = Reader_Read nat "32 word" | Writer_Wrote nat "32 word"

record cx_state =
  single_mut :: "win_mutex option"
  event_read :: "bool option"
  event_write :: "bool option"
  read_count :: "32 word"
  writ_count :: "32 word"
  cx_value :: "32 word"
  cx_active_readers :: "32 word"
  cx_waiting_readers :: "32 word"
  cx_waiting_writers :: "32 word"
  cx_out :: "cevent list"
  cx_threads :: "cthread list"
  cx_main :: cmain_pc

section \<open>The calls of the API\<close>

text \<open>
  \<open>None\<close> as a result is a call that blocks. A wait on a null handle fails and returns at once, setting
  or releasing one does nothing.
\<close>

fun cx_lock :: "nat \<Rightarrow> cx_state \<Rightarrow> cx_state option" where
  "cx_lock me s =
     (case single_mut s of
        None \<Rightarrow> Some s
      | Some Free \<Rightarrow> Some (s\<lparr>single_mut := Some (Owned me 1)\<rparr>)
      | Some (Owned t k) \<Rightarrow> if t = me then Some (s\<lparr>single_mut := Some (Owned me (Suc k))\<rparr>) else None)"

fun cx_unlock :: "nat \<Rightarrow> cx_state \<Rightarrow> cx_state" where
  "cx_unlock me s =
     (case single_mut s of
        Some (Owned t k) \<Rightarrow>
          if t \<noteq> me then s
          else if k \<le> 1 then s\<lparr>single_mut := Some Free\<rparr> else s\<lparr>single_mut := Some (Owned me (k - 1))\<rparr>
      | _ \<Rightarrow> s)"

definition cx_passes :: "bool option \<Rightarrow> bool" where
  "cx_passes ev \<longleftrightarrow> ev \<noteq> Some False"

definition cx_signal :: "bool \<Rightarrow> bool option \<Rightarrow> bool option" where
  "cx_signal b ev = map_option (\<lambda>_. b) ev"

section \<open>The threads\<close>

fun cwriter :: "nat \<Rightarrow> nat \<Rightarrow> nat \<Rightarrow> cwriter_pc \<Rightarrow> cx_state \<Rightarrow> (cwriter_pc \<times> cx_state) option" where
  "cwriter me num i CW_Loop s = Some (if i < cx_ITER then CW_IncWaiting else CW_Done, s)"
| "cwriter me num i CW_IncWaiting s = Some (CW_Lock, s\<lparr>cx_waiting_writers := cx_waiting_writers s + 1\<rparr>)"
| "cwriter me num i CW_Lock s = map_option (Pair CW_ResetRead) (cx_lock me s)"
| "cwriter me num i CW_ResetRead s = Some (CW_LoadUp, s\<lparr>event_read := cx_signal False (event_read s)\<rparr>)"
| "cwriter me num i CW_LoadUp s = Some (CW_StoreUp (writ_count s), s)"
| "cwriter me num i (CW_StoreUp r) s = Some (CW_Unlock, s\<lparr>writ_count := r + 1\<rparr>)"
| "cwriter me num i CW_Unlock s = Some (CW_WaitEvent, cx_unlock me s)"
| "cwriter me num i CW_WaitEvent s = (if cx_passes (event_write s) then Some (CW_Lock2, s) else None)"
| "cwriter me num i CW_Lock2 s = map_option (Pair CW_DecWaiting) (cx_lock me s)"
| "cwriter me num i CW_DecWaiting s = Some (CW_LoadValue, s\<lparr>cx_waiting_writers := cx_waiting_writers s - 1\<rparr>)"
| "cwriter me num i CW_LoadValue s = Some (CW_StoreValue (cx_value s), s)"
| "cwriter me num i (CW_StoreValue r) s = Some (CW_Print (r + 1), s\<lparr>cx_value := r + 1\<rparr>)"
| "cwriter me num i (CW_Print v) s = Some (CW_IncWaiting2, s\<lparr>cx_out := cx_out s @ [Writer_Wrote num v]\<rparr>)"
| "cwriter me num i CW_IncWaiting2 s = Some (CW_LoadDown, s\<lparr>cx_waiting_writers := cx_waiting_writers s + 1\<rparr>)"
| "cwriter me num i CW_LoadDown s = Some (CW_StoreDown (writ_count s), s)"
| "cwriter me num i (CW_StoreDown r) s =
     Some (if r - 1 = 0 then CW_SetRead else CW_Unlock2, s\<lparr>writ_count := r - 1\<rparr>)"
| "cwriter me num i CW_SetRead s = Some (CW_Unlock2, s\<lparr>event_read := cx_signal True (event_read s)\<rparr>)"
| "cwriter me num i CW_Unlock2 s = Some (CW_Loop, cx_unlock me s)"
| "cwriter me num i CW_Done s = None"

fun creader :: "nat \<Rightarrow> nat \<Rightarrow> nat \<Rightarrow> creader_pc \<Rightarrow> cx_state \<Rightarrow> (creader_pc \<times> cx_state) option" where
  "creader me num i CR_Loop s = Some (if i < cx_ITER then CR_IncWaiting else CR_Done, s)"
| "creader me num i CR_IncWaiting s = Some (CR_WaitEvent, s\<lparr>cx_waiting_readers := cx_waiting_readers s + 1\<rparr>)"
| "creader me num i CR_WaitEvent s = (if cx_passes (event_read s) then Some (CR_Lock, s) else None)"
| "creader me num i CR_Lock s = map_option (Pair CR_ResetWrite) (cx_lock me s)"
| "creader me num i CR_ResetWrite s = Some (CR_LoadUp, s\<lparr>event_write := cx_signal False (event_write s)\<rparr>)"
| "creader me num i CR_LoadUp s = Some (CR_StoreUp (read_count s), s)"
| "creader me num i (CR_StoreUp r) s = Some (CR_Unlock, s\<lparr>read_count := r + 1\<rparr>)"
| "creader me num i CR_Unlock s = Some (CR_Lock2, cx_unlock me s)"
| "creader me num i CR_Lock2 s = map_option (Pair CR_DecWaiting) (cx_lock me s)"
| "creader me num i CR_DecWaiting s = Some (CR_IncActive, s\<lparr>cx_waiting_readers := cx_waiting_readers s - 1\<rparr>)"
| "creader me num i CR_IncActive s = Some (CR_Print, s\<lparr>cx_active_readers := cx_active_readers s + 1\<rparr>)"
| "creader me num i CR_Print s = Some (CR_DecActive, s\<lparr>cx_out := cx_out s @ [Reader_Read num (cx_value s)]\<rparr>)"
| "creader me num i CR_DecActive s = Some (CR_LoadDown, s\<lparr>cx_active_readers := cx_active_readers s - 1\<rparr>)"
| "creader me num i CR_LoadDown s = Some (CR_StoreDown (read_count s), s)"
| "creader me num i (CR_StoreDown r) s =
     Some (if r - 1 = 0 then CR_SetWrite else CR_Unlock2, s\<lparr>read_count := r - 1\<rparr>)"
| "creader me num i CR_SetWrite s = Some (CR_Unlock2, s\<lparr>event_write := cx_signal True (event_write s)\<rparr>)"
| "creader me num i CR_Unlock2 s = Some (CR_Loop, cx_unlock me s)"
| "creader me num i CR_Done s = None"

text \<open>The last step of an iteration counts it.\<close>

fun cthread_step :: "nat \<Rightarrow> cthread \<Rightarrow> cx_state \<Rightarrow> (cthread \<times> cx_state) option" where
  "cthread_step me CNull s = None"
| "cthread_step me (CWriter num i pc) s =
     map_option (map_prod (CWriter num (if pc = CW_Unlock2 then Suc i else i)) id) (cwriter me num i pc s)"
| "cthread_step me (CReader num i pc) s =
     map_option (map_prod (CReader num (if pc = CR_Unlock2 then Suc i else i)) id) (creader me num i pc s)"

definition cx_exec :: "nat \<Rightarrow> cx_state \<Rightarrow> cx_state option" where
  "cx_exec j s =
     (if length (cx_threads s) \<le> j then None
      else map_option (\<lambda>(p, t). t\<lparr>cx_threads := (cx_threads t)[j := p]\<rparr>) (cthread_step j (cx_threads s ! j) s))"

section \<open>The main thread\<close>

definition cx_start :: cx_state where
  "cx_start = \<lparr>single_mut = None, event_read = None, event_write = None, read_count = 0, writ_count = 0,
     cx_value = 0, cx_active_readers = 0, cx_waiting_readers = 0, cx_waiting_writers = 0, cx_out = [],
     cx_threads = [], cx_main = CM_Mutex\<rparr>"

text \<open>The thread \<open>Create_Threads\<close> makes for slot \<open>n\<close>: first the writers, then the readers.\<close>

definition cx_thread :: "nat \<Rightarrow> cthread" where
  "cx_thread n = (if n < cx_WRITERS then CWriter n 0 CW_Loop else CReader (n - cx_WRITERS) 0 CR_Loop)"

fun cx_done :: "cthread \<Rightarrow> bool" where
  "cx_done CNull = False"
| "cx_done (CWriter num i pc) = (pc = CW_Done)"
| "cx_done (CReader num i pc) = (pc = CR_Done)"

text \<open>
  \<open>WaitForMultipleObjects\<close> for all of some threads: it fails, and returns, when one of the handles is
  null.
\<close>

definition cx_joined :: "cthread list \<Rightarrow> bool" where
  "cx_joined ts \<longleftrightarrow> CNull \<in> set ts \<or> (\<forall>p \<in> set ts. cx_done p)"

text \<open>One step of \<open>main\<close>; \<open>ok\<close> tells whether the object asked for could be made.\<close>

fun cx_main_at :: "bool \<Rightarrow> cmain_pc \<Rightarrow> cx_state \<Rightarrow> cx_state option" where
  "cx_main_at ok CM_Mutex s =
     Some (s\<lparr>single_mut := (if ok then Some Free else None), cx_main := CM_EventRead\<rparr>)"
| "cx_main_at ok CM_EventRead s =
     Some (s\<lparr>event_read := (if ok then Some True else None), cx_main := CM_EventWrite\<rparr>)"
| "cx_main_at ok CM_EventWrite s =
     Some (s\<lparr>event_write := (if ok then Some True else None), cx_main := CM_Create\<rparr>)"
| "cx_main_at ok CM_Create s =
     (let n = length (cx_threads s) in
      if n < cx_WRITERS + cx_READERS
      then Some (s\<lparr>cx_threads := cx_threads s @ [if ok then cx_thread n else CNull]\<rparr>)
      else Some (s\<lparr>cx_main := CM_WaitWriters\<rparr>))"
| "cx_main_at ok CM_WaitWriters s =
     (if cx_joined (take cx_WRITERS (cx_threads s)) then Some (s\<lparr>cx_main := CM_WaitReaders\<rparr>) else None)"
| "cx_main_at ok CM_WaitReaders s =
     (if cx_joined (drop cx_WRITERS (cx_threads s)) then Some (s\<lparr>cx_main := CM_Returned\<rparr>) else None)"
| "cx_main_at ok CM_Returned s = None"

text \<open>The return of \<open>main\<close> ends the process and with it every thread.\<close>

inductive cx_step :: "cx_state \<Rightarrow> cx_state \<Rightarrow> bool" where
  cx_thread_runs: "cx_main s \<noteq> CM_Returned \<Longrightarrow> cx_exec j s = Some t \<Longrightarrow> cx_step s t"
| cx_main_runs: "cx_main_at ok (cx_main s) s = Some t \<Longrightarrow> cx_step s t"

inductive_cases cx_stepE: "cx_step s t"

abbreviation cx_reachable :: "cx_state \<Rightarrow> bool" where
  "cx_reachable \<equiv> reachable (\<lambda>s. s = cx_start) cx_step"

section \<open>What the program keeps\<close>

text \<open>The threads that own the mutex, by their place.\<close>

fun cx_holds :: "cthread \<Rightarrow> int" where
  "cx_holds CNull = 0"
| "cx_holds (CWriter num i pc) =
     (if pc \<in> {CW_Loop, CW_IncWaiting, CW_Lock, CW_WaitEvent, CW_Lock2, CW_Done} then 0 else 1)"
| "cx_holds (CReader num i pc) =
     (if pc \<in> {CR_Loop, CR_IncWaiting, CR_WaitEvent, CR_Lock, CR_Lock2, CR_Done} then 0 else 1)"

text \<open>What \<open>writ_count\<close> and \<open>read_count\<close> count.\<close>

fun cx_writes :: "cthread \<Rightarrow> int" where
  "cx_writes (CWriter num i pc) =
     (case pc of CW_Unlock \<Rightarrow> 1 | CW_WaitEvent \<Rightarrow> 1 | CW_Lock2 \<Rightarrow> 1 | CW_DecWaiting \<Rightarrow> 1 | CW_LoadValue \<Rightarrow> 1
      | CW_StoreValue r \<Rightarrow> 1 | CW_Print v \<Rightarrow> 1 | CW_IncWaiting2 \<Rightarrow> 1 | CW_LoadDown \<Rightarrow> 1 | CW_StoreDown r \<Rightarrow> 1 | _ \<Rightarrow> 0)"
| "cx_writes _ = 0"

fun cx_reads :: "cthread \<Rightarrow> int" where
  "cx_reads (CReader num i pc) =
     (case pc of CR_Unlock \<Rightarrow> 1 | CR_Lock2 \<Rightarrow> 1 | CR_DecWaiting \<Rightarrow> 1 | CR_IncActive \<Rightarrow> 1 | CR_Print \<Rightarrow> 1
      | CR_DecActive \<Rightarrow> 1 | CR_LoadDown \<Rightarrow> 1 | CR_StoreDown r \<Rightarrow> 1 | _ \<Rightarrow> 0)"
| "cx_reads _ = 0"

text \<open>What the three interlocked counters count. \<open>StopWrite\<close> adds to \<open>waiting_writers\<close>.\<close>

fun cx_active :: "cthread \<Rightarrow> int" where
  "cx_active (CReader num i pc) = (if pc = CR_Print \<or> pc = CR_DecActive then 1 else 0)"
| "cx_active _ = 0"

fun cx_rwaits :: "cthread \<Rightarrow> int" where
  "cx_rwaits (CReader num i pc) =
     (case pc of CR_WaitEvent \<Rightarrow> 1 | CR_Lock \<Rightarrow> 1 | CR_ResetWrite \<Rightarrow> 1 | CR_LoadUp \<Rightarrow> 1 | CR_StoreUp r \<Rightarrow> 1
      | CR_Unlock \<Rightarrow> 1 | CR_Lock2 \<Rightarrow> 1 | CR_DecWaiting \<Rightarrow> 1 | _ \<Rightarrow> 0)"
| "cx_rwaits _ = 0"

fun cx_wwaits :: "cthread \<Rightarrow> int" where
  "cx_wwaits (CWriter num i pc) =
     int i + (case pc of CW_Loop \<Rightarrow> 0 | CW_IncWaiting \<Rightarrow> 0 | CW_LoadValue \<Rightarrow> 0 | CW_StoreValue r \<Rightarrow> 0
              | CW_Print v \<Rightarrow> 0 | CW_IncWaiting2 \<Rightarrow> 0 | CW_Done \<Rightarrow> 0 | _ \<Rightarrow> 1)"
| "cx_wwaits _ = 0"

text \<open>How many times a thread has stored \<open>value\<close>, and printed.\<close>

fun cx_stored :: "cthread \<Rightarrow> int" where
  "cx_stored (CWriter num i pc) =
     int i + (case pc of CW_Print v \<Rightarrow> 1 | CW_IncWaiting2 \<Rightarrow> 1 | CW_LoadDown \<Rightarrow> 1 | CW_StoreDown r \<Rightarrow> 1
              | CW_SetRead \<Rightarrow> 1 | CW_Unlock2 \<Rightarrow> 1 | _ \<Rightarrow> 0)"
| "cx_stored _ = 0"

fun cx_printed :: "cthread \<Rightarrow> int" where
  "cx_printed (CWriter num i pc) =
     int i + (case pc of CW_IncWaiting2 \<Rightarrow> 1 | CW_LoadDown \<Rightarrow> 1 | CW_StoreDown r \<Rightarrow> 1
              | CW_SetRead \<Rightarrow> 1 | CW_Unlock2 \<Rightarrow> 1 | _ \<Rightarrow> 0)"
| "cx_printed (CReader num i pc) =
     int i + (case pc of CR_DecActive \<Rightarrow> 1 | CR_LoadDown \<Rightarrow> 1 | CR_StoreDown r \<Rightarrow> 1
              | CR_SetWrite \<Rightarrow> 1 | CR_Unlock2 \<Rightarrow> 1 | _ \<Rightarrow> 0)"
| "cx_printed CNull = 0"

text \<open>The loop variables.\<close>

fun cx_loop_ok :: "cthread \<Rightarrow> bool" where
  "cx_loop_ok CNull = True"
| "cx_loop_ok (CWriter num i pc) = (if pc = CW_Loop then i \<le> cx_ITER else if pc = CW_Done then i = cx_ITER else i < cx_ITER)"
| "cx_loop_ok (CReader num i pc) = (if pc = CR_Loop then i \<le> cx_ITER else if pc = CR_Done then i = cx_ITER else i < cx_ITER)"

text \<open>The thread that owns the mutex; what its registers hold, and whether it has \<open>event_read\<close> or
  \<open>event_write\<close> reset ahead of the counter, or a stored value that is not printed yet.\<close>

definition cx_inside :: "cx_state \<Rightarrow> cthread" where
  "cx_inside s = (case single_mut s of Some (Owned t k) \<Rightarrow> cx_threads s ! t | _ \<Rightarrow> CNull)"

fun cx_regs :: "32 word \<Rightarrow> 32 word \<Rightarrow> 32 word \<Rightarrow> cthread \<Rightarrow> bool" where
  "cx_regs w r v (CWriter num i pc) =
     (case pc of CW_StoreUp x \<Rightarrow> x = w | CW_StoreDown x \<Rightarrow> x = w | CW_StoreValue x \<Rightarrow> x = v
      | CW_Print x \<Rightarrow> x = v | CW_SetRead \<Rightarrow> w = 0 | _ \<Rightarrow> True)"
| "cx_regs w r v (CReader num i pc) =
     (case pc of CR_StoreUp x \<Rightarrow> x = r | CR_StoreDown x \<Rightarrow> x = r | CR_SetWrite \<Rightarrow> r = 0 | _ \<Rightarrow> True)"
| "cx_regs w r v CNull = True"

fun cx_read_off :: "cthread \<Rightarrow> bool" where
  "cx_read_off (CWriter num i pc) = (case pc of CW_LoadUp \<Rightarrow> True | CW_StoreUp r \<Rightarrow> True | CW_SetRead \<Rightarrow> True | _ \<Rightarrow> False)"
| "cx_read_off _ = False"

fun cx_write_off :: "cthread \<Rightarrow> bool" where
  "cx_write_off (CReader num i pc) = (case pc of CR_LoadUp \<Rightarrow> True | CR_StoreUp r \<Rightarrow> True | CR_SetWrite \<Rightarrow> True | _ \<Rightarrow> False)"
| "cx_write_off _ = False"

fun cx_printing :: "cthread \<Rightarrow> bool" where
  "cx_printing (CWriter num i pc) = (case pc of CW_Print v \<Rightarrow> True | _ \<Rightarrow> False)"
| "cx_printing _ = False"

text \<open>The lines printed are a history of one register: every line of a writer is one more than the line
  of the writer before, every line of a reader repeats it. \<open>cx_latest\<close> is the value of the register.\<close>

fun cx_latest :: "32 word \<Rightarrow> cevent list \<Rightarrow> 32 word" where
  "cx_latest v [] = v"
| "cx_latest v (Writer_Wrote n x # es) = cx_latest x es"
| "cx_latest v (Reader_Read n x # es) = cx_latest v es"

fun cx_history :: "32 word \<Rightarrow> cevent list \<Rightarrow> bool" where
  "cx_history v [] = True"
| "cx_history v (Writer_Wrote n x # es) = (x = v + 1 \<and> cx_history x es)"
| "cx_history v (Reader_Read n x # es) = (x = v \<and> cx_history v es)"

lemma cx_latest_snoc [simp]:
  "cx_latest v (es @ [Writer_Wrote n x]) = x" "cx_latest v (es @ [Reader_Read n x]) = cx_latest v es"
  by (induction v es rule: cx_latest.induct) auto

lemma cx_history_snoc [simp]:
  "cx_history v (es @ [Writer_Wrote n x]) \<longleftrightarrow> cx_history v es \<and> x = cx_latest v es + 1"
  "cx_history v (es @ [Reader_Read n x]) \<longleftrightarrow> cx_history v es \<and> x = cx_latest v es"
  by (induction v es rule: cx_history.induct) auto

section \<open>The parts of the invariant\<close>

text \<open>What holds whether or not the mutex exists.\<close>

definition cx_base :: "cx_state \<Rightarrow> bool" where
  "cx_base s \<longleftrightarrow>
     (\<forall>p \<in> set (cx_threads s). cx_loop_ok p) \<and>
     cx_waiting_writers s = of_int (tally cx_wwaits (cx_threads s)) \<and>
     cx_waiting_readers s = of_int (tally cx_rwaits (cx_threads s)) \<and>
     cx_active_readers s = of_int (tally cx_active (cx_threads s)) \<and>
     int (length (cx_out s)) = tally cx_printed (cx_threads s)"

definition cx_phase :: "cx_state \<Rightarrow> bool" where
  "cx_phase s \<longleftrightarrow>
     length (cx_threads s) \<le> cx_WRITERS + cx_READERS \<and>
     (cx_main s \<in> {CM_Mutex, CM_EventRead, CM_EventWrite} \<longrightarrow>
        (\<exists>m er pc. s = cx_start\<lparr>single_mut := m, event_read := er, cx_main := pc\<rparr> \<and>
           (m = None \<or> m = Some Free) \<and> (er = None \<or> er = Some True))) \<and>
     (cx_main s \<in> {CM_WaitWriters, CM_WaitReaders, CM_Returned} \<longrightarrow>
        length (cx_threads s) = cx_WRITERS + cx_READERS) \<and>
     (cx_main s \<in> {CM_WaitReaders, CM_Returned} \<longrightarrow> cx_joined (take cx_WRITERS (cx_threads s))) \<and>
     (cx_main s = CM_Returned \<longrightarrow> cx_joined (drop cx_WRITERS (cx_threads s)))"

text \<open>What the mutex gives: who owns it, the counters of threads inside, the events, the value.\<close>

definition cx_owned :: "cx_state \<Rightarrow> bool" where
  "cx_owned s \<longleftrightarrow>
     (case single_mut s of
        None \<Rightarrow> False
      | Some Free \<Rightarrow> tally cx_holds (cx_threads s) = 0
      | Some (Owned t k) \<Rightarrow> k = 1 \<and> t < length (cx_threads s) \<and> cx_holds (cx_threads s ! t) = 1 \<and>
          tally cx_holds (cx_threads s) = 1)"

definition cx_counted :: "cx_state \<Rightarrow> bool" where
  "cx_counted s \<longleftrightarrow>
     writ_count s = of_int (tally cx_writes (cx_threads s)) \<and>
     read_count s = of_int (tally cx_reads (cx_threads s)) \<and>
     cx_value s = of_int (tally cx_stored (cx_threads s))"

definition cx_guarded :: "cx_state \<Rightarrow> bool" where
  "cx_guarded s \<longleftrightarrow>
     cx_regs (writ_count s) (read_count s) (cx_value s) (cx_inside s) \<and>
     (\<forall>b. event_read s = Some b \<longrightarrow> b = (writ_count s = 0 \<and> \<not> cx_read_off (cx_inside s))) \<and>
     (\<forall>b. event_write s = Some b \<longrightarrow> b = (read_count s = 0 \<and> \<not> cx_write_off (cx_inside s))) \<and>
     cx_history 0 (cx_out s) \<and>
     cx_latest 0 (cx_out s) + (if cx_printing (cx_inside s) then 1 else 0) = cx_value s"

definition cx_core :: "cx_state \<Rightarrow> bool" where
  "cx_core s \<longleftrightarrow> cx_owned s \<and> cx_counted s \<and> cx_guarded s"

definition cx_inv :: "cx_state \<Rightarrow> bool" where
  "cx_inv s \<longleftrightarrow> cx_base s \<and> cx_phase s \<and> (single_mut s \<noteq> None \<longrightarrow> cx_core s)"

lemma cx_weights_nonneg [simp]:
  "0 \<le> cx_holds p" "0 \<le> cx_writes p" "0 \<le> cx_reads p" "0 \<le> cx_active p"
  by (cases p rule: cx_holds.cases; simp split: cwriter_pc.split creader_pc.split)+

lemma cx_weights_le:
  "cx_writes p \<le> 1" "cx_reads p \<le> 1" "cx_active p \<le> cx_holds p"
  by (cases p rule: cx_holds.cases; simp split: cwriter_pc.split creader_pc.split)+

lemma word_of_count: "0 \<le> n \<Longrightarrow> n \<le> 10 \<Longrightarrow> (of_int n :: 32 word) = 0 \<longleftrightarrow> n = 0"
  by (auto simp: word_of_int_eq_0_iff dest: zdvd_imp_le)

lemma cx_counts_bounded:
  assumes "cx_phase s"
  shows "tally cx_writes (cx_threads s) \<le> 9" "tally cx_reads (cx_threads s) \<le> 9"
  using assms tally_le_length [of cx_writes "cx_threads s"] tally_le_length [of cx_reads "cx_threads s"]
  by (auto simp: cx_phase_def cx_weights_le cx_WRITERS_def cx_READERS_def)

lemma cx_count_zero:
  assumes "cx_phase s" "cx_counted s"
  shows "writ_count s = 0 \<longleftrightarrow> tally cx_writes (cx_threads s) = 0" "writ_count s + 1 \<noteq> 0"
    "read_count s = 0 \<longleftrightarrow> tally cx_reads (cx_threads s) = 0" "read_count s + 1 \<noteq> 0"
proof -
  have nn: "0 \<le> tally cx_writes (cx_threads s)" "0 \<le> tally cx_reads (cx_threads s)"
    by (auto intro: tally_nonneg)
  show "writ_count s = 0 \<longleftrightarrow> tally cx_writes (cx_threads s) = 0" "read_count s = 0 \<longleftrightarrow> tally cx_reads (cx_threads s) = 0"
    using nn cx_counts_bounded [OF assms(1)] assms(2) by (simp_all add: cx_counted_def word_of_count)
  have "of_int (tally cx_writes (cx_threads s) + 1) \<noteq> (0 :: 32 word)"
    "of_int (tally cx_reads (cx_threads s) + 1) \<noteq> (0 :: 32 word)"
    using nn cx_counts_bounded [OF assms(1)] by (subst word_of_count; linarith)+
  then show "writ_count s + 1 \<noteq> 0" "read_count s + 1 \<noteq> 0" using assms(2) by (simp_all add: cx_counted_def)
qed

text \<open>A thread that holds the mutex owns it.\<close>

lemma cx_holder_owns:
  assumes "cx_owned s" "j < length (cx_threads s)" "cx_holds (cx_threads s ! j) = 1"
  shows "single_mut s = Some (Owned j 1)"
proof -
  from assms have "1 \<le> tally cx_holds (cx_threads s)" using tally_ge_one [of cx_holds j "cx_threads s"] by simp
  with assms(1) obtain t where t: "single_mut s = Some (Owned t 1)" "t < length (cx_threads s)"
    "cx_holds (cx_threads s ! t) = 1" "tally cx_holds (cx_threads s) = 1"
    by (auto simp: cx_owned_def split: option.splits win_mutex.splits)
  then have "t = j" using assms tally_ge_two [of cx_holds t "cx_threads s" j] by fastforce
  with t show ?thesis by simp
qed

lemma cx_other_owns:
  assumes "cx_owned s" "single_mut s = Some (Owned t k)" shows "cx_holds (cx_threads s ! t) = 1" "k = 1"
  using assms by (auto simp: cx_owned_def)

section \<open>Steps keep it\<close>

text \<open>The state after a step of thread \<open>j\<close> has its new place in the list.\<close>

lemma cx_execE:
  assumes "cx_exec j s = Some t"
  obtains num i pc pc' u where "j < length (cx_threads s)" "cx_threads s ! j = CWriter num i pc"
      "cwriter j num i pc s = Some (pc', u)"
      "t = u\<lparr>cx_threads := (cx_threads u)[j := CWriter num (if pc = CW_Unlock2 then Suc i else i) pc']\<rparr>"
  | num i pc pc' u where "j < length (cx_threads s)" "cx_threads s ! j = CReader num i pc"
      "creader j num i pc s = Some (pc', u)"
      "t = u\<lparr>cx_threads := (cx_threads u)[j := CReader num (if pc = CR_Unlock2 then Suc i else i) pc']\<rparr>"
proof -
  from assms have j: "j < length (cx_threads s)" by (auto simp: cx_exec_def split: if_splits)
  with assms obtain p u where u: "cthread_step j (cx_threads s ! j) s = Some (p, u)"
    "t = u\<lparr>cx_threads := (cx_threads u)[j := p]\<rparr>" by (auto simp: cx_exec_def)
  show thesis
  proof (cases "cx_threads s ! j")
    case (CWriter num i pc)
    with u j that(1) show thesis by (auto split: if_splits)
  next
    case (CReader num i pc)
    with u j that(2) show thesis by (auto split: if_splits)
  qed (use u in simp)
qed

lemma cwriter_keeps:
  "cwriter j num i pc s = Some (pc', u) \<Longrightarrow> cx_threads u = cx_threads s \<and> cx_main u = cx_main s"
  by (cases pc) (auto split: if_splits option.splits win_mutex.splits)

lemma creader_keeps:
  "creader j num i pc s = Some (pc', u) \<Longrightarrow> cx_threads u = cx_threads s \<and> cx_main u = cx_main s"
  by (cases pc) (auto split: if_splits option.splits win_mutex.splits)

lemma cx_base_exec:
  assumes "cx_base s" "cx_exec j s = Some t" shows "cx_base t"
  using assms(2)
proof (cases rule: cx_execE)
  case (1 num i pc pc' u)
  then have ok: "cx_loop_ok (CWriter num i pc)" using assms(1) by (metis cx_base_def nth_mem)
  then have "cx_loop_ok (CWriter num (if pc = CW_Unlock2 then Suc i else i) pc')"
    using 1(3) by (cases pc) (auto split: if_splits option.splits win_mutex.splits)
  then have "\<forall>p \<in> set (cx_threads t). cx_loop_ok p"
    unfolding 1(4) using assms(1) cwriter_keeps [OF 1(3)] by (auto simp: cx_base_def simp del: cx_loop_ok.simps dest!: set_update_subset_insert [THEN subsetD])
  with assms(1) 1 show ?thesis
    by (cases pc) (auto simp: cx_base_def tally_update split: if_splits option.splits win_mutex.splits)
next
  case (2 num i pc pc' u)
  then have ok: "cx_loop_ok (CReader num i pc)" using assms(1) by (metis cx_base_def nth_mem)
  then have "cx_loop_ok (CReader num (if pc = CR_Unlock2 then Suc i else i) pc')"
    using 2(3) by (cases pc) (auto split: if_splits option.splits win_mutex.splits)
  then have "\<forall>p \<in> set (cx_threads t). cx_loop_ok p"
    unfolding 2(4) using assms(1) creader_keeps [OF 2(3)] by (auto simp: cx_base_def simp del: cx_loop_ok.simps dest!: set_update_subset_insert [THEN subsetD])
  with assms(1) 2 show ?thesis
    by (cases pc) (auto simp: cx_base_def tally_update split: if_splits option.splits win_mutex.splits)
qed

lemma cx_counted_exec:
  assumes own: "cx_owned s" and cnt: "cx_counted s" and g: "cx_guarded s" and ex: "cx_exec j s = Some t"
  shows "cx_counted t"
  using ex
proof (cases rule: cx_execE)
  case (1 num i pc pc' u)
  then have "cx_regs (writ_count s) (read_count s) (cx_value s) (CWriter num i pc)"
    using g cx_holder_owns [OF own 1(1)]
    by (cases pc) (simp_all add: cx_guarded_def cx_inside_def)
  with cnt 1 show ?thesis
    by (cases pc) (auto simp: cx_counted_def tally_update split: if_splits option.splits win_mutex.splits)
next
  case (2 num i pc pc' u)
  then have "cx_regs (writ_count s) (read_count s) (cx_value s) (CReader num i pc)"
    using g cx_holder_owns [OF own 2(1)]
    by (cases pc) (simp_all add: cx_guarded_def cx_inside_def)
  with cnt 2 show ?thesis
    by (cases pc) (auto simp: cx_counted_def tally_update split: if_splits option.splits win_mutex.splits)
qed

lemma cx_owned_exec:
  assumes own: "cx_owned s" and ex: "cx_exec j s = Some t"
  shows "cx_owned t"
  using ex
proof (cases rule: cx_execE)
  case (1 num i pc pc' u)
  with own cx_holder_owns [OF own 1(1)] show ?thesis
    by (cases pc)
      (auto simp: cx_owned_def tally_update nth_list_update split: if_splits option.splits win_mutex.splits)
next
  case (2 num i pc pc' u)
  with own cx_holder_owns [OF own 2(1)] show ?thesis
    by (cases pc)
      (auto simp: cx_owned_def tally_update nth_list_update split: if_splits option.splits win_mutex.splits)
qed

lemma cx_counted_self:
  assumes "cx_phase s" "cx_counted s" "j < length (cx_threads s)"
  shows "cx_writes (cx_threads s ! j) = 1 \<Longrightarrow> writ_count s \<noteq> 0"
    "cx_reads (cx_threads s ! j) = 1 \<Longrightarrow> read_count s \<noteq> 0"
  using cx_count_zero [OF assms(1,2)] tally_ge_one [OF _ assms(3), of cx_writes]
    tally_ge_one [OF _ assms(3), of cx_reads] by fastforce+

lemma cx_outside_exec:
  assumes own: "cx_owned s" and g: "cx_guarded s"
    and j: "j < length (cx_threads s)" "cx_holds (cx_threads s ! j) = 0"
  shows "cx_guarded (s\<lparr>cx_threads := (cx_threads s)[j := p]\<rparr>)"
    "cx_guarded (s\<lparr>cx_waiting_writers := x, cx_threads := (cx_threads s)[j := p]\<rparr>)"
    "cx_guarded (s\<lparr>cx_waiting_readers := x, cx_threads := (cx_threads s)[j := p]\<rparr>)"
proof -
  have "cx_inside (s\<lparr>cx_threads := (cx_threads s)[j := p]\<rparr>) = cx_inside s"
    "cx_inside (s\<lparr>cx_waiting_writers := x, cx_threads := (cx_threads s)[j := p]\<rparr>) = cx_inside s"
    "cx_inside (s\<lparr>cx_waiting_readers := x, cx_threads := (cx_threads s)[j := p]\<rparr>) = cx_inside s"
    using own j by (auto simp: cx_inside_def cx_owned_def nth_list_update split: option.splits win_mutex.splits)
  with g show "cx_guarded (s\<lparr>cx_threads := (cx_threads s)[j := p]\<rparr>)"
    "cx_guarded (s\<lparr>cx_waiting_writers := x, cx_threads := (cx_threads s)[j := p]\<rparr>)"
    "cx_guarded (s\<lparr>cx_waiting_readers := x, cx_threads := (cx_threads s)[j := p]\<rparr>)"
    by (simp_all add: cx_guarded_def)
qed

lemma cx_lock_exec:
  assumes own: "cx_owned s" and g: "cx_guarded s"
    and j: "j < length (cx_threads s)" "cx_holds (cx_threads s ! j) = 0" and l: "cx_lock j s = Some u"
    and p: "cx_regs (writ_count s) (read_count s) (cx_value s) p" "\<not> cx_read_off p" "\<not> cx_write_off p"
      "\<not> cx_printing p"
  shows "cx_guarded (u\<lparr>cx_threads := (cx_threads u)[j := p]\<rparr>)"
proof -
  have f: "single_mut s = Some Free" "u = s\<lparr>single_mut := Some (Owned j 1)\<rparr>"
    using own l j by (auto simp: cx_owned_def split: option.splits win_mutex.splits if_splits)
  then have "cx_inside s = CNull" "cx_inside (u\<lparr>cx_threads := (cx_threads u)[j := p]\<rparr>) = p"
    using j by (simp_all add: cx_inside_def)
  with g p show ?thesis by (simp add: cx_guarded_def f)
qed

lemma cx_guarded_exec:
  assumes own: "cx_owned s" and cnt: "cx_counted s" and g: "cx_guarded s" and ph: "cx_phase s"
    and ex: "cx_exec j s = Some t"
  shows "cx_guarded t"
  using ex
proof (cases rule: cx_execE)
  case (1 num i pc pc' u)
  show ?thesis
  proof (cases "cx_holds (cx_threads s ! j) = 0")
    case True
    with 1 show ?thesis using cx_outside_exec [OF own g 1(1) True] cx_lock_exec [OF own g 1(1) True]
      by (cases pc) (auto simp del: cx_lock.simps split: if_splits)
  next
    case False
    then have o: "single_mut s = Some (Owned j 1)" using 1 cx_holder_owns [OF own 1(1)] by (auto split: if_splits)
    then have "cx_inside s = CWriter num i pc" using 1 by (simp add: cx_inside_def)
    with 1 False g o show ?thesis using cx_counted_self(1) [OF ph cnt 1(1)] cx_count_zero(2) [OF ph cnt]
      by (cases pc) (auto simp: cx_guarded_def cx_inside_def cx_signal_def split: if_splits)
  qed
next
  case (2 num i pc pc' u)
  show ?thesis
  proof (cases "cx_holds (cx_threads s ! j) = 0")
    case True
    with 2 show ?thesis using cx_outside_exec [OF own g 2(1) True] cx_lock_exec [OF own g 2(1) True]
      by (cases pc) (auto simp del: cx_lock.simps split: if_splits)
  next
    case False
    then have o: "single_mut s = Some (Owned j 1)" using 2 cx_holder_owns [OF own 2(1)] by (auto split: if_splits)
    then have "cx_inside s = CReader num i pc" using 2 by (simp add: cx_inside_def)
    with 2 False g o show ?thesis using cx_counted_self(2) [OF ph cnt 2(1)] cx_count_zero(4) [OF ph cnt]
      by (cases pc) (auto simp: cx_guarded_def cx_inside_def cx_signal_def split: if_splits)
  qed
qed

end
