(* ===== verification/Monitor_Cpp_Facts.thy ===== *)
theory Monitor_Cpp_Facts
  imports Monitor_Cpp
begin

text \<open>
  The steps of the main thread of \<open>5-semestr/lab6/main.cpp\<close>, the end of every run, and what the program
  does: exclusion, the events, no deadlock, the final state, and what a missing mutex breaks.
\<close>

section \<open>The phases of the program\<close>

lemma cx_joined_update:
  assumes "cx_joined ts" "j < length ts \<Longrightarrow> ts ! j \<noteq> CNull \<and> \<not> cx_done (ts ! j)"
  shows "cx_joined (ts[j := p])"
proof (cases "j < length ts")
  case True
  with assms have "CNull \<in> set ts" by (auto simp: cx_joined_def)
  then obtain k where k: "k < length ts" "ts ! k = CNull" by (auto simp: in_set_conv_nth)
  with assms(2) have "k \<noteq> j" by auto
  with k have "ts[j := p] ! k = CNull" "k < length (ts[j := p])" by simp_all
  then have "CNull \<in> set (ts[j := p])" by (metis nth_mem)
  then show ?thesis by (simp add: cx_joined_def)
next
  case False
  with assms show ?thesis by (simp add: list_update_beyond)
qed

lemma cx_exec_moves:
  assumes "cx_exec j s = Some t"
  shows "j < length (cx_threads s) \<and> cx_threads s ! j \<noteq> CNull \<and> \<not> cx_done (cx_threads s ! j) \<and>
    cx_main t = cx_main s \<and> (\<exists>p. p \<noteq> CNull \<and> cx_threads t = (cx_threads s)[j := p])"
  using assms
proof (cases rule: cx_execE)
  case (1 num i pc pc' u)
  then show ?thesis using cwriter_keeps [OF 1(3)] by (auto split: if_splits)
next
  case (2 num i pc pc' u)
  then show ?thesis using creader_keeps [OF 2(3)] by (auto split: if_splits)
qed

lemma cx_phase_exec:
  assumes ph: "cx_phase s" and ex: "cx_exec j s = Some t"
  shows "cx_phase t"
proof -
  obtain p where p: "j < length (cx_threads s)" "cx_threads s ! j \<noteq> CNull" "\<not> cx_done (cx_threads s ! j)"
    "cx_main t = cx_main s" "cx_threads t = (cx_threads s)[j := p]"
    using cx_exec_moves [OF ex] by blast
  have l: "length (cx_threads s) \<le> cx_WRITERS + cx_READERS" using ph by (simp add: cx_phase_def)
  have "cx_joined (take cx_WRITERS (cx_threads t))" if "cx_joined (take cx_WRITERS (cx_threads s))"
    using p that cx_joined_update [of "take cx_WRITERS (cx_threads s)" j p]
    by (cases "j < cx_WRITERS") (auto simp: take_update_swap)
  moreover have "cx_joined (drop cx_WRITERS (cx_threads t))" if "cx_joined (drop cx_WRITERS (cx_threads s))"
    using p that cx_joined_update [of "drop cx_WRITERS (cx_threads s)" "j - cx_WRITERS" p]
    by (cases "j < cx_WRITERS") (auto simp: drop_update_swap)
  moreover have "cx_main s \<notin> {CM_Mutex, CM_EventRead, CM_EventWrite}"
  proof
    assume "cx_main s \<in> {CM_Mutex, CM_EventRead, CM_EventWrite}"
    with ph obtain m er pc where "s = cx_start\<lparr>single_mut := m, event_read := er, cx_main := pc\<rparr>"
      unfolding cx_phase_def by blast
    with p(1) show False by (simp add: cx_start_def)
  qed
  moreover have "cx_main s \<in> {CM_WaitWriters, CM_WaitReaders, CM_Returned} \<longrightarrow> length (cx_threads s) = cx_WRITERS + cx_READERS"
    "cx_main s \<in> {CM_WaitReaders, CM_Returned} \<longrightarrow> cx_joined (take cx_WRITERS (cx_threads s))"
    "cx_main s = CM_Returned \<longrightarrow> cx_joined (drop cx_WRITERS (cx_threads s))"
    using ph unfolding cx_phase_def by blast+
  moreover have "length (cx_threads t) = length (cx_threads s)" using p by simp
  ultimately show ?thesis using l unfolding cx_phase_def p(4) by simp
qed

lemma cx_init_inv:
  assumes "m = None \<or> m = Some Free" "er = None \<or> er = Some True" "ew = None \<or> ew = Some True"
    and "pc = CM_Create \<or> pc \<in> {CM_Mutex, CM_EventRead, CM_EventWrite} \<and> ew = None"
  shows "cx_inv \<lparr>single_mut = m, event_read = er, event_write = ew, read_count = 0, writ_count = 0, cx_value = 0,
    cx_active_readers = 0, cx_waiting_readers = 0, cx_waiting_writers = 0, cx_out = [], cx_threads = [], cx_main = pc\<rparr>"
    (is "cx_inv ?s")
proof -
  have "cx_base ?s" by (simp add: cx_base_def cx_start_def)
  moreover have "cx_phase ?s" using assms by (auto simp: cx_phase_def cx_start_def)
  moreover have "cx_core ?s" if "m \<noteq> None" using that assms(1-3)
    by (auto simp: cx_core_def cx_owned_def cx_counted_def cx_guarded_def cx_inside_def cx_start_def)
  ultimately show ?thesis by (simp add: cx_inv_def)
qed

lemma cx_main_keeps:
  assumes inv: "cx_inv s" and m: "cx_main_at ok (cx_main s) s = Some t" shows "cx_inv t"
proof (cases "cx_main s \<in> {CM_Mutex, CM_EventRead, CM_EventWrite}")
  case True
  with inv obtain m er pc where "s = cx_start\<lparr>single_mut := m, event_read := er, cx_main := pc\<rparr>"
    and o: "m = None \<or> m = Some Free" "er = None \<or> er = Some True"
    unfolding cx_inv_def cx_phase_def by blast
  then have "s = cx_start\<lparr>single_mut := m, event_read := er, event_write := None, cx_main := pc\<rparr>"
    by (simp add: cx_start_def)
  then show ?thesis using True m o
    by (cases pc) (auto intro!: cx_init_inv simp: cx_start_def)
next
  case False
  have ins: "cx_inside (s\<lparr>cx_threads := cx_threads s @ [p]\<rparr>) = cx_inside s" if "cx_core s" for p
    using that by (auto simp: cx_core_def cx_inside_def cx_owned_def nth_append split: option.splits win_mutex.splits)
  have app: "cx_inv (s\<lparr>cx_threads := cx_threads s @ [p]\<rparr>)"
    if "p = CNull \<or> p = cx_thread n" "length (cx_threads s) < cx_WRITERS + cx_READERS" "cx_main s = CM_Create" for p n
    using inv that ins [of p]
    by (auto simp: cx_inv_def cx_base_def cx_phase_def cx_core_def cx_owned_def cx_counted_def cx_guarded_def
        cx_thread_def nth_append split: option.splits win_mutex.splits if_splits)
  have i: "cx_inside (s\<lparr>cx_main := x\<rparr>) = cx_inside s" "cx_owned (s\<lparr>cx_main := x\<rparr>) = cx_owned s" for x
    by (simp_all add: cx_inside_def cx_owned_def split: option.split win_mutex.split)
  have go: "cx_inv (s\<lparr>cx_main := x\<rparr>)" if "cx_phase (s\<lparr>cx_main := x\<rparr>)" for x
  proof -
    have "cx_base (s\<lparr>cx_main := x\<rparr>) = cx_base s" "cx_counted (s\<lparr>cx_main := x\<rparr>) = cx_counted s"
      "cx_guarded (s\<lparr>cx_main := x\<rparr>) = cx_guarded s"
      by (simp_all add: cx_base_def cx_counted_def cx_guarded_def i)
    with inv that show ?thesis by (simp add: cx_inv_def cx_core_def i)
  qed
  have ph: "length (cx_threads s) \<le> cx_WRITERS + cx_READERS"
    "cx_main s \<in> {CM_WaitWriters, CM_WaitReaders} \<Longrightarrow> length (cx_threads s) = cx_WRITERS + cx_READERS"
    "cx_main s = CM_WaitReaders \<Longrightarrow> cx_joined (take cx_WRITERS (cx_threads s))"
    using inv unfolding cx_inv_def cx_phase_def by blast+
  show ?thesis
  proof (cases "cx_main s")
    case CM_Create
    with m app [of "if ok then cx_thread (length (cx_threads s)) else CNull" "length (cx_threads s)"] go [of CM_WaitWriters] ph
    show ?thesis by (auto simp: Let_def cx_phase_def split: if_splits)
  next
    case CM_WaitWriters
    with m ph(2) go [of CM_WaitReaders] show ?thesis by (auto simp: cx_phase_def split: if_splits)
  next
    case CM_WaitReaders
    with m ph(2,3) go [of CM_Returned] show ?thesis by (auto simp: cx_phase_def split: if_splits)
  qed (use False m in auto)
qed

lemma cx_single_mut_exec: "cx_exec j s = Some t \<Longrightarrow> single_mut t = None \<longleftrightarrow> single_mut s = None"
proof (erule cx_execE)
  fix num i pc pc' u
  assume "cwriter j num i pc s = Some (pc', u)"
    "t = u\<lparr>cx_threads := (cx_threads u)[j := CWriter num (if pc = CW_Unlock2 then Suc i else i) pc']\<rparr>"
  then show ?thesis by (cases pc) (auto split: if_splits option.splits win_mutex.splits)
next
  fix num i pc pc' u
  assume "creader j num i pc s = Some (pc', u)"
    "t = u\<lparr>cx_threads := (cx_threads u)[j := CReader num (if pc = CR_Unlock2 then Suc i else i) pc']\<rparr>"
  then show ?thesis by (cases pc) (auto split: if_splits option.splits win_mutex.splits)
qed

lemma cx_inv_exec:
  assumes "cx_inv s" "cx_exec j s = Some t" shows "cx_inv t"
  using assms(1) cx_base_exec [OF _ assms(2)] cx_phase_exec [OF _ assms(2)] cx_owned_exec [OF _ assms(2)]
    cx_counted_exec [OF _ _ _ assms(2)] cx_guarded_exec [OF _ _ _ _ assms(2)] cx_single_mut_exec [OF assms(2)]
  unfolding cx_inv_def cx_core_def by (cases "single_mut s = None") simp_all

interpretation cx: invariant "\<lambda>s. s = cx_start" cx_step cx_inv
proof unfold_locales
  show "cx_inv s" if "s = cx_start" for s
    using that by (auto simp: cx_inv_def cx_base_def cx_phase_def cx_start_def)
  show "cx_inv t" if "cx_inv s" "cx_step s t" for s t
    using that(2) by (cases rule: cx_stepE) (auto intro: cx_inv_exec [OF that(1)] cx_main_keeps [OF that(1)])
qed

section \<open>Every run ends\<close>

text \<open>How many steps a thread has left: 18 in an iteration of a writer, 17 in one of a reader.\<close>

fun cw_left :: "cwriter_pc \<Rightarrow> nat" where
  "cw_left CW_Loop = 0"
| "cw_left CW_Done = 0"
| "cw_left CW_IncWaiting = 18"
| "cw_left CW_Lock = 17"
| "cw_left CW_ResetRead = 16"
| "cw_left CW_LoadUp = 15"
| "cw_left (CW_StoreUp r) = 14"
| "cw_left CW_Unlock = 13"
| "cw_left CW_WaitEvent = 12"
| "cw_left CW_Lock2 = 11"
| "cw_left CW_DecWaiting = 10"
| "cw_left CW_LoadValue = 9"
| "cw_left (CW_StoreValue r) = 8"
| "cw_left (CW_Print v) = 7"
| "cw_left CW_IncWaiting2 = 6"
| "cw_left CW_LoadDown = 5"
| "cw_left (CW_StoreDown r) = 4"
| "cw_left CW_SetRead = 3"
| "cw_left CW_Unlock2 = 2"

fun cr_left :: "creader_pc \<Rightarrow> nat" where
  "cr_left CR_Loop = 0"
| "cr_left CR_Done = 0"
| "cr_left CR_IncWaiting = 17"
| "cr_left CR_WaitEvent = 16"
| "cr_left CR_Lock = 15"
| "cr_left CR_ResetWrite = 14"
| "cr_left CR_LoadUp = 13"
| "cr_left (CR_StoreUp r) = 12"
| "cr_left CR_Unlock = 11"
| "cr_left CR_Lock2 = 10"
| "cr_left CR_DecWaiting = 9"
| "cr_left CR_IncActive = 8"
| "cr_left CR_Print = 7"
| "cr_left CR_DecActive = 6"
| "cr_left CR_LoadDown = 5"
| "cr_left (CR_StoreDown r) = 4"
| "cr_left CR_SetWrite = 3"
| "cr_left CR_Unlock2 = 2"

fun cx_work :: "cthread \<Rightarrow> nat" where
  "cx_work CNull = 0"
| "cx_work (CWriter num i pc) =
     (if pc = CW_Loop then (cx_ITER - i) * 18 + 1 else if pc = CW_Done then 0
      else (cx_ITER - Suc i) * 18 + cw_left pc)"
| "cx_work (CReader num i pc) =
     (if pc = CR_Loop then (cx_ITER - i) * 17 + 1 else if pc = CR_Done then 0
      else (cx_ITER - Suc i) * 17 + cr_left pc)"

fun cx_main_left :: "cmain_pc \<Rightarrow> nat" where
  "cx_main_left CM_Mutex = 6"
| "cx_main_left CM_EventRead = 5"
| "cx_main_left CM_EventWrite = 4"
| "cx_main_left CM_Create = 3"
| "cx_main_left CM_WaitWriters = 2"
| "cx_main_left CM_WaitReaders = 1"
| "cx_main_left CM_Returned = 0"

text \<open>The threads that are not created yet have all their work left.\<close>

definition cx_to_create :: "nat \<Rightarrow> nat" where
  "cx_to_create n = (\<Sum>k\<leftarrow>[n..<cx_WRITERS + cx_READERS]. Suc (cx_work (cx_thread k)))"

definition cx_left :: "cx_state \<Rightarrow> nat" where
  "cx_left s = (\<Sum>p\<leftarrow>cx_threads s. cx_work p) + cx_to_create (length (cx_threads s)) + cx_main_left (cx_main s)"

lemma cx_to_create_step:
  "n < cx_WRITERS + cx_READERS \<Longrightarrow> cx_to_create n = Suc (cx_work (cx_thread n)) + cx_to_create (Suc n)"
  by (simp add: cx_to_create_def upt_conv_Cons)

lemma work_update:
  "i < length xs \<Longrightarrow> f p < (f (xs ! i) :: nat) \<Longrightarrow> (\<Sum>x\<leftarrow>xs[i := p]. f x) < (\<Sum>x\<leftarrow>xs. f x)"
proof (induction xs arbitrary: i)
  case (Cons x xs)
  then show ?case by (cases i) auto
qed simp

lemma cx_work_exec: "cx_exec j s = Some t \<Longrightarrow> \<exists>p. cx_threads t = (cx_threads s)[j := p] \<and>
    cx_work p < cx_work (cx_threads s ! j)"
proof (erule cx_execE)
  fix num i pc pc' u
  assume a: "cx_threads s ! j = CWriter num i pc" "cwriter j num i pc s = Some (pc', u)"
    "t = u\<lparr>cx_threads := (cx_threads u)[j := CWriter num (if pc = CW_Unlock2 then Suc i else i) pc']\<rparr>"
  then have "cx_work (CWriter num (if pc = CW_Unlock2 then Suc i else i) pc') < cx_work (CWriter num i pc)"
    by (cases pc) (auto simp: cx_ITER_def split: if_splits option.splits win_mutex.splits)
  with a cwriter_keeps [OF a(2)] show ?thesis by (auto simp del: cx_work.simps)
next
  fix num i pc pc' u
  assume a: "cx_threads s ! j = CReader num i pc" "creader j num i pc s = Some (pc', u)"
    "t = u\<lparr>cx_threads := (cx_threads u)[j := CReader num (if pc = CR_Unlock2 then Suc i else i) pc']\<rparr>"
  then have "cx_work (CReader num (if pc = CR_Unlock2 then Suc i else i) pc') < cx_work (CReader num i pc)"
    by (cases pc) (auto simp: cx_ITER_def split: if_splits option.splits win_mutex.splits)
  with a creader_keeps [OF a(2)] show ?thesis by (auto simp del: cx_work.simps)
qed

interpretation cx: terminating "\<lambda>s. s = cx_start" cx_step cx_inv cx_left
proof unfold_locales
  show "cx_left t < cx_left s" if "cx_step s t" for s t
    using that
  proof (elim cx_stepE)
    fix j assume e: "cx_exec j s = Some t"
    then obtain p where p: "cx_threads t = (cx_threads s)[j := p]" "cx_work p < cx_work (cx_threads s ! j)"
      using cx_work_exec by blast
    with cx_exec_moves [OF e] work_update [of j "cx_threads s" cx_work p] show ?thesis
      by (simp add: cx_left_def)
  next
    fix ok assume "cx_main_at ok (cx_main s) s = Some t"
    then show ?thesis using cx_to_create_step [of "length (cx_threads s)"]
      by (cases "cx_main s") (auto simp: cx_left_def Let_def split: if_splits)
  qed
qed

section \<open>The slots\<close>

text \<open>Slot \<open>n\<close> of the two arrays has the thread made for it, or a null handle.\<close>

fun cx_kind :: "nat \<Rightarrow> cthread \<Rightarrow> bool" where
  "cx_kind n CNull = True"
| "cx_kind n (CWriter num i pc) = (n < cx_WRITERS \<and> num = n)"
| "cx_kind n (CReader num i pc) = (cx_WRITERS \<le> n \<and> num = n - cx_WRITERS)"

definition cx_slots :: "cx_state \<Rightarrow> bool" where
  "cx_slots s \<longleftrightarrow> (\<forall>n < length (cx_threads s). cx_kind n (cx_threads s ! n))"

lemma cx_slots_exec: "cx_slots s \<Longrightarrow> cx_exec j s = Some t \<Longrightarrow> cx_slots t"
proof (erule cx_execE)
  fix num i pc pc' u
  assume "cx_slots s" "j < length (cx_threads s)" "cx_threads s ! j = CWriter num i pc" "cwriter j num i pc s = Some (pc', u)"
    "t = u\<lparr>cx_threads := (cx_threads u)[j := CWriter num (if pc = CW_Unlock2 then Suc i else i) pc']\<rparr>"
  then show "cx_slots t" using cwriter_keeps [of j num i pc s pc' u] by (auto simp: cx_slots_def nth_list_update)
next
  fix num i pc pc' u
  assume "cx_slots s" "j < length (cx_threads s)" "cx_threads s ! j = CReader num i pc" "creader j num i pc s = Some (pc', u)"
    "t = u\<lparr>cx_threads := (cx_threads u)[j := CReader num (if pc = CR_Unlock2 then Suc i else i) pc']\<rparr>"
  then show "cx_slots t" using creader_keeps [of j num i pc s pc' u] by (auto simp: cx_slots_def nth_list_update)
qed

lemma cx_slots_main: "cx_slots s \<Longrightarrow> cx_main_at ok (cx_main s) s = Some t \<Longrightarrow> cx_slots t"
  by (cases "cx_main s") (auto simp: cx_slots_def Let_def cx_thread_def nth_append less_Suc_eq split: if_splits)

interpretation cx_slots: invariant "\<lambda>s. s = cx_start" cx_step cx_slots
proof unfold_locales
  show "cx_slots s" if "s = cx_start" for s using that by (simp add: cx_slots_def cx_start_def)
  show "cx_slots t" if "cx_slots s" "cx_step s t" for s t
    using that(2) by (cases rule: cx_stepE) (auto intro: cx_slots_exec [OF that(1)] cx_slots_main [OF that(1)])
qed

section \<open>No deadlock\<close>

lemma cx_execI:
  "j < length (cx_threads s) \<Longrightarrow> cthread_step j (cx_threads s ! j) s \<noteq> None \<Longrightarrow> \<exists>t. cx_exec j s = Some t"
  by (auto simp: cx_exec_def)

text \<open>A thread that owns the mutex, or is past the wait, can go on; with the mutex free, only a wait on an
  event stops a thread.\<close>

lemma cx_holder_moves: "cx_holds p = 1 \<Longrightarrow> cthread_step j p s \<noteq> None"
proof (cases p)
  case (CWriter num i pc)
  then show "cx_holds p = 1 \<Longrightarrow> ?thesis" by (cases pc) auto
next
  case (CReader num i pc)
  then show "cx_holds p = 1 \<Longrightarrow> ?thesis" by (cases pc) auto
qed simp

lemma cx_free_moves:
  assumes "single_mut s = Some Free" "p \<noteq> CNull" "\<not> cx_done p"
    and "\<And>num i. p = CWriter num i CW_WaitEvent \<Longrightarrow> cx_passes (event_write s)"
    and "\<And>num i. p = CReader num i CR_WaitEvent \<Longrightarrow> cx_passes (event_read s)"
  shows "cthread_step j p s \<noteq> None"
proof (cases p)
  case (CWriter num i pc)
  with assms show ?thesis by (cases pc) auto
next
  case (CReader num i pc)
  with assms show ?thesis by (cases pc) auto
qed (use assms in simp)

lemma cx_counted_moves:
  assumes "single_mut s = Some Free" "cx_holds p = 0"
  shows "cx_reads p = 1 \<Longrightarrow> cthread_step j p s \<noteq> None"
    "cx_writes p = 1 \<Longrightarrow> cx_passes (event_write s) \<Longrightarrow> cthread_step j p s \<noteq> None"
proof -
  show "cthread_step j p s \<noteq> None" if "cx_reads p = 1"
  proof (cases p)
    case (CReader num i pc)
    with assms that show ?thesis by (cases pc) auto
  qed (use that in auto)
  show "cthread_step j p s \<noteq> None" if "cx_writes p = 1" "cx_passes (event_write s)"
  proof (cases p)
    case (CWriter num i pc)
    with assms that show ?thesis by (cases pc) auto
  qed (use that in auto)
qed

lemma cx_some_counted:
  assumes inv: "cx_inv s" and m: "single_mut s = Some Free"
  shows "read_count s \<noteq> 0 \<Longrightarrow> \<exists>j < length (cx_threads s). cx_reads (cx_threads s ! j) = 1 \<and> cx_holds (cx_threads s ! j) = 0"
    "writ_count s \<noteq> 0 \<Longrightarrow> \<exists>j < length (cx_threads s). cx_writes (cx_threads s ! j) = 1 \<and> cx_holds (cx_threads s ! j) = 0"
proof -
  have c: "cx_core s" "cx_phase s" using inv m by (simp_all add: cx_inv_def)
  have z: "cx_holds (cx_threads s ! j) = 0" if "j < length (cx_threads s)" for j
  proof -
    have "tally cx_holds (cx_threads s) = 0" using c m by (simp add: cx_core_def cx_owned_def)
    then show ?thesis using that tally_zero_iff [of cx_holds "cx_threads s"] by simp
  qed
  have p: "0 < tally cx_reads (cx_threads s)" if "read_count s \<noteq> 0"
    using that cx_count_zero(3) [of s] c tally_nonneg [of "cx_threads s" cx_reads] by (simp add: cx_core_def)
  have q: "0 < tally cx_writes (cx_threads s)" if "writ_count s \<noteq> 0"
    using that cx_count_zero(1) [of s] c tally_nonneg [of "cx_threads s" cx_writes] by (simp add: cx_core_def)
  have one: "0 < cx_reads x \<Longrightarrow> cx_reads x = 1" "0 < cx_writes x \<Longrightarrow> cx_writes x = 1" for x
    using cx_weights_le(1,2) [of x] by linarith+
  show "\<exists>j < length (cx_threads s). cx_reads (cx_threads s ! j) = 1 \<and> cx_holds (cx_threads s ! j) = 0" if "read_count s \<noteq> 0"
    using tally_pos_ex [OF p [OF that]] z one(1) by blast
  show "\<exists>j < length (cx_threads s). cx_writes (cx_threads s ! j) = 1 \<and> cx_holds (cx_threads s ! j) = 0" if "writ_count s \<noteq> 0"
    using tally_pos_ex [OF q [OF that]] z one(2) by blast
qed

lemma cx_events_free:
  assumes "cx_core s" "single_mut s = Some Free"
  shows "cx_passes (event_read s) \<longleftrightarrow> event_read s = None \<or> writ_count s = 0"
    "cx_passes (event_write s) \<longleftrightarrow> event_write s = None \<or> read_count s = 0"
proof -
  have "cx_inside s = CNull" using assms(2) by (simp add: cx_inside_def)
  then show "cx_passes (event_read s) \<longleftrightarrow> event_read s = None \<or> writ_count s = 0"
    "cx_passes (event_write s) \<longleftrightarrow> event_write s = None \<or> read_count s = 0"
    using assms(1) by (cases "event_read s"; cases "event_write s"; auto simp: cx_passes_def cx_core_def cx_guarded_def)+
qed

lemma cx_no_deadlock:
  assumes inv: "cx_inv s" and m: "single_mut s \<noteq> None"
    and j: "j < length (cx_threads s)" "cx_threads s ! j \<noteq> CNull" "\<not> cx_done (cx_threads s ! j)"
  shows "\<exists>k t. cx_exec k s = Some t"
proof (cases "single_mut s = Some Free")
  case False
  with inv m obtain k where "k < length (cx_threads s)" "cx_holds (cx_threads s ! k) = 1"
    by (auto simp: cx_inv_def cx_core_def cx_owned_def split: win_mutex.splits)
  then show ?thesis using cx_execI cx_holder_moves by blast
next
  case True
  have core: "cx_core s" using inv True by (simp add: cx_inv_def)
  show ?thesis
  proof (rule ccontr)
    assume stuck: "\<not> ?thesis"
    then have none: "cthread_step k (cx_threads s ! k) s = None" if "k < length (cx_threads s)" for k
      using that cx_execI by blast
    have w: "cx_passes (event_write s)"
      using cx_some_counted(1) [OF inv True] cx_counted_moves(1) [OF True] none cx_events_free(2) [OF core True] by blast
    moreover have "cx_passes (event_read s)"
      using cx_some_counted(2) [OF inv True] cx_counted_moves(2) [OF True _ _ w] none cx_events_free(1) [OF core True] by blast
    ultimately show False using cx_free_moves [OF True j(2,3)] none [OF j(1)] by blast
  qed
qed

lemma cx_stuck_returned:
  assumes inv: "cx_inv s" and m: "single_mut s \<noteq> None" and stuck: "\<nexists>t. cx_step s t"
  shows "cx_main s = CM_Returned"
proof (rule ccontr)
  assume "cx_main s \<noteq> CM_Returned"
  with stuck have none1: "cx_exec k s \<noteq> Some t" for k t by (blast intro: cx_thread_runs)
  have none2: "cx_main_at True (cx_main s) s = None"
    using stuck by (cases "cx_main_at True (cx_main s) s") (blast intro: cx_main_runs)+
  have "\<not> cx_joined (take cx_WRITERS (cx_threads s)) \<or> \<not> cx_joined (drop cx_WRITERS (cx_threads s))"
    using none2 \<open>cx_main s \<noteq> CM_Returned\<close> by (cases "cx_main s") (auto simp: Let_def split: if_splits)
  then obtain ts where "\<not> cx_joined ts" "set ts \<subseteq> set (cx_threads s)"
    using set_take_subset set_drop_subset by metis
  then obtain p where "p \<in> set (cx_threads s)" "p \<noteq> CNull" "\<not> cx_done p" by (auto simp: cx_joined_def)
  then show False using cx_no_deadlock [OF inv m] none1 by (metis in_set_conv_nth)
qed

text \<open>The threads when all of them have ended.\<close>

definition cx_ended :: "cthread list" where
  "cx_ended = map (\<lambda>n. if n < cx_WRITERS then CWriter n cx_ITER CW_Done else CReader (n - cx_WRITERS) cx_ITER CR_Done)
     [0..<cx_WRITERS + cx_READERS]"

lemma cx_returned_ended:
  assumes inv: "cx_inv s" and sl: "cx_slots s" and r: "cx_main s = CM_Returned" and n: "CNull \<notin> set (cx_threads s)"
  shows "cx_threads s = cx_ended"
proof (rule nth_equalityI)
  have j: "cx_joined (take cx_WRITERS (cx_threads s))" "cx_joined (drop cx_WRITERS (cx_threads s))"
    and l: "length (cx_threads s) = cx_WRITERS + cx_READERS"
    using inv r unfolding cx_inv_def cx_phase_def by blast+
  have "set (take cx_WRITERS (cx_threads s)) \<subseteq> set (cx_threads s)" "set (drop cx_WRITERS (cx_threads s)) \<subseteq> set (cx_threads s)"
    by (auto dest: in_set_takeD in_set_dropD)
  then have "\<forall>p \<in> set (take cx_WRITERS (cx_threads s)) \<union> set (drop cx_WRITERS (cx_threads s)). cx_done p"
    using j n unfolding cx_joined_def by blast
  then have d: "\<forall>p \<in> set (cx_threads s). cx_done p" by (metis append_take_drop_id set_append)
  show "length (cx_threads s) = length cx_ended" using l by (simp add: cx_ended_def)
  show "cx_threads s ! k = cx_ended ! k" if k: "k < length (cx_threads s)" for k
  proof -
    have "cx_done (cx_threads s ! k)" "cx_loop_ok (cx_threads s ! k)" "cx_kind k (cx_threads s ! k)"
      using d k inv sl by (auto simp: cx_inv_def cx_base_def cx_slots_def)
    then show ?thesis using k l by (cases "cx_threads s ! k") (auto simp: cx_ended_def)
  qed
qed

lemma cx_ended_tallies:
  "tally cx_holds cx_ended = 0" "tally cx_writes cx_ended = 0" "tally cx_reads cx_ended = 0"
  "tally cx_active cx_ended = 0" "tally cx_rwaits cx_ended = 0" "tally cx_wwaits cx_ended = 40"
  "tally cx_stored cx_ended = 40" "tally cx_printed cx_ended = 90"
  by (simp_all add: cx_ended_def cx_WRITERS_def cx_READERS_def cx_ITER_def upt_rec)

text \<open>What has come out of the program when it has returned with all its threads.\<close>

definition cx_final :: "cx_state \<Rightarrow> bool" where
  "cx_final s \<longleftrightarrow>
     cx_main s = CM_Returned \<and> cx_threads s = cx_ended \<and> single_mut s = Some Free \<and>
     cx_value s = 40 \<and> length (cx_out s) = 90 \<and> cx_history 0 (cx_out s) \<and> cx_latest 0 (cx_out s) = 40 \<and>
     read_count s = 0 \<and> writ_count s = 0 \<and> cx_active_readers s = 0 \<and> cx_waiting_readers s = 0 \<and>
     cx_waiting_writers s = 40"

lemma cx_returned_final:
  assumes inv: "cx_inv s" and sl: "cx_slots s" and r: "cx_main s = CM_Returned" and n: "CNull \<notin> set (cx_threads s)"
    and m: "single_mut s \<noteq> None"
  shows "cx_final s"
proof -
  have e: "cx_threads s = cx_ended" by (rule cx_returned_ended [OF inv sl r n])
  have b: "cx_base s" and c: "cx_owned s" "cx_counted s" "cx_guarded s" using inv m by (simp_all add: cx_inv_def cx_core_def)
  have f: "single_mut s = Some Free"
    using c(1) e m by (auto simp: cx_owned_def cx_ended_tallies split: option.splits win_mutex.splits)
  then have "cx_inside s = CNull" by (simp add: cx_inside_def)
  with b c e f r show ?thesis
    by (simp add: cx_final_def cx_base_def cx_counted_def cx_guarded_def cx_ended_tallies)
qed

section \<open>Schedules\<close>

datatype cx_choice = Main bool | Thread nat

fun cx_choose :: "cx_choice \<Rightarrow> cx_state \<Rightarrow> cx_state option" where
  "cx_choose (Main ok) s = cx_main_at ok (cx_main s) s"
| "cx_choose (Thread j) s = (if cx_main s = CM_Returned then None else cx_exec j s)"

fun cx_sched :: "cx_choice list \<Rightarrow> cx_state \<Rightarrow> cx_state option" where
  "cx_sched [] s = Some s"
| "cx_sched (c # cs) s = (case cx_choose c s of None \<Rightarrow> None | Some t \<Rightarrow> cx_sched cs t)"

lemma cx_choose_step: "cx_choose c s = Some t \<Longrightarrow> cx_step s t"
  by (cases c) (auto intro: cx_step.intros split: if_splits)

lemma cx_steps_trans: "steps cx_step m t u \<Longrightarrow> steps cx_step n s t \<Longrightarrow> steps cx_step (n + m) s u"
  by (induction rule: steps.induct) (auto intro: steps_Suc)

lemma cx_sched_steps: "cx_sched cs s = Some t \<Longrightarrow> steps cx_step (length cs) s t"
proof (induction cs arbitrary: s)
  case (Cons c cs)
  then obtain u where u: "cx_choose c s = Some u" "cx_sched cs u = Some t" by (auto split: option.splits)
  have "steps cx_step (Suc 0) s u" using cx_choose_step [OF u(1)] by (blast intro: steps_0 steps_Suc)
  from cx_steps_trans [OF Cons.IH [OF u(2)] this] show ?case by simp
qed (simp add: steps_0)

lemma cx_sched_reachable: "cx_reachable s \<Longrightarrow> cx_sched cs s = Some t \<Longrightarrow> cx_reachable t"
  by (blast intro: reachable_steps cx_sched_steps)

text \<open>All objects could be made, and all threads are at their first place.\<close>

definition cx_created :: cx_state where
  "cx_created = cx_start\<lparr>single_mut := Some Free, event_read := Some True, event_write := Some True,
     cx_threads := map cx_thread [0..<9], cx_main := CM_WaitWriters\<rparr>"

lemmas cx_run_simps = cx_start_def cx_thread_def cx_WRITERS_def cx_READERS_def cx_ITER_def cx_exec_def
  cx_signal_def cx_passes_def numeral_eq_Suc Let_def

lemma cx_created_run: "cx_sched (replicate 13 (Main True)) cx_start = Some cx_created"
  by (simp add: cx_created_def cx_run_simps)

text \<open>Without a mutex, two writers load \<open>value\<close> before one of them stores it.\<close>

definition cx_no_lock :: "cx_choice list" where
  "cx_no_lock = Main False # replicate 12 (Main True) @ replicate 11 (Thread 0) @ replicate 11 (Thread 1) @
     [Thread 0, Thread 1, Thread 0, Thread 1]"

lemma cx_no_lock_run:
  "\<exists>t. cx_sched cx_no_lock cx_start = Some t \<and> single_mut t = None \<and> cx_value t = 1 \<and>
       cx_out t = [Writer_Wrote 0 1, Writer_Wrote 1 1]"
  by (simp add: cx_no_lock_def cx_run_simps)

text \<open>From there no null handle can appear.\<close>

definition cx_complete :: "cx_state \<Rightarrow> bool" where
  "cx_complete s \<longleftrightarrow> single_mut s \<noteq> None \<and> CNull \<notin> set (cx_threads s) \<and>
     cx_main s \<in> {CM_WaitWriters, CM_WaitReaders, CM_Returned}"

interpretation cx_complete: invariant "\<lambda>s. s = cx_created" cx_step cx_complete
proof unfold_locales
  show "cx_complete s" if "s = cx_created" for s
    using that by (auto simp: cx_complete_def cx_created_def cx_thread_def)
  show "cx_complete t" if c: "cx_complete s" and st: "cx_step s t" for s t
    using st
  proof (elim cx_stepE)
    fix j assume e: "cx_exec j s = Some t"
    obtain p where p: "p \<noteq> CNull" "cx_threads t = (cx_threads s)[j := p]" "cx_main t = cx_main s"
      using cx_exec_moves [OF e] by blast
    have "CNull \<notin> set (cx_threads t)"
      unfolding p(2) using p(1) c set_update_subset_insert [of "cx_threads s" j p] unfolding cx_complete_def by blast
    moreover have "single_mut t \<noteq> None" using c cx_single_mut_exec [OF e] by (simp add: cx_complete_def)
    ultimately show ?thesis using c by (simp add: cx_complete_def p(3))
  next
    fix ok assume "cx_main_at ok (cx_main s) s = Some t"
    with c show ?thesis by (cases "cx_main s") (auto simp: cx_complete_def split: if_splits)
  qed
qed

section \<open>Properties\<close>

text \<open>C24: exclusion in the C++ variant. In every reachable state in which the mutex could be created,
  whatever other call failed, at most one thread is between taking the mutex and releasing it, so at
  most one reader is active, and the lines printed are a history of one register: each writer prints
  one more than the writer before, each reader prints the value of the last writer.\<close>

theorem cx_exclusion:
  assumes "cx_reachable s" and "single_mut s \<noteq> None"
  shows "tally cx_holds (cx_threads s) \<le> 1 \<and> cx_active_readers s \<in> {0, 1} \<and> cx_history 0 (cx_out s)"
proof -
  have inv: "cx_inv s" using assms(1) by (rule cx.reachable_inv)
  with assms(2) have c: "cx_owned s" "cx_guarded s" by (simp_all add: cx_inv_def cx_core_def)
  then have h: "tally cx_holds (cx_threads s) \<le> 1" by (auto simp: cx_owned_def split: option.splits win_mutex.splits)
  have "tally cx_active (cx_threads s) \<le> 1" "0 \<le> tally cx_active (cx_threads s)"
    using h tally_mono [of "cx_threads s" cx_active cx_holds] by (auto simp: cx_weights_le intro: tally_nonneg)
  then have "tally cx_active (cx_threads s) = 0 \<or> tally cx_active (cx_threads s) = 1" by linarith
  then have "cx_active_readers s \<in> {0, 1}" using inv by (auto simp: cx_inv_def cx_base_def)
  with h c show ?thesis by (simp add: cx_guarded_def)
qed

lemma cx_created_reachable: "cx_reachable cx_created"
  by (rule cx_sched_reachable [OF _ cx_created_run]) (simp add: reach_init)

theorem cx_exclusion_witness:
  "tally cx_holds (cx_threads cx_created) \<le> 1 \<and> cx_active_readers cx_created \<in> {0, 1} \<and> cx_history 0 (cx_out cx_created)"
  by (rule cx_exclusion [OF cx_created_reachable]) (simp add: cx_created_def)

text \<open>C25: the events. While nobody owns the mutex, \<open>event_read\<close> is signalled exactly when no writer is
  between its two changes of \<open>writ_count\<close>, \<open>event_write\<close> exactly when no reader is between its
  changes of \<open>read_count\<close>, and the two counters are these numbers of threads.\<close>

theorem cx_events:
  assumes "cx_reachable s" and "single_mut s = Some Free"
  shows "event_read s \<in> {None, Some (tally cx_writes (cx_threads s) = 0)} \<and>
    event_write s \<in> {None, Some (tally cx_reads (cx_threads s) = 0)} \<and>
    writ_count s = of_int (tally cx_writes (cx_threads s)) \<and> read_count s = of_int (tally cx_reads (cx_threads s))"
proof -
  have inv: "cx_inv s" using assms(1) by (rule cx.reachable_inv)
  with assms(2) have c: "cx_phase s" "cx_counted s" "cx_guarded s" "cx_inside s = CNull"
    by (simp_all add: cx_inv_def cx_core_def cx_inside_def)
  then show ?thesis using cx_count_zero(1,3) [OF c(1,2)] unfolding cx_counted_def cx_guarded_def
    by (cases "event_read s"; cases "event_write s") simp_all
qed

theorem cx_events_witness:
  "event_read cx_created \<in> {None, Some (tally cx_writes (cx_threads cx_created) = 0)} \<and>
    event_write cx_created \<in> {None, Some (tally cx_reads (cx_threads cx_created) = 0)} \<and>
    writ_count cx_created = of_int (tally cx_writes (cx_threads cx_created)) \<and>
    read_count cx_created = of_int (tally cx_reads (cx_threads cx_created))"
  by (rule cx_events [OF cx_created_reachable]) (simp add: cx_created_def)

text \<open>C23: the C++ variant ends. No run takes more than 1594 steps. If the mutex could be created, a run
  that cannot go on has returned from \<open>main\<close>: there is no deadlock. If every thread could be created too,
  all threads have done their iterations, \<open>value\<close> is 40, 90 lines have been printed, the mutex is free and
  the counters are back to zero, except \<open>waiting_writers\<close>, which is 40.\<close>

theorem cx_completes:
  assumes "steps cx_step n cx_start t"
  shows "n \<le> 1594 \<and>
    ((\<nexists>u. cx_step t u) \<and> single_mut t \<noteq> None \<longrightarrow>
       cx_main t = CM_Returned \<and> (CNull \<notin> set (cx_threads t) \<longrightarrow> cx_final t))"
proof (intro conjI impI)
  have r: "cx_reachable t" using assms by (rule reachable_steps) (simp add: reach_init)
  have inv: "cx_inv t" "cx_slots t" using r by (rule cx.reachable_inv, rule cx_slots.reachable_inv)
  have "cx_inv cx_start" by (rule cx.inv_init) simp
  then have "n + cx_left t \<le> cx_left cx_start" by (rule cx.run_bound [OF assms])
  moreover have "cx_left cx_start = 1594"
    by (simp add: cx_left_def cx_to_create_def cx_start_def cx_thread_def cx_WRITERS_def cx_READERS_def cx_ITER_def upt_rec)
  ultimately show "n \<le> 1594" by simp
  assume a: "(\<nexists>u. cx_step t u) \<and> single_mut t \<noteq> None"
  then show m: "cx_main t = CM_Returned" using cx_stuck_returned [OF inv(1)] by blast
  assume "CNull \<notin> set (cx_threads t)"
  then show "cx_final t" using cx_returned_final [OF inv m] a by blast
qed

text \<open>A run that returns with all threads done.\<close>

theorem cx_completes_witness: "\<exists>n t. steps cx_step n cx_start t \<and> n \<le> 1594 \<and> cx_final t"
proof -
  have c: "steps cx_step 13 cx_start cx_created" using cx_sched_steps [OF cx_created_run] by simp
  have "cx_inv cx_created" using cx_created_reachable by (rule cx.reachable_inv)
  then obtain m t where m: "steps cx_step m cx_created t" "\<nexists>u. cx_step t u"
    using cx.reaches_final [of "\<lambda>s. \<nexists>u. cx_step s u"] by blast
  have "cx_complete t" by (rule cx_complete.steps_inv [OF m(1)]) (rule cx_complete.inv_init, simp)
  moreover have st: "steps cx_step (13 + m) cx_start t" by (rule cx_steps_trans [OF m(1) c])
  ultimately show ?thesis using cx_completes [OF st] m(2) unfolding cx_complete_def by blast
qed

text \<open>No result is checked. If the mutex cannot be created the program goes on without it: there is a
  run in which two writers print the same value and an increment is lost.\<close>

theorem cx_without_mutex:
  "\<exists>s. cx_reachable s \<and> single_mut s = None \<and> cx_value s = 1 \<and> cx_out s = [Writer_Wrote 0 1, Writer_Wrote 1 1]"
  using cx_no_lock_run cx_sched_reachable [of cx_start] by (metis reach_init)

end
