(* ===== verification/Processes.thy ===== *)
theory Processes
  imports Prelude
begin

text \<open>
  Processes as the programs of \<open>5-semestr/lab4\<close> use them: \<open>fork\<close>, \<open>exec\<close>, \<open>wait\<close>, \<open>exit\<close> and
  one pipe, as POSIX describes them. A program is a function that gives for each location in its text
  the action executed there, with the locations it continues at; the processes interleave freely.
\<close>

section \<open>Actions and states\<close>

text \<open>How a process ended, as the macros of \<open>sys/wait.h\<close> tell.\<close>

datatype wstatus = Exit_code nat | Signalled nat

text \<open>
  \<open>Fork c p f\<close>: the child continues at \<open>c\<close>, the parent, given the child's number, at \<open>p\<close>, and after
  a failure at \<open>f\<close>. \<open>Say m l\<close> prints a line that may contain the process's own number and that of its
  parent. \<open>Wait\<close> is given \<open>None\<close> when the process has no child left. \<open>Exec f\<close> becomes another
  program or continues at \<open>f\<close>. \<open>Test\<close> reads the flag that the handler of SIGINT sets; the terminal
  sends that signal to all processes of the group at once.
\<close>

datatype ('l, 'm) action =
    Fork 'l "nat \<Rightarrow> 'l" 'l
  | Say "nat \<Rightarrow> nat \<Rightarrow> 'm" 'l
  | Wait "(nat \<times> wstatus) option \<Rightarrow> 'l"
  | Exec 'l
  | Pause 'l
  | Write "char list" 'l
  | Read nat "char list \<Rightarrow> 'l"
  | Close_read 'l
  | Close_write 'l
  | Test "bool \<Rightarrow> 'l"
  | Quit nat

datatype 'l pstate = Running 'l | Replaced | Zombie wstatus | Gone

record 'l process =
  parent_of :: nat
  state_of :: "'l pstate"
  can_read :: bool
  can_write :: bool

record ('l, 'm) psystem =
  procs :: "'l process list"
  pipe_of :: "char list"
  said :: "(nat \<times> 'm) list"
  interrupted :: bool

text \<open>The process in position \<open>i\<close> of the list has number \<open>i + 2\<close>; number 1 is \<open>init\<close>.\<close>

definition pid_of :: "nat \<Rightarrow> nat" where
  "pid_of i = i + 2"

definition update_proc :: "nat \<Rightarrow> ('l process \<Rightarrow> 'l process) \<Rightarrow> ('l, 'm) psystem \<Rightarrow> ('l, 'm) psystem" where
  "update_proc i f s = s\<lparr>procs := (procs s)[i := f (procs s ! i)]\<rparr>"

definition go_to :: "nat \<Rightarrow> 'l \<Rightarrow> ('l, 'm) psystem \<Rightarrow> ('l, 'm) psystem" where
  "go_to i l = update_proc i (\<lambda>p. p\<lparr>state_of := Running l\<rparr>)"

definition finish :: "nat \<Rightarrow> wstatus \<Rightarrow> ('l, 'm) psystem \<Rightarrow> ('l, 'm) psystem" where
  "finish i w s =
     (let ps = map (\<lambda>p. if parent_of p = pid_of i then p\<lparr>parent_of := 1\<rparr> else p) (procs s) in
      s\<lparr>procs := ps[i := (ps ! i)\<lparr>state_of := Zombie w, can_read := False, can_write := False\<rparr>]\<rparr>)"

text \<open>
  A child that \<open>wait\<close> has not reported: it is recognised by the number of its parent.
\<close>

definition waitable :: "nat \<Rightarrow> 'l process \<Rightarrow> bool" where
  "waitable i p \<longleftrightarrow> parent_of p = pid_of i \<and> state_of p \<noteq> Gone"

text \<open>
  One action of process \<open>i\<close>; \<open>ok\<close> tells whether a \<open>fork\<close> succeeds or an \<open>exec\<close> fails, \<open>j\<close> which
  child a \<open>wait\<close> reports.
\<close>

fun act :: "bool \<Rightarrow> nat \<Rightarrow> nat \<Rightarrow> ('l, 'm) action \<Rightarrow> ('l, 'm) psystem \<Rightarrow> ('l, 'm) psystem option" where
  "act ok j i (Fork c p f) s =
     (if ok
      then Some ((go_to i (p (pid_of (length (procs s)))) s)\<lparr>procs :=
             procs (go_to i (p (pid_of (length (procs s)))) s) @
             [(procs s ! i)\<lparr>parent_of := pid_of i, state_of := Running c\<rparr>]\<rparr>)
      else Some (go_to i f s))"
| "act ok j i (Say m l) s =
     Some ((go_to i l s)\<lparr>said := said s @ [(pid_of i, m (pid_of i) (parent_of (procs s ! i)))]\<rparr>)"
| "act ok j i (Wait k) s =
     (if \<not> list_ex (waitable i) (procs s) then Some (go_to i (k None) s)
      else if j < length (procs s) \<and> waitable i (procs s ! j) then
        (case state_of (procs s ! j) of
           Zombie w \<Rightarrow> Some (go_to i (k (Some (pid_of j, w)))
                              (update_proc j (\<lambda>p. p\<lparr>state_of := Gone\<rparr>) s))
         | _ \<Rightarrow> None)
      else None)"
| "act ok j i (Exec f) s =
     Some (if ok then update_proc i (\<lambda>p. p\<lparr>state_of := Replaced\<rparr>) s else go_to i f s)"
| "act ok j i (Pause l) s = Some (go_to i l s)"
| "act ok j i (Write bs l) s =
     (if list_ex can_read (procs s) then Some ((go_to i l s)\<lparr>pipe_of := pipe_of s @ bs\<rparr>)
      else Some (finish i (Signalled 13) s))"
| "act ok j i (Read n k) s =
     (if pipe_of s \<noteq> [] then Some ((go_to i (k (take n (pipe_of s))) s)\<lparr>pipe_of := drop n (pipe_of s)\<rparr>)
      else if list_ex can_write (procs s) then None
      else Some (go_to i (k []) s))"
| "act ok j i (Close_read l) s = Some (update_proc i (\<lambda>p. p\<lparr>state_of := Running l, can_read := False\<rparr>) s)"
| "act ok j i (Close_write l) s = Some (update_proc i (\<lambda>p. p\<lparr>state_of := Running l, can_write := False\<rparr>) s)"
| "act ok j i (Test k) s = Some (go_to i (k (interrupted s)) s)"
| "act ok j i (Quit c) s = Some (finish i (Exit_code c) s)"

text \<open>One step of some process; calls fail only if \<open>may\<close> says that they may.\<close>

inductive pstep ::
  "bool \<Rightarrow> ('l \<Rightarrow> ('l, 'm) action) \<Rightarrow> ('l, 'm) psystem \<Rightarrow> ('l, 'm) psystem \<Rightarrow> bool" for may prog where
  proc_acts: "i < length (procs s) \<Longrightarrow> state_of (procs s ! i) = Running l \<Longrightarrow> ok \<or> may \<Longrightarrow>
    act ok j i (prog l) s = Some t \<Longrightarrow> pstep may prog s t"
| replaced_ends: "i < length (procs s) \<Longrightarrow> state_of (procs s ! i) = Replaced \<Longrightarrow>
    pstep may prog s (finish i w s)"

lemma pstep_mono: "pstep False prog s t \<Longrightarrow> pstep may prog s t"
  by (auto elim!: pstep.cases intro: proc_acts replaced_ends)

definition boot :: "'l \<Rightarrow> ('l, 'm) psystem" where
  "boot l = \<lparr>procs = [\<lparr>parent_of = 1, state_of = Running l, can_read = True, can_write = True\<rparr>],
     pipe_of = [], said = [], interrupted = False\<rparr>"

section \<open>Sums over the processes\<close>

text \<open>
  A weight of a process that depends only on its state and its location; how the sum of the weights
  changes tells how many processes there will be, what they print and that they end.
\<close>

definition ptally :: "('l pstate \<Rightarrow> int) \<Rightarrow> ('l, 'm) psystem \<Rightarrow> int" where
  "ptally f s = tally (\<lambda>p. f (state_of p)) (procs s)"

lemma tally_map: "tally f (map g xs) = tally (\<lambda>x. f (g x)) xs"
  by (induction xs) auto

lemma length_update [simp]:
  "length (procs (update_proc i f s)) = length (procs s)" "length (procs (go_to i l s)) = length (procs s)"
  "length (procs (finish i w s)) = length (procs s)"
  by (simp_all add: update_proc_def go_to_def finish_def Let_def)

lemma said_update [simp]:
  "said (update_proc i f s) = said s" "said (go_to i l s) = said s" "said (finish i w s) = said s"
  by (simp_all add: update_proc_def go_to_def finish_def Let_def)

lemma ptally_update:
  "i < length (procs s) \<Longrightarrow>
     ptally f (update_proc i g s) = ptally f s - f (state_of (procs s ! i)) + f (state_of (g (procs s ! i)))"
  by (simp add: ptally_def update_proc_def tally_update)

lemma ptally_go [simp]:
  "i < length (procs s) \<Longrightarrow>
     ptally f (go_to i l s) = ptally f s - f (state_of (procs s ! i)) + f (Running l)"
  by (simp add: go_to_def ptally_update)

lemma ptally_finish [simp]:
  fixes f :: "'l pstate \<Rightarrow> int" and s :: "('l, 'm) psystem"
  assumes "i < length (procs s)"
  shows "ptally f (finish i w s) = ptally f s - f (state_of (procs s ! i)) + f (Zombie w)"
proof -
  have same: "(\<lambda>p :: 'l process. f (state_of (if parent_of p = pid_of i then p\<lparr>parent_of := 1\<rparr> else p))) =
      (\<lambda>p. f (state_of p))" by auto
  then show ?thesis using assms
    by (simp add: ptally_def finish_def Let_def tally_update tally_map)
qed

lemma ptally_said [simp]: "ptally f (s\<lparr>said := x\<rparr>) = ptally f s"
  by (simp add: ptally_def)

lemma ptally_pipe [simp]: "ptally f (s\<lparr>pipe_of := x\<rparr>) = ptally f s"
  by (simp add: ptally_def)

text \<open>
  How one step changes the sum: the weight of the process is exchanged for that of its next state,
  a \<open>fork\<close> adds the weight of the child's first location, and a \<open>wait\<close> turns a zombie into nothing.
\<close>

fun next_weight :: "('l pstate \<Rightarrow> int) \<Rightarrow> bool \<Rightarrow> ('l, 'm) action \<Rightarrow> ('l, 'm) psystem \<Rightarrow> int set" where
  "next_weight f ok (Fork c p e) s =
     (if ok then {f (Running (p (pid_of (length (procs s))))) + f (Running c)} else {f (Running e)})"
| "next_weight f ok (Say m l) s = {f (Running l)}"
| "next_weight f ok (Wait k) s =
     insert (f (Running (k None))) {f (Running (k (Some (n, w)))) - f (Zombie w) + f Gone | n w. True}"
| "next_weight f ok (Exec l) s = (if ok then {f Replaced} else {f (Running l)})"
| "next_weight f ok (Pause l) s = {f (Running l)}"
| "next_weight f ok (Write bs l) s = {f (Running l), f (Zombie (Signalled 13))}"
| "next_weight f ok (Read n k) s = {f (Running (k bs)) | bs. length bs \<le> n}"
| "next_weight f ok (Close_read l) s = {f (Running l)}"
| "next_weight f ok (Close_write l) s = {f (Running l)}"
| "next_weight f ok (Test k) s = {f (Running (k b)) | b. True}"
| "next_weight f ok (Quit c) s = {f (Zombie (Exit_code c))}"

lemma ptally_act:
  assumes i: "i < length (procs s)" and l: "state_of (procs s ! i) = Running l"
    and a: "act ok j i a s = Some t"
  shows "\<exists>w \<in> next_weight f ok a s. ptally f t = ptally f s - f (Running l) + w"
proof (cases a)
  case (Fork c p e)
  have "ptally f (u\<lparr>procs := procs u @ [q]\<rparr>) = ptally f u + f (state_of q)" for u :: "('a, 'b) psystem" and q
    by (simp add: ptally_def)
  with Fork a i l show ?thesis by (auto split: if_splits)
next
  case (Wait k)
  show ?thesis
  proof (cases "list_ex (waitable i) (procs s)")
    case True
    with a Wait obtain w where j: "j < length (procs s)" "state_of (procs s ! j) = Zombie w"
      and t: "t = go_to i (k (Some (pid_of j, w))) (update_proc j (\<lambda>p. p\<lparr>state_of := Gone\<rparr>) s)"
      by (auto split: if_splits pstate.splits)
    have ij: "i \<noteq> j" using j l by auto
    then have same: "procs (update_proc j (\<lambda>p. p\<lparr>state_of := Gone\<rparr>) s) ! i = procs s ! i"
      by (simp add: update_proc_def)
    have "ptally f t = ptally f s - f (Running l) + (f (Running (k (Some (pid_of j, w)))) - f (Zombie w) + f Gone)"
      using i j l same by (simp add: t ptally_update)
    with Wait show ?thesis by auto
  qed (use a Wait i l in auto)
next
  case (Read n k)
  show ?thesis
  proof (cases "pipe_of s = []")
    case True
    with Read a i l show ?thesis by (auto split: if_splits intro!: exI [of _ "[]"])
  next
    case False
    with Read a i l show ?thesis by (auto intro!: exI [of _ "take n (pipe_of s)"])
  qed
qed (use a i l in \<open>auto simp: ptally_update split: if_splits\<close>)

lemma length_act:
  "act ok j i a s = Some t \<Longrightarrow>
     length (procs t) = length (procs s) + (case a of Fork c p f \<Rightarrow> (if ok then 1 else 0) | _ \<Rightarrow> 0)"
  by (cases a) (auto split: if_splits pstate.splits)

section \<open>Programs that end\<close>

text \<open>A weight of the locations that every action lowers bounds the length of the runs.\<close>

locale program_rank =
  fixes prog :: "'l \<Rightarrow> ('l, 'm) action" and may :: bool and rank :: "'l pstate \<Rightarrow> int"
  assumes rank_nonneg: "0 \<le> rank x"
    and rank_less: "ok \<or> may \<Longrightarrow> w \<in> next_weight rank ok (prog l) (s :: ('l, 'm) psystem) \<Longrightarrow> w < rank (Running l)"
    and rank_replaced: "rank (Zombie v) < rank Replaced"
begin

lemma rank_step:
  assumes "pstep may prog s t" shows "ptally rank t < ptally rank s"
  using assms
proof cases
  case (proc_acts i l ok j)
  then show ?thesis using ptally_act [of i s l ok j "prog l" t rank] rank_less [of ok _ l s] by force
next
  case (replaced_ends i w)
  then show ?thesis using rank_replaced [of w] by simp
qed

lemma ptally_rank: "0 \<le> ptally rank s"
  unfolding ptally_def by (rule tally_nonneg) (rule rank_nonneg)

end

sublocale program_rank \<subseteq> terminating "\<lambda>s. True" "pstep may prog" "\<lambda>s. True" "\<lambda>s. nat (ptally rank s)"
proof unfold_locales
  show "nat (ptally rank t) < nat (ptally rank s)" if "pstep may prog s t" for s t
    using rank_step [OF that] ptally_rank [of t] by simp
qed auto

section \<open>Accounts\<close>

text \<open>
  What has been printed and what will be: if every action moves the same amount from the weight of
  the locations to the lines printed, their sum never changes.
\<close>

definition line_total :: "('m \<Rightarrow> int) \<Rightarrow> ('l, 'm) psystem \<Rightarrow> int" where
  "line_total c s = tally (\<lambda>x. c (snd x)) (said s)"

fun gains :: "('m \<Rightarrow> int) \<Rightarrow> ('l, 'm) action \<Rightarrow> int set" where
  "gains c (Say m l) = {c (m p q) | p q. True}"
| "gains c a = {0}"

lemma line_total_act:
  assumes "i < length (procs s)" "act ok j i a s = Some t"
  shows "\<exists>g \<in> gains c a. line_total c t = line_total c s + g"
proof (cases a)
  case (Say m l)
  with assms have "line_total c t = line_total c s + c (m (pid_of i) (parent_of (procs s ! i)))"
    by (auto simp: line_total_def)
  with Say show ?thesis by auto
qed (use assms in \<open>auto simp: line_total_def split: if_splits pstate.splits\<close>)

locale program_budget =
  fixes prog :: "'l \<Rightarrow> ('l, 'm) action" and may :: bool and f :: "'l pstate \<Rightarrow> int" and c :: "'m \<Rightarrow> int"
  assumes budget: "ok \<or> may \<Longrightarrow> w \<in> next_weight f ok (prog l) (s :: ('l, 'm) psystem) \<Longrightarrow>
      g \<in> gains c (prog l) \<Longrightarrow> w + g \<le> f (Running l)"
    and budget_replaced: "f (Zombie v) \<le> f Replaced"
begin

lemma budget_step:
  assumes "pstep may prog s t" shows "line_total c t + ptally f t \<le> line_total c s + ptally f s"
  using assms
proof cases
  case (proc_acts i l ok j)
  then obtain w g where "w \<in> next_weight f ok (prog l) s" "ptally f t = ptally f s - f (Running l) + w"
    "g \<in> gains c (prog l)" "line_total c t = line_total c s + g"
    using ptally_act [of i s l ok j "prog l" t f] line_total_act [of i s ok j "prog l" t c] by blast
  with budget [of ok w l s g] proc_acts show ?thesis by simp
next
  case (replaced_ends i w)
  then show ?thesis using budget_replaced [of w] by (simp add: line_total_def)
qed

end

text \<open>An account is a budget that is always used up.\<close>

locale program_account =
  fixes prog :: "'l \<Rightarrow> ('l, 'm) action" and may :: bool and f :: "'l pstate \<Rightarrow> int" and c :: "'m \<Rightarrow> int"
  assumes account: "ok \<or> may \<Longrightarrow> w \<in> next_weight f ok (prog l) (s :: ('l, 'm) psystem) \<Longrightarrow>
      g \<in> gains c (prog l) \<Longrightarrow> w + g = f (Running l)"
    and account_replaced: "f (Zombie v) = f Replaced"
begin

lemma account_step:
  assumes "pstep may prog s t" shows "line_total c t + ptally f t = line_total c s + ptally f s"
  using assms
proof cases
  case (proc_acts i l ok j)
  then obtain w g where "w \<in> next_weight f ok (prog l) s" "ptally f t = ptally f s - f (Running l) + w"
    "g \<in> gains c (prog l)" "line_total c t = line_total c s + g"
    using ptally_act [of i s l ok j "prog l" t f] line_total_act [of i s ok j "prog l" t c] by blast
  with account [of ok w l s g] proc_acts show ?thesis by simp
next
  case (replaced_ends i w)
  then show ?thesis using account_replaced [of w] by (simp add: line_total_def)
qed

lemma account_reachable:
  "reachable (\<lambda>s. s = boot l) (pstep may prog) s \<Longrightarrow> line_total c s + ptally f s = f (Running l)"
  by (induction rule: reachable.induct) (auto simp: account_step, simp add: line_total_def ptally_def boot_def)

end

sublocale program_account \<subseteq> spending: program_budget prog may f c
  by unfold_locales (simp_all add: account account_replaced)

section \<open>Progress\<close>

definition ended :: "'l process \<Rightarrow> bool" where
  "ended p \<longleftrightarrow> (\<forall>l. state_of p \<noteq> Running l) \<and> state_of p \<noteq> Replaced"

text \<open>A weight that depends only on the place of a process, and is \<open>z\<close> once it does not run.\<close>

fun state_weight :: "('l \<Rightarrow> int) \<Rightarrow> int \<Rightarrow> 'l pstate \<Rightarrow> int" where
  "state_weight f z (Running l) = f l"
| "state_weight f z x = z"

lemma ended_weight:
  assumes "\<forall>p \<in> set (procs s). ended p"
  shows "ptally (state_weight f z) s = z * int (length (procs s))"
proof -
  have "state_weight f z (state_of p) = z" if "p \<in> set (procs s)" for p
    using assms that by (cases "state_of p") (auto simp: ended_def)
  then have "tally (\<lambda>p. state_weight f z (state_of p)) (procs s) = tally (\<lambda>_. z) (procs s)"
    by (simp add: tally_def cong: map_cong)
  also have "tally (\<lambda>_. z) (procs s) = z * int (length (procs s))"
    by (induction "procs s") (simp_all add: tally_def sum_list_triv)
  finally show ?thesis by (simp add: ptally_def)
qed

lemma total_zero: "line_total (\<lambda>_. 0) s = 0"
  by (simp add: line_total_def tally_eq_0)

text \<open>The number of a parent is smaller than those of its children.\<close>

definition family :: "('l, 'm) psystem \<Rightarrow> bool" where
  "family s \<longleftrightarrow> (\<forall>j < length (procs s). parent_of (procs s ! j) < pid_of j)"

lemma family_update:
  assumes "family s" "\<And>p. parent_of (f p) = parent_of p" shows "family (update_proc i f s)"
  unfolding family_def
proof (intro allI impI)
  fix j assume "j < length (procs (update_proc i f s))"
  then show "parent_of (procs (update_proc i f s) ! j) < pid_of j"
    using assms by (cases "j = i") (simp_all add: family_def update_proc_def)
qed

lemma family_go: "family s \<Longrightarrow> family (go_to i l s)"
  by (simp add: go_to_def family_update)

lemma family_finish:
  assumes "family s" shows "family (finish i w s)"
  unfolding family_def
proof (intro allI impI)
  fix j assume "j < length (procs (finish i w s))"
  then have "j < length (procs s)" by simp
  with assms show "parent_of (procs (finish i w s) ! j) < pid_of j"
    by (cases "j = i") (auto simp: family_def finish_def Let_def pid_of_def)
qed

lemma family_upd [simp]: "family (s\<lparr>said := x\<rparr>) = family s" "family (s\<lparr>pipe_of := y\<rparr>) = family s"
  by (simp_all add: family_def)

lemma family_act:
  assumes f: "family s" and i: "i < length (procs s)" and a: "act ok j i a s = Some t"
  shows "family t"
proof (cases a)
  case (Fork c p e)
  have "family (go_to i (p (pid_of (length (procs s)))) s)" using f by (rule family_go)
  then show ?thesis using Fork a i f family_go [OF f]
    by (auto simp: family_def nth_append pid_of_def split: if_splits)
qed (use f a in \<open>auto simp: family_go family_update family_finish split: if_splits pstate.splits\<close>)

lemma family_boot: "family (boot l)"
  by (simp add: family_def boot_def pid_of_def)

lemma family_step: "family s \<Longrightarrow> pstep may prog s t \<Longrightarrow> family t"
  by (auto elim!: pstep.cases intro: family_act family_finish)

text \<open>
  The last process that has not ended can make a step, since the children it may wait for have
  ended, unless it reads from a pipe that is empty and that a process may still write to.
\<close>

definition blocked_read :: "('l \<Rightarrow> ('l, 'm) action) \<Rightarrow> ('l, 'm) psystem \<Rightarrow> nat \<Rightarrow> bool" where
  "blocked_read prog s i \<longleftrightarrow> (\<exists>l n k. state_of (procs s ! i) = Running l \<and> prog l = Read n k \<and>
     pipe_of s = [] \<and> list_ex can_write (procs s))"

lemma last_can_step:
  assumes f: "family s" and i: "i < length (procs s)" "\<not> ended (procs s ! i)"
    and later: "\<And>j. i < j \<Longrightarrow> j < length (procs s) \<Longrightarrow> ended (procs s ! j)"
    and b: "\<not> blocked_read prog s i"
  shows "\<exists>t. pstep may prog s t"
proof (cases "state_of (procs s ! i)")
  case (Running l)
  show ?thesis
  proof (cases "prog l")
    case (Wait k)
    show ?thesis
    proof (cases "list_ex (waitable i) (procs s)")
      case True
      then obtain j where j: "j < length (procs s)" "waitable i (procs s ! j)"
        by (auto simp: list_ex_iff in_set_conv_nth)
      then have "pid_of i < pid_of j" using f by (auto simp: family_def waitable_def)
      then have "ended (procs s ! j)" using later j by (simp add: pid_of_def)
      with j obtain w where "state_of (procs s ! j) = Zombie w"
        by (cases "state_of (procs s ! j)") (auto simp: ended_def waitable_def)
      with True j Wait have "\<exists>t. act True j i (prog l) s = Some t" by simp
      with i Running show ?thesis by (blast intro: proc_acts)
    next
      case False
      with Wait have "\<exists>t. act True 0 i (prog l) s = Some t" by simp
      with i Running show ?thesis by (blast intro: proc_acts)
    qed
  next
    case (Read n k)
    with b Running have "pipe_of s \<noteq> [] \<or> \<not> list_ex can_write (procs s)"
      by (auto simp: blocked_read_def)
    with Read have "\<exists>t. act True 0 i (prog l) s = Some t" by auto
    with i Running show ?thesis by (blast intro: proc_acts)
  next
    case (Write bs l')
    then have "\<exists>t. act True 0 i (prog l) s = Some t" by simp
    with i Running show ?thesis by (blast intro: proc_acts)
  qed (use i Running in \<open>force intro: proc_acts [of i s l True may 0]\<close>)+
next
  case Replaced
  with i show ?thesis by (blast intro: replaced_ends)
qed (use i in \<open>auto simp: ended_def\<close>)

lemma stuck_reads:
  assumes "family s" "\<nexists>t. pstep may prog s t"
  shows "(\<forall>p \<in> set (procs s). ended p) \<or>
    (\<exists>i < length (procs s). blocked_read prog s i \<and> (\<forall>j < length (procs s). i < j \<longrightarrow> ended (procs s ! j)))"
proof (rule ccontr)
  assume no: "\<not> ?thesis"
  then have ex: "\<exists>i. i < length (procs s) \<and> \<not> ended (procs s ! i)" by (auto simp: in_set_conv_nth)
  define m where "m = Max {i. i < length (procs s) \<and> \<not> ended (procs s ! i)}"
  have fin: "finite {i. i < length (procs s) \<and> \<not> ended (procs s ! i)}" by simp
  have m: "m \<in> {i. i < length (procs s) \<and> \<not> ended (procs s ! i)}" unfolding m_def
    using ex fin by (intro Max_in) auto
  have later: "ended (procs s ! j)" if "m < j" "j < length (procs s)" for j
    using that Max_ge [OF fin, of j] unfolding m_def by fastforce
  then have "\<not> blocked_read prog s m" using m no by blast
  then show False using last_can_step [OF assms(1)] assms(2) m later by blast
qed

text \<open>A program without reads from the pipe never gets stuck.\<close>

locale program_progress =
  fixes prog :: "'l \<Rightarrow> ('l, 'm) action" and may :: bool
  assumes no_read: "prog l \<noteq> Read n k"
begin

lemma stuck_ended:
  assumes "family s" "\<nexists>t. pstep may prog s t"
  shows "\<forall>p \<in> set (procs s). ended p"
  using stuck_reads [OF assms] no_read by (auto simp: blocked_read_def)

end

lemma family_steps: "steps (pstep may prog) n s t \<Longrightarrow> family s \<Longrightarrow> family t"
  by (induction rule: steps.induct) (auto intro: family_step)

text \<open>The states of the processes after a step.\<close>

lemma state_go:
  "j < length (procs s) \<Longrightarrow> state_of (procs (go_to i l s) ! j) = (if j = i then Running l else state_of (procs s ! j))"
  by (simp add: go_to_def update_proc_def nth_list_update)

lemma state_finish:
  "j < length (procs s) \<Longrightarrow> state_of (procs (finish i w s) ! j) = (if j = i then Zombie w else state_of (procs s ! j))"
  by (auto simp: finish_def Let_def nth_list_update)

lemma state_update:
  "j < length (procs s) \<Longrightarrow> state_of (procs (update_proc i f s) ! j) = (if j = i then state_of (f (procs s ! i)) else state_of (procs s ! j))"
  by (simp add: update_proc_def nth_list_update)

section \<open>Processes of a parent and its children\<close>

text \<open>
  Programs in which only the first process forks: the process in position \<open>i\<close> runs the part of the
  program that is its role, its parent is the first process while that runs and \<open>init\<close> after it has
  ended, and prints the lines of its role. \<open>ty i n l\<close>: process \<open>i\<close> may be at \<open>l\<close> when \<open>n\<close> processes
  have been created.
\<close>

fun targets :: "nat \<Rightarrow> ('l, 'm) action \<Rightarrow> 'l set" where
  "targets n (Fork c p f) = {f}"
| "targets n (Say m l) = {l}"
| "targets n (Wait k) = insert (k None) {k (Some (pid_of j, w)) | j w. 0 < j \<and> j < n}"
| "targets n (Exec f) = {f}"
| "targets n (Pause l) = {l}"
| "targets n (Write bs l) = {l}"
| "targets n (Read m k) = range k"
| "targets n (Close_read l) = {l}"
| "targets n (Close_write l) = {l}"
| "targets n (Test k) = range k"
| "targets n (Quit c) = {}"

definition parent_should :: "('l, 'm) psystem \<Rightarrow> nat \<Rightarrow> nat" where
  "parent_should s i = (if i = 0 \<or> ended (procs s ! 0) then 1 else pid_of 0)"

definition well_typed :: "(nat \<Rightarrow> nat \<Rightarrow> 'l \<Rightarrow> bool) \<Rightarrow> (nat \<Rightarrow> 'm \<Rightarrow> bool) \<Rightarrow> ('l, 'm) psystem \<Rightarrow> bool" where
  "well_typed ty out s \<longleftrightarrow> 0 < length (procs s) \<and>
     (\<forall>i < length (procs s). parent_of (procs s ! i) = parent_should s i \<and>
        (\<forall>l. state_of (procs s ! i) = Running l \<longrightarrow> ty i (length (procs s)) l)) \<and>
     (\<forall>x \<in> set (said s). \<exists>i < length (procs s). fst x = pid_of i \<and> out i (snd x))"

lemma ended_simps [simp]:
  "\<not> ended (p\<lparr>state_of := Running l\<rparr>)" "\<not> ended (p\<lparr>state_of := Replaced\<rparr>)" "ended (p\<lparr>state_of := Gone\<rparr>)"
  "ended (p\<lparr>state_of := Zombie w, can_read := a, can_write := b\<rparr>)" "\<not> ended (p\<lparr>state_of := Running l, can_read := a\<rparr>)"
  "\<not> ended (p\<lparr>state_of := Running l, can_write := a\<rparr>)"
  by (simp_all add: ended_def)

lemma typed_update:
  assumes t: "well_typed ty out s" and i: "i < length (procs s)"
    and f: "\<And>p. parent_of (f p) = parent_of p" "ended (f (procs s ! i)) = ended (procs s ! i)"
      "\<And>l. state_of (f (procs s ! i)) = Running l \<Longrightarrow> ty i (length (procs s)) l"
  shows "well_typed ty out (update_proc i f s)"
proof -
  have e: "ended (procs (update_proc i f s) ! 0) = ended (procs s ! 0)"
    using i f(2) by (cases "i = 0") (simp_all add: update_proc_def)
  show ?thesis
    using t f(1,3) i unfolding well_typed_def parent_should_def e by (auto simp: update_proc_def nth_list_update)
qed

lemma typed_go:
  assumes "well_typed ty out s" "i < length (procs s)" "\<not> ended (procs s ! i)" "ty i (length (procs s)) l"
  shows "well_typed ty out (go_to i l s)"
  unfolding go_to_def using assms by (intro typed_update) auto

lemma typed_finish:
  assumes t: "well_typed ty out s" and i: "i < length (procs s)" "\<not> ended (procs s ! i)"
  shows "well_typed ty out (finish i w s)"
proof -
  have par: "parent_of (procs s ! j) = parent_should s j" if "j < length (procs s)" for j
    using t that by (simp add: well_typed_def)
  have st: "state_of (procs (finish i w s) ! j) = (if j = i then Zombie w else state_of (procs s ! j))"
    if "j < length (procs s)" for j
    using that by (auto simp: finish_def Let_def nth_list_update)
  have l0: "0 < length (procs s)" using t by (simp add: well_typed_def)
  have e: "ended (procs (finish i w s) ! 0) \<longleftrightarrow> i = 0 \<or> ended (procs s ! 0)"
    using st [OF l0] by (auto simp: ended_def)
  have "parent_of (procs (finish i w s) ! j) = parent_should (finish i w s) j" if j: "j < length (procs s)" for j
    using par [OF j] i j unfolding parent_should_def e
    by (cases "i = 0"; cases "j = i") (auto simp: finish_def Let_def nth_list_update pid_of_def split: if_splits)
  with t st show ?thesis unfolding well_typed_def by auto
qed

lemma typed_said:
  assumes "well_typed ty out s" "i < length (procs s)" "out i m"
  shows "well_typed ty out (s\<lparr>said := said s @ [(pid_of i, m)]\<rparr>)"
  using assms by (auto simp: well_typed_def parent_should_def)

locale program_typing =
  fixes prog :: "'l \<Rightarrow> ('l, 'm) action" and may :: bool
    and ty :: "nat \<Rightarrow> nat \<Rightarrow> 'l \<Rightarrow> bool" and out :: "nat \<Rightarrow> 'm \<Rightarrow> bool" and first :: 'l
  assumes ty_first: "ty 0 1 first"
    and ty_target: "ty i n l \<Longrightarrow> l' \<in> targets n (prog l) \<Longrightarrow> ty i n l'"
    and ty_fork: "ty i n l \<Longrightarrow> prog l = Fork c p f \<Longrightarrow> i = 0 \<and> ty 0 (Suc n) (p (pid_of n)) \<and> (0 < n \<longrightarrow> ty n (Suc n) c)"
    and ty_later: "ty i n l \<Longrightarrow> 0 < i \<Longrightarrow> ty i (Suc n) l"
    and ty_say: "ty i n l \<Longrightarrow> prog l = Say m k \<Longrightarrow> q = 1 \<or> 0 < i \<and> q = pid_of 0 \<Longrightarrow> out i (m (pid_of i) q)"
begin

lemma typed_fork:
  assumes t: "well_typed ty out s" and i: "i < length (procs s)" "state_of (procs s ! i) = Running l"
    and p: "prog l = Fork c p f" and sd: "said v = said s"
    and v: "procs v = procs (go_to i (p (pid_of (length (procs s)))) s) @
      [(procs s ! i)\<lparr>parent_of := pid_of i, state_of := Running c\<rparr>]"
  shows "well_typed ty out v"
proof -
  let ?n = "length (procs s)"
  have "ty i ?n l" using t i by (simp add: well_typed_def)
  then have i0: "i = 0" and new: "ty 0 (Suc ?n) (p (pid_of ?n))" "ty ?n (Suc ?n) c"
    using ty_fork [OF _ p] i(1) by auto
  have len: "length (procs v) = Suc ?n" by (simp add: v)
  have at0: "procs v ! 0 = (procs s ! 0)\<lparr>state_of := Running (p (pid_of ?n))\<rparr>"
    and at: "\<And>j. 0 < j \<Longrightarrow> j < ?n \<Longrightarrow> procs v ! j = procs s ! j"
    and atn: "procs v ! ?n = (procs s ! i)\<lparr>parent_of := pid_of i, state_of := Running c\<rparr>"
    using i by (simp_all add: v i0 go_to_def update_proc_def nth_append)
  have "\<not> ended (procs v ! 0)" "\<not> ended (procs s ! 0)" using i i0 by (simp_all add: at0 ended_def)
  then have should: "parent_should v j = (if j = 0 then 1 else pid_of 0)" "parent_should s j = (if j = 0 then 1 else pid_of 0)" for j
    by (simp_all add: parent_should_def)
  have q: "parent_of (procs s ! j) = parent_should s j" "state_of (procs s ! j) = Running k \<Longrightarrow> ty j ?n k"
    if "j < ?n" for j k
    using t that by (simp_all add: well_typed_def)
  have "parent_of (procs v ! j) = parent_should v j \<and> (\<forall>k. state_of (procs v ! j) = Running k \<longrightarrow> ty j (Suc ?n) k)"
    if j: "j < Suc ?n" for j
  proof -
    consider "j = 0" | "0 < j" "j < ?n" | "j = ?n" using j by linarith
    then show ?thesis
    proof cases
      case 1
      with q(1) [of 0] i(1) new(1) show ?thesis by (simp add: at0 should i0)
    next
      case 2
      with q [of j] ty_later [of j ?n] show ?thesis by (simp add: at should)
    next
      case 3
      with new(2) i(1) show ?thesis by (simp add: atn should i0)
    qed
  qed
  moreover have "\<forall>x \<in> set (said s). \<exists>i < ?n. fst x = pid_of i \<and> out i (snd x)"
    using t by (simp add: well_typed_def)
  then have "\<forall>x \<in> set (said v). \<exists>i < Suc ?n. fst x = pid_of i \<and> out i (snd x)"
    unfolding sd by (blast intro: less_SucI)
  ultimately show ?thesis by (simp add: well_typed_def len)
qed

lemma typed_act:
  assumes t: "well_typed ty out s" and i: "i < length (procs s)" "state_of (procs s ! i) = Running l"
    and a: "act ok j i (prog l) s = Some u"
  shows "well_typed ty out u"
proof -
  let ?n = "length (procs s)"
  have ty: "ty i ?n l" using t i by (simp add: well_typed_def)
  have run: "\<not> ended (procs s ! i)" using i by (simp add: ended_def)
  have go: "well_typed ty out (go_to i k s)" if "k \<in> targets ?n (prog l)" for k
    using typed_go [OF t i(1) run ty_target [OF ty that]] .
  have keeps: "well_typed ty out (v\<lparr>pipe_of := x\<rparr>) = well_typed ty out v" for v x
    by (simp add: well_typed_def parent_should_def)
  show ?thesis
  proof (cases "prog l")
    case (Fork c p f)
    show ?thesis
    proof (cases ok)
      case True
      with a Fork show ?thesis by (intro typed_fork [OF t i Fork]) auto
    qed (use a Fork go in auto)
  next
    case (Say m k)
    have "parent_of (procs s ! i) = parent_should s i" using t i by (simp add: well_typed_def)
    then have "out i (m (pid_of i) (parent_of (procs s ! i)))"
      using ty_say [OF ty Say] by (auto simp: parent_should_def)
    moreover have "well_typed ty out (go_to i k s)" using go Say by simp
    ultimately have "well_typed ty out ((go_to i k s)\<lparr>said := said (go_to i k s) @
        [(pid_of i, m (pid_of i) (parent_of (procs s ! i)))]\<rparr>)"
      using i(1) by (intro typed_said) auto
    then show ?thesis using a Say by simp
  next
    case (Wait k)
    show ?thesis
    proof (cases "list_ex (waitable i) (procs s)")
      case True
      with a Wait obtain w where j: "j < ?n" "waitable i (procs s ! j)" "state_of (procs s ! j) = Zombie w"
        and u: "u = go_to i (k (Some (pid_of j, w))) (update_proc j (\<lambda>p. p\<lparr>state_of := Gone\<rparr>) s)"
        by (auto split: if_splits pstate.splits)
      have g: "well_typed ty out (update_proc j (\<lambda>p. p\<lparr>state_of := Gone\<rparr>) s)"
        using t j by (intro typed_update) (auto simp: ended_def)
      have "j \<noteq> 0"
      proof
        assume "j = 0"
        moreover have "parent_of (procs s ! j) = parent_should s j" using t j by (simp add: well_typed_def)
        ultimately show False using j(2) by (simp add: waitable_def parent_should_def pid_of_def)
      qed
      then have "k (Some (pid_of j, w)) \<in> targets ?n (prog l)" using Wait j by auto
      then have "ty i ?n (k (Some (pid_of j, w)))" using ty_target [OF ty] by blast
      moreover have "i \<noteq> j" using j i by auto
      ultimately show ?thesis using g i run unfolding u
        by (intro typed_go) (auto simp: update_proc_def)
    qed (use a Wait go in auto)
  next
    case (Exec f)
    have "well_typed ty out (update_proc i (\<lambda>p. p\<lparr>state_of := Replaced\<rparr>) s)"
      using t i run by (intro typed_update) auto
    with a Exec go show ?thesis by (auto split: if_splits)
  next
    case (Close_read k)
    with a t i run ty_target [OF ty] show ?thesis by (auto intro!: typed_update)
  next
    case (Close_write k)
    with a t i run ty_target [OF ty] show ?thesis by (auto intro!: typed_update)
  qed (use a go keeps typed_finish [OF t i(1) run] in \<open>auto split: if_splits\<close>)
qed

lemma typed_boot: "well_typed ty out (boot first)"
  using ty_first by (simp add: well_typed_def boot_def parent_should_def)

end

sublocale program_typing \<subseteq> typing: invariant "\<lambda>s. s = boot first" "pstep may prog" "well_typed ty out"
proof unfold_locales
  show "well_typed ty out s" if "s = boot first" for s using that typed_boot by simp
  show "well_typed ty out t" if t: "well_typed ty out s" and st: "pstep may prog s t" for s t
    using st
  proof cases
    case (proc_acts i l ok j)
    then show ?thesis using typed_act [OF t] by blast
  next
    case (replaced_ends i w)
    then show ?thesis using typed_finish [OF t] by (simp add: ended_def)
  qed
qed

end
