(* ===== verification/Fork_Tasks.thy ===== *)
theory Fork_Tasks
  imports Processes
begin

text \<open>
  The programs \<open>task1.c\<close>, \<open>task2.c\<close> and \<open>task3.c\<close> of \<open>5-semestr/lab4\<close>: a process creates two
  children; in \<open>task1.c\<close> nobody waits for them, in \<open>task2.c\<close> a \<open>wait\<close> follows, and in \<open>task3.c\<close> the
  children become other programs.
\<close>

section \<open>The programs\<close>

text \<open>The places in the program text; the numbers are \<open>child1\<close>, \<open>child2\<close> and exit values.\<close>

datatype site =
  First_fork | Child1_sleeps | Child1_prints | Child1_execs | Second_fork nat
  | Child2_sleeps | Child2_prints | Child2_execs | Parent_prints nat nat
  | Waits nat | Reports nat "(nat \<times> wstatus) option" | Leaves nat

text \<open>
  The lines: own number, group and parent of a child, the line of the parent, and what it learns of
  its children. The group of all processes is that of the first. When \<open>wait\<close> fails, \<open>status\<close> is not
  initialised and what is printed is undefined.
\<close>

datatype line =
  Child_line nat nat nat nat | Parent_line nat nat nat nat | Finished nat nat | From_signal nat nat
  | Undefined_status

definition group :: nat where
  "group = pid_of 0"

fun report_line :: "(nat \<times> wstatus) option \<Rightarrow> line" where
  "report_line None = Undefined_status"
| "report_line (Some (child, Exit_code c)) = Finished child c"
| "report_line (Some (child, Signalled n)) = From_signal child n"

fun task1 :: "site \<Rightarrow> (site, line) action" where
  "task1 First_fork = Fork Child1_sleeps Second_fork (Leaves 1)"
| "task1 Child1_sleeps = Pause Child1_prints"
| "task1 Child1_prints = Say (\<lambda>pid parent. Child_line 1 pid group parent) (Leaves 0)"
| "task1 (Second_fork c1) = Fork Child2_sleeps (Parent_prints c1) (Leaves 1)"
| "task1 Child2_sleeps = Pause Child2_prints"
| "task1 Child2_prints = Say (\<lambda>pid parent. Child_line 2 pid group parent) (Leaves 0)"
| "task1 (Parent_prints c1 c2) = Say (\<lambda>pid parent. Parent_line pid group c1 c2) (Leaves 0)"
| "task1 (Leaves c) = Quit c"
| "task1 other = Quit 0"

text \<open>In \<open>task2.c\<close> the first child does not return: it goes on to the second \<open>fork\<close>.\<close>

fun task2 :: "site \<Rightarrow> (site, line) action" where
  "task2 First_fork = Fork Child1_sleeps Second_fork (Leaves 1)"
| "task2 Child1_sleeps = Pause Child1_prints"
| "task2 Child1_prints = Say (\<lambda>pid parent. Child_line 1 pid group parent) (Second_fork 0)"
| "task2 (Second_fork c1) = Fork Child2_sleeps (Parent_prints c1) (Leaves 1)"
| "task2 Child2_sleeps = Pause Child2_prints"
| "task2 Child2_prints = Say (\<lambda>pid parent. Child_line 2 pid group parent) (Leaves 0)"
| "task2 (Parent_prints c1 c2) = Say (\<lambda>pid parent. Parent_line pid group c1 c2) (Waits 1)"
| "task2 (Waits (Suc k)) = Wait (Reports (Suc k))"
| "task2 (Reports k r) = Say (\<lambda>pid parent. report_line r) (Leaves 0)"
| "task2 (Leaves c) = Quit c"
| "task2 other = Quit 0"

text \<open>\<open>Waits k\<close>: \<open>k\<close> calls of \<open>wait\<close> are still to be made.\<close>

fun task3 :: "site \<Rightarrow> (site, line) action" where
  "task3 First_fork = Fork Child1_prints Second_fork (Leaves 1)"
| "task3 Child1_prints = Say (\<lambda>pid parent. Child_line 1 pid group parent) Child1_execs"
| "task3 Child1_execs = Exec (Leaves 1)"
| "task3 (Second_fork c1) = Fork Child2_prints (Parent_prints c1) (Leaves 1)"
| "task3 Child2_prints = Say (\<lambda>pid parent. Child_line 2 pid group parent) Child2_execs"
| "task3 Child2_execs = Exec (Leaves 1)"
| "task3 (Parent_prints c1 c2) = Say (\<lambda>pid parent. Parent_line pid group c1 c2) (Waits 2)"
| "task3 (Waits (Suc k)) = Wait (Reports (Suc k))"
| "task3 (Waits 0) = Quit 0"
| "task3 (Reports k r) = Say (\<lambda>pid parent. report_line r) (Waits (k - 1))"
| "task3 (Leaves c) = Quit c"
| "task3 other = Quit 0"

section \<open>Every run ends\<close>

fun site_rank :: "site \<Rightarrow> int" where
  "site_rank First_fork = 100"
| "site_rank Child1_sleeps = 42"
| "site_rank Child1_prints = 41"
| "site_rank Child1_execs = 3"
| "site_rank (Second_fork c) = 40"
| "site_rank Child2_sleeps = 6"
| "site_rank Child2_prints = 5"
| "site_rank Child2_execs = 3"
| "site_rank (Parent_prints c1 c2) = 20"
| "site_rank (Waits k) = 2 * int k + 4"
| "site_rank (Reports k r) = (if k = 0 then 5 else 2 * int k + 3)"
| "site_rank (Leaves c) = 1"

fun state_rank :: "site pstate \<Rightarrow> int" where
  "state_rank (Running l) = site_rank l"
| "state_rank Replaced = 1"
| "state_rank x = 0"

lemma site_rank_pos: "0 < site_rank l"
  by (cases l) simp_all

lemma state_rank_nonneg: "0 \<le> state_rank x"
  by (cases x) (simp_all add: site_rank_pos less_imp_le)

lemma rank_law1: "w \<in> next_weight state_rank ok (task1 l) s \<Longrightarrow> w < site_rank l"
  by (cases l rule: task1.cases; auto split: if_splits)

lemma rank_law2: "w \<in> next_weight state_rank ok (task2 l) s \<Longrightarrow> w < site_rank l"
  by (cases l rule: task2.cases; auto split: if_splits)

lemma rank_law3: "w \<in> next_weight state_rank ok (task3 l) s \<Longrightarrow> w < site_rank l"
  by (cases l rule: task3.cases; auto split: if_splits)

interpretation rank1: program_rank task1 may state_rank for may
  by unfold_locales (auto simp: state_rank_nonneg dest: rank_law1)

interpretation rank2: program_rank task2 may state_rank for may
  by unfold_locales (auto simp: state_rank_nonneg dest: rank_law2)

interpretation rank3: program_rank task3 may state_rank for may
  by unfold_locales (auto simp: state_rank_nonneg dest: rank_law3)

lemma no_read1: "task1 l \<noteq> Read n k"
  by (cases l rule: task1.cases) simp_all

lemma no_read2: "task2 l \<noteq> Read n k"
  by (cases l rule: task2.cases) simp_all

lemma no_read3: "task3 l \<noteq> Read n k"
  by (cases l rule: task3.cases) simp_all

interpretation progress1: program_progress task1 may for may
  by unfold_locales (rule no_read1)

interpretation progress2: program_progress task2 may for may
  by unfold_locales (rule no_read2)

interpretation progress3: program_progress task3 may for may
  by unfold_locales (rule no_read3)

section \<open>How many processes, and what they print\<close>

text \<open>The processes that will have existed, and the lines of each kind that will have been printed.\<close>

fun processes1 :: "site \<Rightarrow> int" where
  "processes1 First_fork = 3" | "processes1 (Second_fork c) = 2" | "processes1 l = 1"

fun processes2 :: "site \<Rightarrow> int" where
  "processes2 First_fork = 4" | "processes2 Child1_sleeps = 2" | "processes2 Child1_prints = 2"
| "processes2 (Second_fork c) = 2" | "processes2 l = 1"

fun child_lines2 :: "site \<Rightarrow> int" where
  "child_lines2 First_fork = 2" | "child_lines2 Child1_sleeps = 1" | "child_lines2 Child1_prints = 1"
| "child_lines2 (Second_fork c) = 1" | "child_lines2 Child2_sleeps = 1" | "child_lines2 Child2_prints = 1"
| "child_lines2 l = 0"

fun parent_lines2 :: "site \<Rightarrow> int" where
  "parent_lines2 First_fork = 2" | "parent_lines2 Child1_sleeps = 1" | "parent_lines2 Child1_prints = 1"
| "parent_lines2 (Second_fork c) = 1" | "parent_lines2 (Parent_prints c1 c2) = 1" | "parent_lines2 l = 0"

fun second_child :: "line \<Rightarrow> int" where
  "second_child (Child_line n pid g p) = (if n = 2 then 1 else 0)"
| "second_child l = 0"

fun parent_line :: "line \<Rightarrow> int" where
  "parent_line (Parent_line pid g c1 c2) = 1"
| "parent_line l = 0"

lemma report_counts [simp]: "second_child (report_line r) = 0" "parent_line (report_line r) = 0"
  by (cases r rule: report_line.cases; simp)+

interpretation count1: program_account task1 False "state_weight processes1 1" "\<lambda>_. 0"
proof unfold_locales
  show "w + g = state_weight processes1 1 (Running l)"
    if "ok \<or> False" "w \<in> next_weight (state_weight processes1 1) ok (task1 l) s" "g \<in> gains (\<lambda>_. 0) (task1 l)"
    for ok w l s g using that by (cases l rule: task1.cases) auto
qed simp

interpretation count3: program_account task3 False "state_weight processes1 1" "\<lambda>_. 0"
proof unfold_locales
  show "w + g = state_weight processes1 1 (Running l)"
    if "ok \<or> False" "w \<in> next_weight (state_weight processes1 1) ok (task3 l) s" "g \<in> gains (\<lambda>_. 0) (task3 l)"
    for ok w l s g using that by (cases l rule: task3.cases) auto
qed simp

interpretation count2: program_account task2 False "state_weight processes2 1" "\<lambda>_. 0"
proof unfold_locales
  show "w + g = state_weight processes2 1 (Running l)"
    if "ok \<or> False" "w \<in> next_weight (state_weight processes2 1) ok (task2 l) s" "g \<in> gains (\<lambda>_. 0) (task2 l)"
    for ok w l s g using that by (cases l rule: task2.cases) auto
qed simp

interpretation second2: program_account task2 False "state_weight child_lines2 0" second_child
proof unfold_locales
  show "w + g = state_weight child_lines2 0 (Running l)"
    if "ok \<or> False" "w \<in> next_weight (state_weight child_lines2 0) ok (task2 l) s" "g \<in> gains second_child (task2 l)"
    for ok w l s g using that by (cases l rule: task2.cases) auto
qed simp

interpretation parents2: program_account task2 False "state_weight parent_lines2 0" parent_line
proof unfold_locales
  show "w + g = state_weight parent_lines2 0 (Running l)"
    if "ok \<or> False" "w \<in> next_weight (state_weight parent_lines2 0) ok (task2 l) s" "g \<in> gains parent_line (task2 l)"
    for ok w l s g using that by (cases l rule: task2.cases) auto
qed simp

section \<open>Properties\<close>

lemma boot_rank: "ptally state_rank (boot First_fork) = 100"
  by (simp add: ptally_def boot_def)

text \<open>C26: \<open>task2.c\<close> runs four processes. If every \<open>fork\<close> succeeds, a run has at most 100 steps, and when
  no process can continue, four processes have existed, two of them have printed the line of the
  second child and two that of the parent: the first child does not return, so it forks as well.\<close>

theorem task2_four_processes:
  assumes "steps (pstep False task2) n (boot First_fork) s"
  shows "n \<le> 100 \<and> ((\<nexists>t. pstep False task2 s t) \<longrightarrow>
           length (procs s) = 4 \<and> line_total second_child s = 2 \<and> line_total parent_line s = 2)"
proof (intro conjI impI)
  show "n \<le> 100" using rank2.run_bound [OF assms] by (simp add: boot_rank)
  have reach: "reachable (\<lambda>s. s = boot First_fork) (pstep False task2) s"
    by (rule reachable_steps [OF assms]) (rule reach_init, rule refl)
  assume stuck: "\<nexists>t. pstep False task2 s t"
  have ended: "\<forall>p \<in> set (procs s). ended p"
    by (rule progress2.stuck_ended [OF family_steps [OF assms family_boot] stuck])
  show "length (procs s) = 4"
    using count2.account_reachable [OF reach] ended_weight [OF ended] by (simp add: total_zero)
  show "line_total second_child s = 2"
    using second2.account_reachable [OF reach] ended_weight [OF ended] by simp
  show "line_total parent_line s = 2"
    using parents2.account_reachable [OF reach] ended_weight [OF ended] by simp
qed

theorem task2_four_processes_witness:
  "\<exists>s :: (site, line) psystem. length (procs s) = 4 \<and> line_total second_child s = 2 \<and> line_total parent_line s = 2"
proof -
  obtain n s where s: "steps (pstep False task2) n (boot First_fork) s" "\<nexists>t. pstep False task2 s t"
    using rank2.reaches_final [of False "\<lambda>_. True" "boot First_fork"] by auto
  from task2_four_processes [OF s(1)] s(2) show ?thesis by blast
qed

text \<open>The other two programs run three processes.\<close>

lemma task1_three_processes:
  assumes "steps (pstep False task1) n (boot First_fork) s" "\<nexists>t. pstep False task1 s t"
  shows "length (procs s) = 3"
proof -
  have reach: "reachable (\<lambda>s. s = boot First_fork) (pstep False task1) s"
    by (rule reachable_steps [OF assms(1)]) (rule reach_init, rule refl)
  have "\<forall>p \<in> set (procs s). ended p"
    by (rule progress1.stuck_ended [OF family_steps [OF assms(1) family_boot] assms(2)])
  then show ?thesis using count1.account_reachable [OF reach] by (simp add: total_zero ended_weight)
qed

lemma task3_three_processes:
  assumes "steps (pstep False task3) n (boot First_fork) s" "\<nexists>t. pstep False task3 s t"
  shows "length (procs s) = 3"
proof -
  have reach: "reachable (\<lambda>s. s = boot First_fork) (pstep False task3) s"
    by (rule reachable_steps [OF assms(1)]) (rule reach_init, rule refl)
  have "\<forall>p \<in> set (procs s). ended p"
    by (rule progress3.stuck_ended [OF family_steps [OF assms(1) family_boot] assms(2)])
  then show ?thesis using count3.account_reachable [OF reach] by (simp add: total_zero ended_weight)
qed

section \<open>Roles\<close>

text \<open>Which process runs which part of \<open>task1.c\<close> and \<open>task3.c\<close>, and with which numbers.\<close>

fun role1 :: "nat \<Rightarrow> nat \<Rightarrow> site \<Rightarrow> bool" where
  "role1 0 n First_fork = (n = 1)"
| "role1 0 n (Second_fork c1) = (n = 2 \<and> c1 = 3)"
| "role1 0 n (Parent_prints c1 c2) = (n = 3 \<and> c1 = 3 \<and> c2 = 4)"
| "role1 (Suc 0) n Child1_sleeps = True"
| "role1 (Suc 0) n Child1_prints = True"
| "role1 (Suc (Suc 0)) n Child2_sleeps = True"
| "role1 (Suc (Suc 0)) n Child2_prints = True"
| "role1 i n (Leaves c) = (i \<le> 2)"
| "role1 i n l = False"

fun line1 :: "nat \<Rightarrow> line \<Rightarrow> bool" where
  "line1 i (Parent_line pid g c1 c2) = (i = 0 \<and> pid = 2 \<and> g = 2 \<and> c1 = 3 \<and> c2 = 4)"
| "line1 i (Child_line c pid g parent) = (i = c \<and> (c = 1 \<or> c = 2) \<and> pid = c + 2 \<and> g = 2 \<and> (parent = 1 \<or> parent = 2))"
| "line1 i m = False"

interpretation typing1: program_typing task1 may role1 line1 First_fork for may
proof unfold_locales
  show "role1 i n l'" if "role1 i n l" "l' \<in> targets n (task1 l)" for i n l l'
    using that by (cases "(i, n, l)" rule: role1.cases) auto
  show "i = 0 \<and> role1 0 (Suc n) (p (pid_of n)) \<and> (0 < n \<longrightarrow> role1 n (Suc n) c)"
    if "role1 i n l" "task1 l = Fork c p f" for i n l c p f
    using that by (cases "(i, n, l)" rule: role1.cases) (auto simp: pid_of_def numeral_2_eq_2)
  show "role1 i (Suc n) l" if "role1 i n l" "0 < i" for i n l
    using that by (cases "(i, n, l)" rule: role1.cases) auto
  show "line1 i (m (pid_of i) q)" if "role1 i n l" "task1 l = Say m k" "q = 1 \<or> 0 < i \<and> q = pid_of 0" for i n l m k q
    using that by (cases "(i, n, l)" rule: role1.cases) (auto simp: pid_of_def group_def)
qed simp

fun role3 :: "nat \<Rightarrow> nat \<Rightarrow> site \<Rightarrow> bool" where
  "role3 0 n First_fork = (n = 1)"
| "role3 0 n (Second_fork c1) = (n = 2 \<and> c1 = 3)"
| "role3 0 n (Parent_prints c1 c2) = (n = 3 \<and> c1 = 3 \<and> c2 = 4)"
| "role3 0 n (Waits k) = (n = 3 \<and> k \<le> 2)"
| "role3 0 n (Reports k r) = (n = 3 \<and> 1 \<le> k \<and> k \<le> 2 \<and> (case r of None \<Rightarrow> True | Some (p, w) \<Rightarrow> p = 3 \<or> p = 4))"
| "role3 (Suc 0) n Child1_prints = True"
| "role3 (Suc 0) n Child1_execs = True"
| "role3 (Suc (Suc 0)) n Child2_prints = True"
| "role3 (Suc (Suc 0)) n Child2_execs = True"
| "role3 i n (Leaves c) = (i \<le> 2)"
| "role3 i n l = False"

fun line3 :: "nat \<Rightarrow> line \<Rightarrow> bool" where
  "line3 i (Parent_line pid g c1 c2) = (i = 0 \<and> pid = 2 \<and> g = 2 \<and> c1 = 3 \<and> c2 = 4)"
| "line3 i (Child_line c pid g parent) = (i = c \<and> (c = 1 \<or> c = 2) \<and> pid = c + 2 \<and> g = 2 \<and> (parent = 1 \<or> parent = 2))"
| "line3 i (Finished child c) = (i = 0 \<and> (child = 3 \<or> child = 4))"
| "line3 i (From_signal child c) = (i = 0 \<and> (child = 3 \<or> child = 4))"
| "line3 i Undefined_status = (i = 0)"

lemma line3_report:
  "(case r of None \<Rightarrow> True | Some (p, w) \<Rightarrow> p = 3 \<or> p = 4) \<Longrightarrow> line3 i (report_line r) = (i = 0)"
  by (cases r rule: report_line.cases) auto

lemma waits3: "task3 (Waits k) \<noteq> Say m l"
  by (cases k) simp_all

interpretation typing3: program_typing task3 may role3 line3 First_fork for may
proof unfold_locales
  show "role3 i n l'" if "role3 i n l" "l' \<in> targets n (task3 l)" for i n l l'
    using that
    by (cases "(i, n, l)" rule: role3.cases; (cases l rule: task3.cases)?) (auto simp: pid_of_def split: option.splits)
  show "i = 0 \<and> role3 0 (Suc n) (p (pid_of n)) \<and> (0 < n \<longrightarrow> role3 n (Suc n) c)"
    if "role3 i n l" "task3 l = Fork c p f" for i n l c p f
    using that by (cases l rule: task3.cases; cases "(i, n, l)" rule: role3.cases) (auto simp: pid_of_def numeral_2_eq_2)
  show "role3 i (Suc n) l" if "role3 i n l" "0 < i" for i n l
    using that by (cases "(i, n, l)" rule: role3.cases) auto
  show "line3 i (m (pid_of i) q)" if "role3 i n l" "task3 l = Say m k" "q = 1 \<or> 0 < i \<and> q = pid_of 0" for i n l m k q
    using that by (cases "(i, n, l)" rule: role3.cases) (auto simp: pid_of_def group_def line3_report waits3)
qed simp

section \<open>Both children are waited for\<close>

text \<open>The lines process \<open>i\<close> has printed.\<close>

definition lines_of :: "nat \<Rightarrow> (nat \<times> 'm) list \<Rightarrow> 'm list" where
  "lines_of i xs = map snd (filter (\<lambda>x. fst x = pid_of i) xs)"

text \<open>The children that have been reported, and with what.\<close>

definition gone :: "('l, 'm) psystem \<Rightarrow> nat list \<Rightarrow> bool" where
  "gone s js \<longleftrightarrow> distinct js \<and> set js = {j. j < length (procs s) \<and> state_of (procs s ! j) = Gone}"

definition reports :: "(nat \<times> wstatus) list \<Rightarrow> line list" where
  "reports rs = Parent_line 2 2 3 4 # map (\<lambda>r. report_line (Some r)) rs"

text \<open>What the parent has printed and reported where it is; \<open>rs\<close> are the reports so far.\<close>

fun parent3 :: "site pstate \<Rightarrow> line list \<Rightarrow> (nat \<times> wstatus) list \<Rightarrow> bool" where
  "parent3 (Running First_fork) ls rs = (ls = [] \<and> rs = [])"
| "parent3 (Running (Second_fork c)) ls rs = (ls = [] \<and> rs = [])"
| "parent3 (Running (Parent_prints c d)) ls rs = (ls = [] \<and> rs = [])"
| "parent3 (Running (Waits k)) ls rs = (ls = reports rs \<and> k + length rs = 2)"
| "parent3 (Running (Reports k r)) ls rs =
     (\<exists>rs' x. rs = rs' @ [x] \<and> r = Some x \<and> ls = reports rs' \<and> k + length rs' = 2)"
| "parent3 (Zombie w) ls rs = (w = Exit_code 0 \<and> ls = reports rs \<and> length rs = 2)"
| "parent3 x ls rs = False"

definition waits_inv :: "(site, line) psystem \<Rightarrow> bool" where
  "waits_inv s \<longleftrightarrow> well_typed role3 line3 s \<and>
     (\<exists>rs js. gone s js \<and> map fst rs = map pid_of js \<and> parent3 (state_of (procs s ! 0)) (lines_of 0 (said s)) rs)"

lemma lines_of_append [simp]:
  "lines_of i (xs @ [(p, m)]) = lines_of i xs @ (if p = pid_of i then [m] else [])"
  by (simp add: lines_of_def)

text \<open>A step that only moves process \<open>i\<close>.\<close>

lemma gone_keep:
  assumes "gone s js" "length (procs t) = length (procs s)"
    and "\<And>j. j < length (procs s) \<Longrightarrow> state_of (procs t ! j) = Gone \<longleftrightarrow> state_of (procs s ! j) = Gone"
  shows "gone t js"
  using assms by (auto simp: gone_def)

lemma gone_go:
  assumes "gone s js" "i < length (procs s)" "state_of (procs s ! i) \<noteq> Gone" "procs t = procs (go_to i l s)"
  shows "gone t js"
  using assms by (intro gone_keep [OF assms(1)]) (auto simp: state_go split: if_splits)

lemma gone_finish:
  assumes "gone s js" "i < length (procs s)" "state_of (procs s ! i) \<noteq> Gone"
  shows "gone (finish i w s) js"
  using assms by (intro gone_keep [OF assms(1)]) (auto simp: state_finish split: if_splits)

lemma gone_more:
  assumes g: "gone s js" "j < length (procs s)" "state_of (procs s ! j) \<noteq> Gone" "length (procs t) = length (procs s)"
    and t: "\<And>k. k < length (procs s) \<Longrightarrow> state_of (procs t ! k) = Gone \<longleftrightarrow> k = j \<or> state_of (procs s ! k) = Gone"
  shows "gone t (js @ [j])"
proof -
  have "j \<notin> set js" using g(1,3) by (simp add: gone_def)
  moreover have "{k. k < length (procs t) \<and> state_of (procs t ! k) = Gone} = insert j (set js)"
    using g t by (auto simp: gone_def)
  ultimately show ?thesis using g(1) by (simp add: gone_def)
qed

lemma gone_fork:
  assumes g: "gone s js" and i: "i < length (procs s)" "state_of (procs s ! i) = Running l"
    and t: "procs t = procs (go_to i k s) @ [q]" and q: "state_of q = Running c"
  shows "gone t js"
proof -
  have "j < length (procs t) \<and> state_of (procs t ! j) = Gone \<longleftrightarrow> j < length (procs s) \<and> state_of (procs s ! j) = Gone" for j
  proof (cases "j < length (procs s)")
    case True
    with i show ?thesis by (simp add: t nth_append state_go)
  next
    case False
    with q show ?thesis by (auto simp: t nth_append less_Suc_eq)
  qed
  with g show ?thesis by (simp add: gone_def)
qed

lemma child_step3:
  assumes "role3 i (length (procs s)) l" "0 < i" "i < length (procs s)" "act True j i (task3 l) s = Some t"
    and r: "state_of (procs s ! i) = Running l"
  shows "length (procs t) = length (procs s) \<and> lines_of 0 (said t) = lines_of 0 (said s) \<and> state_of (procs t ! 0) = state_of (procs s ! 0) \<and>
    (\<forall>j < length (procs s). state_of (procs t ! j) = Gone \<longleftrightarrow> state_of (procs s ! j) = Gone)"
proof -
  have "0 < length (procs s)" using assms(2,3) by linarith
  then show ?thesis
    using assms by (cases "(i, length (procs s), l)" rule: role3.cases)
      (auto simp: state_go state_finish state_update pid_of_def split: if_splits)
qed

text \<open>A child that may be waited for exists until two have been reported.\<close>

lemma some_waitable3:
  assumes wt: "well_typed ty out s" and n: "length (procs s) = 3" and r: "state_of (procs s ! 0) = Running l"
    and g: "gone s js" "length js < 2"
  shows "list_ex (waitable 0) (procs s)"
proof -
  have "js \<noteq> [1, 2] \<and> \<not> {1, 2} \<subseteq> set js"
  proof
    show "\<not> {1, 2} \<subseteq> set js"
    proof
      assume "{1, 2} \<subseteq> set js"
      then have "card {1::nat, 2} \<le> card (set js)" by (intro card_mono) auto
      with g(2) card_length [of js] show False by simp
    qed
  qed (use g in auto)
  then obtain j where j: "j \<in> {1, 2}" "j \<notin> set js" by blast
  have "\<not> (j < length (procs s) \<and> state_of (procs s ! j) = Gone)" using j(2) g(1) by (simp add: gone_def)
  moreover have "j < length (procs s)" using j(1) n by auto
  ultimately have jn: "state_of (procs s ! j) \<noteq> Gone" "j < length (procs s)" by simp_all
  have "parent_of (procs s ! j) = parent_should s j" using wt jn(2) by (simp add: well_typed_def)
  moreover have "\<not> ended (procs s ! 0)" using r by (simp add: ended_def)
  moreover have "j \<noteq> 0" using j(1) by auto
  ultimately have "waitable 0 (procs s ! j)" using jn(1) by (simp add: waitable_def parent_should_def)
  then show ?thesis using jn(2) unfolding list_ex_iff by (metis nth_mem)
qed

lemma parent_step3:
  assumes wt: "well_typed role3 line3 s" and r: "state_of (procs s ! 0) = Running l"
    and g: "gone s js" "map fst rs = map pid_of js" and p: "parent3 (Running l) (lines_of 0 (said s)) rs"
    and a: "act True j 0 (task3 l) s = Some t"
  shows "\<exists>rs js. gone t js \<and> map fst rs = map pid_of js \<and> parent3 (state_of (procs t ! 0)) (lines_of 0 (said t)) rs"
proof -
  have l0: "0 < length (procs s)" using wt by (simp add: well_typed_def)
  then have role: "role3 0 (length (procs s)) l" using wt r by (simp add: well_typed_def)
  have len: "length js = length rs" using g(2) by (metis length_map)
  show ?thesis
  proof (cases l)
    case First_fork
    with p a have t: "rs = []" "lines_of 0 (said t) = []" "procs t = procs (go_to 0 (Second_fork (pid_of (length (procs s)))) s) @
        [(procs s ! 0)\<lparr>parent_of := pid_of 0, state_of := Running Child1_prints\<rparr>]" by auto
    have "gone t js" by (rule gone_fork [OF g(1) l0 r t(3)]) simp
    with t g l0 show ?thesis by (intro exI [of _ rs] exI [of _ js]) (simp add: nth_append state_go)
  next
    case (Second_fork c)
    with p a have t: "rs = []" "lines_of 0 (said t) = []" "procs t = procs (go_to 0 (Parent_prints c (pid_of (length (procs s)))) s) @
        [(procs s ! 0)\<lparr>parent_of := pid_of 0, state_of := Running Child2_prints\<rparr>]" by auto
    have "gone t js" by (rule gone_fork [OF g(1) l0 r t(3)]) simp
    with t g l0 show ?thesis by (intro exI [of _ rs] exI [of _ js]) (simp add: nth_append state_go)
  next
    case (Parent_prints c d)
    with role p a have t: "rs = []" "lines_of 0 (said t) = [Parent_line 2 2 3 4]" "procs t = procs (go_to 0 (Waits 2) s)"
      by (auto simp: pid_of_def group_def)
    have "gone t js" using l0 r by (intro gone_go [OF g(1) _ _ t(3)]) auto
    with t g l0 show ?thesis by (intro exI [of _ rs] exI [of _ js]) (simp add: state_go reports_def)
  next
    case (Waits k)
    show ?thesis
    proof (cases k)
      case 0
      with Waits a have t: "t = finish 0 (Exit_code 0) s" by simp
      have "gone t js" using l0 r unfolding t by (intro gone_finish [OF g(1)]) auto
      with 0 t g p l0 Waits show ?thesis by (intro exI [of _ rs] exI [of _ js]) (simp add: state_finish)
    next
      case (Suc k')
      with p Waits role len have w: "list_ex (waitable 0) (procs s)"
        by (intro some_waitable3 [OF wt _ r g(1)]) auto
      with a Waits Suc obtain w where j: "j < length (procs s)" "waitable 0 (procs s ! j)" "state_of (procs s ! j) = Zombie w"
        and t: "t = go_to 0 (Reports (Suc k') (Some (pid_of j, w))) (update_proc j (\<lambda>p. p\<lparr>state_of := Gone\<rparr>) s)"
        by (auto split: if_splits pstate.splits)
      have "j \<noteq> 0"
      proof
        assume "j = 0"
        with j(3) r show False by simp
      qed
      then have "gone t (js @ [j])"
        using j l0 r by (intro gone_more [OF g(1) j(1)]) (auto simp: t state_go state_update split: if_splits)
      moreover have "parent3 (state_of (procs t ! 0)) (lines_of 0 (said t)) (rs @ [(pid_of j, w)])"
        using p Waits Suc l0 by (simp add: t state_go)
      moreover have "map fst (rs @ [(pid_of j, w)]) = map pid_of (js @ [j])" using g(2) by simp
      ultimately show ?thesis by blast
    qed
  next
    case (Reports k x)
    with a have t: "lines_of 0 (said t) = lines_of 0 (said s) @ [report_line x]" "procs t = procs (go_to 0 (Waits (k - 1)) s)" by auto
    have "gone t js" using l0 r by (intro gone_go [OF g(1) _ _ t(2)]) auto
    moreover have "parent3 (state_of (procs t ! 0)) (lines_of 0 (said t)) rs"
      using p Reports role l0 by (auto simp: t state_go reports_def)
    ultimately show ?thesis using g(2) by blast
  qed (use p in auto)
qed

interpretation waits3: invariant "\<lambda>s. s = boot First_fork" "pstep False task3" waits_inv
proof unfold_locales
  show "waits_inv s" if "s = boot First_fork" for s :: "(site, line) psystem"
  proof -
    have "well_typed role3 line3 s" using that by (rule typing3.typing.inv_init)
    moreover have "gone s []" "lines_of 0 (said s) = []" "state_of (procs s ! 0) = Running First_fork"
      using that by (auto simp: gone_def boot_def lines_of_def)
    ultimately show ?thesis unfolding waits_inv_def by (intro conjI exI [of _ "[]"]) auto
  qed
  show "waits_inv t" if w: "waits_inv s" and st: "pstep False task3 s t" for s t
  proof -
    have wt: "well_typed role3 line3 s" "well_typed role3 line3 t"
      using w typing3.typing.inv_step [OF _ st] by (auto simp: waits_inv_def)
    obtain rs js where g: "gone s js" "map fst rs = map pid_of js" "parent3 (state_of (procs s ! 0)) (lines_of 0 (said s)) rs"
      using w by (auto simp: waits_inv_def)
    show ?thesis using st
    proof cases
      case (proc_acts i l ok j)
      then have a: "act True j i (task3 l) s = Some t" by simp
      have role: "role3 i (length (procs s)) l" using wt(1) proc_acts by (simp add: well_typed_def)
      show ?thesis
      proof (cases "i = 0")
        case True
        with parent_step3 [OF wt(1) _ g(1,2), of l j t] g(3) a proc_acts(2) wt(2) show ?thesis
          by (simp add: waits_inv_def)
      next
        case False
        with child_step3 [OF role _ proc_acts(1) a proc_acts(2)]
        have c: "length (procs t) = length (procs s)" "lines_of 0 (said t) = lines_of 0 (said s)"
          "state_of (procs t ! 0) = state_of (procs s ! 0)"
          "\<And>j. j < length (procs s) \<Longrightarrow> state_of (procs t ! j) = Gone \<longleftrightarrow> state_of (procs s ! j) = Gone" by simp_all
        have "gone t js" by (rule gone_keep [OF g(1) c(1,4)])
        with g wt(2) c(2,3) show ?thesis unfolding waits_inv_def by auto
      qed
    next
      case (replaced_ends i w)
      have "i \<noteq> 0"
      proof
        assume "i = 0"
        with g(3) replaced_ends(3) show False by simp
      qed
      moreover have "gone t js" using replaced_ends unfolding replaced_ends(1) by (intro gone_finish [OF g(1)]) auto
      moreover have "state_of (procs t ! 0) = state_of (procs s ! 0)"
        using \<open>i \<noteq> 0\<close> replaced_ends wt(1) by (simp add: state_finish well_typed_def)
      ultimately show ?thesis using g wt(2) replaced_ends(1) unfolding waits_inv_def by auto
    qed
  qed
qed

text \<open>C27: the process table of \<open>task1.c\<close> is well formed. In every reachable state, whether or not a
  \<open>fork\<close> fails, each process is at a place of its own part of the program; the parent of a child is the
  first process while that runs and \<open>init\<close> from its end on; and every line is one its process may print:
  process 2 prints its number, its group and the numbers 3 and 4 of its children, and each child its own
  number, the group 2 and the number of its parent, 2 or, once it is an orphan, 1.\<close>

theorem task1_well_formed:
  assumes "reachable (\<lambda>s. s = boot First_fork) (pstep may task1) s"
  shows "(\<forall>i < length (procs s). parent_of (procs s ! i) = (if i = 0 \<or> ended (procs s ! 0) then 1 else 2) \<and>
       (\<forall>l. state_of (procs s ! i) = Running l \<longrightarrow> role1 i (length (procs s)) l)) \<and>
    set (said s) \<subseteq> {(2, Parent_line 2 2 3 4)} \<union> {(c + 2, Child_line c (c + 2) 2 p) | c p. c \<in> {1, 2} \<and> p \<in> {1, 2}}"
proof -
  have wt: "well_typed role1 line1 s" using assms by (rule typing1.typing.reachable_inv)
  have "x \<in> {(2, Parent_line 2 2 3 4)} \<union> {(c + 2, Child_line c (c + 2) 2 p) | c p. c \<in> {1, 2} \<and> p \<in> {1, 2}}"
    if "x \<in> set (said s)" for x
  proof -
    obtain i where i: "fst x = pid_of i" "line1 i (snd x)" using wt \<open>x \<in> set (said s)\<close> by (auto simp: well_typed_def)
    then show ?thesis by (cases x; cases "snd x") (auto simp: pid_of_def)
  qed
  with wt show ?thesis unfolding well_typed_def parent_should_def by (auto simp: pid_of_def)
qed

theorem task1_well_formed_witness:
  "set (said (boot First_fork)) \<subseteq> {(2, Parent_line 2 2 3 4)} \<union> {(c + 2, Child_line c (c + 2) 2 p) | c p. c \<in> {1, 2} \<and> p \<in> {1, 2}}"
proof -
  have "reachable (\<lambda>s. s = boot First_fork) (pstep True task1) (boot First_fork)" by (rule reach_init) (rule refl)
  from task1_well_formed [OF this] show ?thesis by blast
qed

text \<open>C28: \<open>task3.c\<close> waits for both children. If no call fails and no process can continue, three processes
  have existed; the first has exited with 0 after it has printed its own line and then how each of the
  children 3 and 4 ended, in the order in which they were reported, and no child is left as a zombie.\<close>

theorem task3_waits_for_both:
  assumes "steps (pstep False task3) n (boot First_fork) s" and "\<nexists>t. pstep False task3 s t"
  shows "length (procs s) = 3 \<and> state_of (procs s ! 0) = Zombie (Exit_code 0) \<and>
    state_of (procs s ! 1) = Gone \<and> state_of (procs s ! 2) = Gone \<and>
    (\<exists>c d v w. {c, d} = {3, 4} \<and>
       lines_of 0 (said s) = [Parent_line 2 2 3 4, report_line (Some (c, v)), report_line (Some (d, w))])"
proof -
  have n: "length (procs s) = 3" by (rule task3_three_processes [OF assms])
  have "waits_inv s" using waits3.steps_inv [OF assms(1)] waits3.inv_init by blast
  then obtain rs js where g: "gone s js" "map fst rs = map pid_of js" and p: "parent3 (state_of (procs s ! 0)) (lines_of 0 (said s)) rs"
    by (auto simp: waits_inv_def)
  have "\<forall>p \<in> set (procs s). ended p"
    by (rule progress3.stuck_ended [OF family_steps [OF assms(1) family_boot] assms(2)])
  then have "ended (procs s ! 0)" using n by simp
  then obtain w where z: "state_of (procs s ! 0) = Zombie w"
    using p by (cases "state_of (procs s ! 0)") (auto simp: ended_def)
  with p have r: "w = Exit_code 0" "lines_of 0 (said s) = reports rs" "length rs = 2" by auto
  then obtain c v d w' where rs: "rs = [(c, v), (d, w')]" by (auto simp: length_Suc_conv numeral_2_eq_2)
  with g(2) obtain i j where js: "js = [i, j]" "c = pid_of i" "d = pid_of j" by (auto simp: map_eq_Cons_conv)
  have ij: "i \<noteq> j" "i < 3" "j < 3" "state_of (procs s ! i) = Gone" "state_of (procs s ! j) = Gone"
    using g(1) n by (auto simp: gone_def js)
  then have "i \<noteq> 0" "j \<noteq> 0" using z by (metis pstate.distinct(11))+
  with ij have "i = 1 \<and> j = 2 \<or> i = 2 \<and> j = 1" by linarith
  then have "{c, d} = {3, 4}" "state_of (procs s ! 1) = Gone" "state_of (procs s ! 2) = Gone"
    using ij by (auto simp: js pid_of_def)
  moreover have "lines_of 0 (said s) = [Parent_line 2 2 3 4, report_line (Some (c, v)), report_line (Some (d, w'))]"
    using r by (simp add: rs reports_def)
  ultimately show ?thesis using n z r(1) by blast
qed

theorem task3_waits_for_both_witness:
  "\<exists>s :: (site, line) psystem. length (procs s) = 3 \<and> state_of (procs s ! 1) = Gone \<and> state_of (procs s ! 2) = Gone"
proof -
  obtain n s where s: "steps (pstep False task3) n (boot First_fork) s" "\<nexists>t. pstep False task3 s t"
    using rank3.reaches_final [of False "\<lambda>_. True" "boot First_fork"] by auto
  from task3_waits_for_both [OF s] show ?thesis by blast
qed

end
