(* ===== verification/Pipe_Tasks.thy ===== *)
theory Pipe_Tasks
  imports Processes
begin

text \<open>
  The programs of \<open>5-semestr/lab4\<close> whose processes talk through a pipe: \<open>task4.c\<close> (two children
  write to their parent), \<open>task5.c\<close> (the parent writes to its child one of two messages, depending on
  a signal) and \<open>5.c\<close> (two children write to their parent if a signal has arrived).
\<close>

section \<open>\<open>task4.c\<close>\<close>

text \<open>
  \<open>write (descr[1], msg, 64)\<close> takes 64 bytes from an array that is shorter: the string, its zero byte
  and what lies behind it in memory.
\<close>

definition sends :: "string \<Rightarrow> char list \<Rightarrow> char list" where
  "sends msg behind = take 64 (msg @ nul # behind)"

datatype place4 =
  T4_Fork1 | T4_Child1 | T4_Write1 | T4_Fork2 | T4_Child2 | T4_Write2 | T4_Close | T4_Read1
  | T4_Read2 "char list" | T4_Print "char list" "char list" | T4_Wait nat
  | T4_Report nat "(nat \<times> wstatus) option" | T4_Exit nat

datatype line4 = Reads_lines "char list" "char list" | Child_ended nat wstatus | No_child

fun report4 :: "(nat \<times> wstatus) option \<Rightarrow> line4" where
  "report4 None = No_child"
| "report4 (Some (child, w)) = Child_ended child w"

text \<open>What lies behind the two arrays on the stacks of the children are parameters.\<close>

fun task4 :: "char list \<Rightarrow> char list \<Rightarrow> place4 \<Rightarrow> (place4, line4) action" where
  "task4 b1 b2 T4_Fork1 = Fork T4_Child1 (\<lambda>c1. T4_Fork2) (T4_Exit 1)"
| "task4 b1 b2 T4_Child1 = Close_read T4_Write1"
| "task4 b1 b2 T4_Write1 = Write (sends ''hello Solar system   '' b1) (T4_Exit 0)"
| "task4 b1 b2 T4_Fork2 = Fork T4_Child2 (\<lambda>c2. T4_Close) (T4_Exit 1)"
| "task4 b1 b2 T4_Child2 = Close_read T4_Write2"
| "task4 b1 b2 T4_Write2 = Write (sends ''hello Earth   '' b2) (T4_Exit 0)"
| "task4 b1 b2 T4_Close = Close_write T4_Read1"
| "task4 b1 b2 T4_Read1 = Read 64 T4_Read2"
| "task4 b1 b2 (T4_Read2 m1) = Read 64 (T4_Print m1)"
| "task4 b1 b2 (T4_Print m1 m2) = Say (\<lambda>pid parent. Reads_lines (c_str m1) (c_str m2)) (T4_Wait 2)"
| "task4 b1 b2 (T4_Wait (Suc k)) = Wait (T4_Report k)"
| "task4 b1 b2 (T4_Wait 0) = Quit 0"
| "task4 b1 b2 (T4_Report k r) = Say (\<lambda>pid parent. report4 r) (T4_Wait k)"
| "task4 b1 b2 (T4_Exit c) = Quit c"

text \<open>\<open>main\<close> begins with the call of \<open>pipe\<close>.\<close>

definition main4 :: "bool \<Rightarrow> (place4, line4) psystem" where
  "main4 pipe_ok = boot (if pipe_ok then T4_Fork1 else T4_Exit 1)"

section \<open>\<open>task5.c\<close>\<close>

text \<open>
  The child reads one byte at a time into \<open>msg\<close> until \<open>read\<close> returns 0; \<open>T5_Reading\<close> holds what it has
  read. The lines its signal handler prints are left out; of what \<open>perror\<close> prints the text it is given is kept.
\<close>

datatype place5 =
  T5_Fork | T5_Child | T5_Reading "char list" | T5_Got "char list" "char list" | T5_Tell "char list"
  | T5_Parent | T5_Waiting | T5_Sleep | T5_Test | T5_Send bool | T5_Error string | T5_Exit nat

datatype line5 = Waiting_for_signal | Child_read "char list" | Perror5 string

fun task5 :: "place5 \<Rightarrow> (place5, line5) action" where
  "task5 T5_Fork = Fork T5_Child (\<lambda>c. T5_Parent) (T5_Error ''Couldn't fork.'')"
| "task5 T5_Child = Close_write (T5_Reading [])"
| "task5 (T5_Reading msg) = Read 1 (T5_Got msg)"
| "task5 (T5_Got msg b) = Pause (if b = [] then T5_Tell msg else T5_Reading (msg @ b))"
| "task5 (T5_Tell msg) = Say (\<lambda>pid parent. Child_read msg) (T5_Exit 0)"
| "task5 T5_Parent = Close_read T5_Waiting"
| "task5 T5_Waiting = Say (\<lambda>pid parent. Waiting_for_signal) T5_Sleep"
| "task5 T5_Sleep = Pause T5_Test"
| "task5 T5_Test = Test T5_Send"
| "task5 (T5_Send flag) =
     Write (if flag then ''It`s my secret email for you, son. Father.'' else ''Hello my child!'') (T5_Exit 0)"
| "task5 (T5_Error msg) = Say (\<lambda>pid parent. Perror5 msg) (T5_Exit 1)"
| "task5 (T5_Exit c) = Quit c"

definition main5 :: "bool \<Rightarrow> (place5, line5) psystem" where
  "main5 pipe_ok = boot (if pipe_ok then T5_Fork else T5_Error ''Couldn't pipe.'')"

section \<open>\<open>5.c\<close>\<close>

text \<open>
  The parent reads into one static buffer of 64 bytes: a read at the end of the pipe leaves the last
  message in it.
\<close>

datatype place6 =
  T6_Fork nat | T6_Child nat | T6_Test nat | T6_Tested nat bool | T6_Write nat
  | T6_Sleep | T6_Close | T6_Loop nat "char list" | T6_Ask nat "char list" bool
  | T6_Read nat "char list" "char list" | T6_Tell nat "char list" | T6_Wait nat
  | T6_Report nat "(nat \<times> wstatus) option" | T6_Ok | T6_Error string | T6_Exit nat

datatype line6 = Message_from_child "char list" | Child_status nat wstatus | No_status | All_ok | Perror6 string

fun report6 :: "(nat \<times> wstatus) option \<Rightarrow> line6" where
  "report6 None = No_status"
| "report6 (Some (child, w)) = Child_status child w"

definition into_buffer :: "char list \<Rightarrow> char list \<Rightarrow> char list" where
  "into_buffer buffer bs = bs @ drop (length bs) buffer"

definition BUFFER_SIZE :: nat where "BUFFER_SIZE = 64"

fun task6 :: "char list \<Rightarrow> char list \<Rightarrow> place6 \<Rightarrow> (place6, line6) action" where
  "task6 b1 b2 (T6_Fork i) = Fork (T6_Child i) (\<lambda>c. if i = 0 then T6_Fork 1 else T6_Sleep) (T6_Error ''Can't fork.'')"
| "task6 b1 b2 (T6_Child i) = Pause (T6_Test i)"
| "task6 b1 b2 (T6_Test i) = Test (T6_Tested i)"
| "task6 b1 b2 (T6_Tested i flag) = (if flag then Close_read (T6_Write i) else Quit 0)"
| "task6 b1 b2 (T6_Write i) =
     Write (if i = 0 then sends ''gggffff115'' b1 else sends ''7788hhhhhjj'' b2) (T6_Exit 0)"
| "task6 b1 b2 T6_Sleep = Pause T6_Close"
| "task6 b1 b2 T6_Close = Close_write (T6_Loop 2 (replicate BUFFER_SIZE nul))"
| "task6 b1 b2 (T6_Loop n buf) = (if n = 0 then Pause (T6_Wait 2) else Test (T6_Ask n buf))"
| "task6 b1 b2 (T6_Ask n buf flag) = (if flag then Read BUFFER_SIZE (T6_Read n buf) else Pause (T6_Wait 2))"
| "task6 b1 b2 (T6_Read n buf bs) = Pause (T6_Tell n (into_buffer buf bs))"
| "task6 b1 b2 (T6_Tell n buf) = Say (\<lambda>pid parent. Message_from_child (c_str buf)) (T6_Loop (n - 1) buf)"
| "task6 b1 b2 (T6_Wait (Suc k)) = Wait (T6_Report k)"
| "task6 b1 b2 (T6_Wait 0) = Pause T6_Ok"
| "task6 b1 b2 (T6_Report k r) = Say (\<lambda>pid parent. report6 r) (T6_Wait k)"
| "task6 b1 b2 T6_Ok = Say (\<lambda>pid parent. All_ok) (T6_Exit 0)"
| "task6 b1 b2 (T6_Error msg) = Say (\<lambda>pid parent. Perror6 msg) (T6_Exit 1)"
| "task6 b1 b2 (T6_Exit c) = Quit c"

definition main6 :: "bool \<Rightarrow> (place6, line6) psystem" where
  "main6 pipe_ok = boot (if pipe_ok then T6_Fork 0 else T6_Error ''Can't create pipe.'')"

text \<open>Runs in which the signal may arrive at any time; calls of \<open>fork\<close> fail only if \<open>may\<close> says that they may.\<close>

inductive sigstep ::
  "bool \<Rightarrow> ('l \<Rightarrow> ('l, 'm) action) \<Rightarrow> ('l, 'm) psystem \<Rightarrow> ('l, 'm) psystem \<Rightarrow> bool" for may prog where
  process_runs: "pstep may prog s t \<Longrightarrow> sigstep may prog s t"
| signal_arrives: "sigstep may prog s (s\<lparr>interrupted := True\<rparr>)"

text \<open>A schedule: which process acts, or the signal; executable.\<close>

fun psched :: "('l \<Rightarrow> ('l, 'm) action) \<Rightarrow> nat option list \<Rightarrow> ('l, 'm) psystem \<Rightarrow> ('l, 'm) psystem option" where
  "psched prog [] s = Some s"
| "psched prog (None # cs) s = psched prog cs (s\<lparr>interrupted := True\<rparr>)"
| "psched prog (Some i # cs) s =
     (if length (procs s) \<le> i then None
      else case state_of (procs s ! i) of
          Running l \<Rightarrow> (case act True 0 i (prog l) s of None \<Rightarrow> None | Some t \<Rightarrow> psched prog cs t)
        | _ \<Rightarrow> None)"

lemma psched_reachable:
  "psched prog cs s = Some t \<Longrightarrow> reachable ini (sigstep may prog) s \<Longrightarrow> reachable ini (sigstep may prog) t"
proof (induction prog cs s rule: psched.induct)
  case (2 prog cs s)
  then show ?case by (auto intro: reach_step signal_arrives)
next
  case (3 prog i cs s)
  then obtain l u where u: "i < length (procs s)" "state_of (procs s ! i) = Running l"
    "act True 0 i (prog l) s = Some u" "psched prog cs u = Some t"
    by (auto split: if_splits pstate.splits option.splits)
  then have "sigstep may prog s u" by (blast intro: process_runs proc_acts)
  with 3 u show ?case by (meson leD reach_step)
qed simp

lemma c_str_sends: "nul \<notin> set msg \<Longrightarrow> length msg < 64 \<Longrightarrow> c_str (sends msg behind) = msg"
  by (simp add: sends_def take_Cons' c_str_append)

section \<open>What the parent of \<open>task4.c\<close> reads\<close>

text \<open>The two messages, with enough readable memory behind them.\<close>

definition solar :: "char list \<Rightarrow> char list" where "solar b = sends ''hello Solar system   '' b"
definition earth :: "char list \<Rightarrow> char list" where "earth b = sends ''hello Earth   '' b"

lemma block_length: "64 \<le> length b \<Longrightarrow> length (solar b) = 64" "64 \<le> length b \<Longrightarrow> length (earth b) = 64"
  by (simp_all add: solar_def earth_def sends_def)

text \<open>A child has written its message or is about to.\<close>

fun child4 :: "bool \<Rightarrow> place4 pstate \<Rightarrow> bool \<Rightarrow> bool" where
  "child4 w (Running l) first = (if l = T4_Exit 0 then w
     else \<not> w \<and> l \<in> (if first then {T4_Child1, T4_Write1} else {T4_Child2, T4_Write2}))"
| "child4 w Replaced first = False"
| "child4 w x first = w"

definition orders :: "char list \<Rightarrow> char list \<Rightarrow> bool \<Rightarrow> bool \<Rightarrow> char list list set" where
  "orders A B w1 w2 =
     (if w1 then if w2 then {[A, B], [B, A]} else {[A]} else if w2 then {[B]} else {[]})"

fun parent4 :: "char list list \<Rightarrow> (place4, line4) psystem \<Rightarrow> place4 pstate \<Rightarrow> bool" where
  "parent4 W s (Running T4_Close) = (can_read (procs s ! 0) \<and> pipe_of s = concat W)"
| "parent4 W s (Running T4_Read1) = (can_read (procs s ! 0) \<and> pipe_of s = concat W)"
| "parent4 W s (Running (T4_Read2 m)) =
     (can_read (procs s ! 0) \<and> (\<exists>W'. W = m # W' \<and> pipe_of s = concat W'))"
| "parent4 W s (Running (T4_Print m1 m2)) = (W = [m1, m2])"
| "parent4 W s (Running (T4_Wait k)) =
     (length W = 2 \<and> Reads_lines (c_str (W ! 0)) (c_str (W ! 1)) \<in> snd ` set (said s))"
| "parent4 W s (Running (T4_Report k r)) =
     (length W = 2 \<and> Reads_lines (c_str (W ! 0)) (c_str (W ! 1)) \<in> snd ` set (said s))"
| "parent4 W s (Zombie w) =
     (length W = 2 \<and> Reads_lines (c_str (W ! 0)) (c_str (W ! 1)) \<in> snd ` set (said s))"
| "parent4 W s x = False"

definition inv4 :: "char list \<Rightarrow> char list \<Rightarrow> (place4, line4) psystem \<Rightarrow> bool" where
  "inv4 A B s \<longleftrightarrow>
     (\<exists>p. procs s = [p] \<and> state_of p = Running T4_Fork1 \<and> can_read p \<and> can_write p \<and> pipe_of s = []) \<or>
     (\<exists>p p1 w1. procs s = [p, p1] \<and> state_of p = Running T4_Fork2 \<and> can_read p \<and> can_write p \<and>
        child4 w1 (state_of p1) True \<and> (\<not> w1 \<longrightarrow> can_write p1) \<and> pipe_of s = (if w1 then A else [])) \<or>
     (\<exists>p p1 p2 w1 w2 W. procs s = [p, p1, p2] \<and> child4 w1 (state_of p1) True \<and> child4 w2 (state_of p2) False \<and>
        (\<not> w1 \<longrightarrow> can_write p1) \<and> (\<not> w2 \<longrightarrow> can_write p2) \<and> W \<in> orders A B w1 w2 \<and> parent4 W s (state_of p))"

lemma inv4_boot: "inv4 A B (boot T4_Fork1)"
  by (simp add: inv4_def boot_def)

lemmas act_simps = go_to_def update_proc_def finish_def Let_def nth_Cons' pid_of_def

text \<open>Before the second \<open>fork\<close>.\<close>

lemma inv4_one:
  assumes "procs s = [p]" "state_of p = Running T4_Fork1" "can_read p" "can_write p" "pipe_of s = []"
    and st: "pstep False (task4 b1 b2) s t"
  shows "inv4 A B t"
  using st assms
  by cases (auto simp: act_simps inv4_def)

text \<open>How the three forms of the invariant are established.\<close>

lemma inv4_pair:
  "procs s = [p, p1] \<Longrightarrow> state_of p = Running T4_Fork2 \<Longrightarrow> can_read p \<Longrightarrow> can_write p \<Longrightarrow>
     child4 w1 (state_of p1) True \<Longrightarrow> \<not> w1 \<longrightarrow> can_write p1 \<Longrightarrow> pipe_of s = (if w1 then A else []) \<Longrightarrow>
     inv4 A B s"
  unfolding inv4_def by (intro disjI2 disjI1 exI conjI) (assumption | rule refl)+

lemma inv4_all:
  "procs s = [p, p1, p2] \<Longrightarrow> child4 w1 (state_of p1) True \<Longrightarrow> child4 w2 (state_of p2) False \<Longrightarrow>
     \<not> w1 \<longrightarrow> can_write p1 \<Longrightarrow> \<not> w2 \<longrightarrow> can_write p2 \<Longrightarrow> W \<in> orders A B w1 w2 \<Longrightarrow>
     parent4 W s (state_of p) \<Longrightarrow> inv4 A B s"
  unfolding inv4_def by (intro disjI2 exI conjI) (assumption | rule refl)+

lemma inv4_two:
  assumes s: "procs s = [p, p1]" "state_of p = Running T4_Fork2" "can_read p" "can_write p"
    "child4 w1 (state_of p1) True" "\<not> w1 \<longrightarrow> can_write p1" "pipe_of s = (if w1 then solar b1 else [])"
    and st: "pstep False (task4 b1 b2) s t"
  shows "inv4 (solar b1) (earth b2) t"
  using st
proof cases
  case (proc_acts i l ok j)
  then consider "i = 0" "l = T4_Fork2" | "i = 1" "state_of p1 = Running l"
    using s by (cases i) auto
  then show ?thesis
  proof cases
    case 1
    with proc_acts s obtain q p2 where t: "procs t = [q, p1, p2]" "state_of q = Running T4_Close" "can_read q"
      "state_of p2 = Running T4_Child2" "can_write p2" "pipe_of t = pipe_of s"
      by (auto simp: act_simps)
    show ?thesis
      by (rule inv4_all [where W = "if w1 then [solar b1] else []", OF t(1) s(5), of False])
        (use t s in \<open>simp_all add: orders_def\<close>)
  next
    case 2
    with s(5) consider "w1" "l = T4_Exit 0" | "\<not> w1" "l = T4_Child1" | "\<not> w1" "l = T4_Write1"
      by (auto split: if_splits)
    then show ?thesis
    proof cases
      case 1
      with 2 proc_acts s obtain p' q where "procs t = [p', q]" "state_of q = Zombie (Exit_code 0)" "pipe_of t = pipe_of s"
        "state_of p' = state_of p" "can_read p' = can_read p" "can_write p' = can_write p"
        by (auto simp: act_simps split: if_splits)
      with s 1 show ?thesis
        by (intro inv4_pair [where p = p' and ?p1.0 = q and ?w1.0 = True]) simp_all
    next
      case c: 2
      with 2 proc_acts s obtain q where "procs t = [p, q]" "state_of q = Running T4_Write1" "can_write q" "pipe_of t = pipe_of s"
        by (auto simp: act_simps)
      with s c show ?thesis
        by (intro inv4_pair [where p = p and ?p1.0 = q and ?w1.0 = False]) simp_all
    next
      case c: 3
      with 2 proc_acts s obtain q where "procs t = [p, q]" "state_of q = Running (T4_Exit 0)" "pipe_of t = pipe_of s @ solar b1"
        by (auto simp: act_simps solar_def)
      with s c show ?thesis
        by (intro inv4_pair [where p = p and ?p1.0 = q and ?w1.0 = True]) simp_all
    qed
  qed
next
  case (replaced_ends i w)
  then show ?thesis using s by (cases i) auto
qed

text \<open>All three processes.\<close>

lemma parent4_cong:
  "can_read (procs t ! 0) = can_read (procs s ! 0) \<Longrightarrow> pipe_of t = pipe_of s \<Longrightarrow> said t = said s \<Longrightarrow>
     parent4 W t x = parent4 W s x"
  by (cases "(W, t, x)" rule: parent4.cases) auto

lemma parent4_written:
  "parent4 W s x \<Longrightarrow> length W < 2 \<Longrightarrow> can_read (procs t ! 0) = can_read (procs s ! 0) \<Longrightarrow>
     pipe_of t = pipe_of s @ m \<Longrightarrow> parent4 (W @ [m]) t x"
  by (cases "(W, s, x)" rule: parent4.cases) auto

lemma parent4_reader: "parent4 W s x \<Longrightarrow> length W < 2 \<Longrightarrow> can_read (procs s ! 0)"
  by (cases "(W, s, x)" rule: parent4.cases) auto

lemma orders_length: "W \<in> orders A B w1 w2 \<Longrightarrow> length W = (if w1 then 1 else 0) + (if w2 then 1 else 0)"
  by (auto simp: orders_def split: if_splits)

lemma orders_written:
  "W \<in> orders A B False w2 \<Longrightarrow> W @ [A] \<in> orders A B True w2"
  "W \<in> orders A B w1 False \<Longrightarrow> W @ [B] \<in> orders A B w1 True"
  by (auto simp: orders_def split: if_splits)

text \<open>What a child does.\<close>

lemma child4_act:
  assumes c: "child4 w (Running l) first" "\<not> w \<longrightarrow> can_write (procs s ! i)" "i < length (procs s)"
    and r: "\<not> w \<longrightarrow> i \<noteq> 0 \<and> can_read (procs s ! 0)"
    and a: "act ok j i (task4 b1 b2 l) s = Some t"
  obtains (ends) "w" "l = T4_Exit 0" "t = finish i (Exit_code 0) s"
  | (opens) q where "\<not> w" "procs t = (procs s)[i := q]" "child4 w (state_of q) first" "can_write q"
      "pipe_of t = pipe_of s" "said t = said s"
  | (writes) q where "\<not> w" "procs t = (procs s)[i := q]" "child4 True (state_of q) first"
      "pipe_of t = pipe_of s @ (if first then solar b1 else earth b2)" "said t = said s"
proof -
  from c(1) consider "w" "l = T4_Exit 0" | "\<not> w" "l = (if first then T4_Child1 else T4_Child2)"
    | "\<not> w" "l = (if first then T4_Write1 else T4_Write2)"
    by (auto split: if_splits)
  then show thesis
  proof cases
    case 1
    with a show thesis by (intro ends) auto
  next
    case 2
    let ?q = "(procs s ! i)\<lparr>state_of := Running (if first then T4_Write1 else T4_Write2), can_read := False\<rparr>"
    from 2 a have t: "t = s\<lparr>procs := (procs s)[i := ?q]\<rparr>"
      by (cases first) (simp_all add: update_proc_def)
    show thesis
      by (rule opens [of ?q]) (use 2 c t in auto)
  next
    case 3
    let ?q = "(procs s ! i)\<lparr>state_of := Running (T4_Exit 0)\<rparr>"
    have "list_ex can_read (procs s)" using r c 3 by (auto simp: list_ex_length intro!: exI [of _ 0])
    with 3 a have t: "t = s\<lparr>procs := (procs s)[i := ?q],
        pipe_of := pipe_of s @ (if first then solar b1 else earth b2)\<rparr>"
      by (cases first) (simp_all add: go_to_def update_proc_def solar_def earth_def)
    show thesis
      by (rule writes [of ?q]) (use 3 c t in auto)
  qed
qed

text \<open>What the parent does once both children exist.\<close>

lemma parent4_act:
  assumes q: "procs s = [p, p1, p2]" "state_of p = Running l" "parent4 W s (state_of p)"
    and b: "64 \<le> length b1" "64 \<le> length b2" and W: "W \<in> orders (solar b1) (earth b2) w1 w2"
    and w: "\<not> w1 \<longrightarrow> can_write p1" "\<not> w2 \<longrightarrow> can_write p2"
    and a: "act True j 0 (task4 b1 b2 l) s = Some t" and l: "\<forall>k. l \<noteq> T4_Wait k"
  shows "\<exists>q. procs t = [q, p1, p2] \<and> parent4 W t (state_of q)"
proof -
  have len: "length m = 64" if "m \<in> set W" for m
    using W b that by (auto simp: orders_def block_length split: if_splits)
  have two: "length W = 2" if "w1" "w2" using orders_length [OF W] that by simp
  have most: "length W \<le> 2" using orders_length [OF W] by simp
  consider "l = T4_Close" | "l = T4_Read1" | m where "l = T4_Read2 m" | m1 m2 where "l = T4_Print m1 m2"
    | k r where "l = T4_Report k r"
    using q l by (cases l) auto
  then show ?thesis
  proof cases
    case 2
    have "W \<noteq> []"
    proof
      assume "W = []"
      with a q w 2 two show False by (auto split: if_splits)
    qed
    then obtain m W' where "W = m # W'" by (cases W) auto
    with 2 a q len [of m] show ?thesis by (auto simp: act_simps split: if_splits)
  next
    case (3 m)
    with q obtain W' where W': "W = m # W'" "pipe_of s = concat W'" by auto
    have "W' \<noteq> []"
    proof
      assume "W' = []"
      with a q w 3 two W' show False by (auto split: if_splits)
    qed
    with W' most obtain m' where "W' = [m']" by (cases W') auto
    with 3 a q W' len [of m'] show ?thesis by (auto simp: act_simps split: if_splits)
  next
    case (5 k r)
    with a q have "t = s\<lparr>procs := [p\<lparr>state_of := Running (T4_Wait k)\<rparr>, p1, p2], said := said s @ [(2, report4 r)]\<rparr>"
      by (simp add: act_simps eval_nat_numeral)
    with q 5 show ?thesis by simp
  qed (use a q in \<open>auto simp: act_simps\<close>)
qed

lemma finish_three:
  assumes "procs s = [p, p1, p2]" "i < 3"
  obtains q q1 q2 where "procs (finish i w s) = [q, q1, q2]"
    "state_of q = (if i = 0 then Zombie w else state_of p)"
    "state_of q1 = (if i = 1 then Zombie w else state_of p1)"
    "state_of q2 = (if i = 2 then Zombie w else state_of p2)"
    "i \<noteq> 0 \<longrightarrow> can_read q = can_read p" "i \<noteq> 1 \<longrightarrow> can_write q1 = can_write p1"
    "i \<noteq> 2 \<longrightarrow> can_write q2 = can_write p2"
    "pipe_of (finish i w s) = pipe_of s" "said (finish i w s) = said s"
proof -
  let ?f = "\<lambda>x. if parent_of x = pid_of i then x\<lparr>parent_of := 1\<rparr> else x"
  let ?z = "\<lambda>x. (?f x)\<lparr>state_of := Zombie w, can_read := False, can_write := False\<rparr>"
  have "procs (finish i w s) = [if i = 0 then ?z p else ?f p, if i = 1 then ?z p1 else ?f p1,
      if i = 2 then ?z p2 else ?f p2]"
    using assms by (auto simp: finish_def Let_def nth_Cons' eval_nat_numeral less_Suc_eq)
  then show thesis by (rule that) (simp_all add: finish_def Let_def)
qed

fun is_zombie :: "'l pstate \<Rightarrow> bool" where
  "is_zombie (Zombie w) = True"
| "is_zombie x = False"

lemma wait_three:
  assumes s: "procs s = [p, p1, p2]" "state_of p = Running l"
    and a: "act ok j 0 (Wait k) s = Some t"
  shows "\<exists>q q1 q2 r. procs t = [q, q1, q2] \<and> state_of q = Running (k r) \<and>
    (state_of q1 = state_of p1 \<or> is_zombie (state_of p1) \<and> state_of q1 = Gone) \<and>
    (state_of q2 = state_of p2 \<or> is_zombie (state_of p2) \<and> state_of q2 = Gone) \<and>
    can_write q1 = can_write p1 \<and> can_write q2 = can_write p2 \<and> said t = said s"
proof (cases "list_ex (waitable 0) (procs s)")
  case True
  with a obtain w where j: "j < length (procs s)" "state_of (procs s ! j) = Zombie w"
    and t: "t = go_to 0 (k (Some (pid_of j, w))) (update_proc j (\<lambda>p. p\<lparr>state_of := Gone\<rparr>) s)"
    by (auto split: if_splits pstate.splits)
  from j s consider "j = 1" "state_of p1 = Zombie w" | "j = 2" "state_of p2 = Zombie w"
    by (auto simp: less_Suc_eq)
  then show ?thesis by cases (auto simp: s t go_to_def update_proc_def eval_nat_numeral)
next
  case False
  with a have "t = go_to 0 (k None) s" by simp
  then show ?thesis by (simp add: s go_to_def update_proc_def) blast
qed

text \<open>The invariant is kept by each of the three processes.\<close>

lemma inv4_three:
  assumes s: "procs s = [p, p1, p2]" "child4 w1 (state_of p1) True" "child4 w2 (state_of p2) False"
      "\<not> w1 \<longrightarrow> can_write p1" "\<not> w2 \<longrightarrow> can_write p2"
      "W \<in> orders (solar b1) (earth b2) w1 w2" "parent4 W s (state_of p)"
    and b: "64 \<le> length b1" "64 \<le> length b2"
    and st: "pstep False (task4 b1 b2) s t"
  shows "inv4 (solar b1) (earth b2) t"
  using st
proof cases
  case (replaced_ends i w)
  then consider "i = 0" "state_of p = Replaced" | "i = 1" "state_of p1 = Replaced" | "i = 2" "state_of p2 = Replaced"
    using s(1) by (auto simp: less_Suc_eq)
  then show ?thesis using s by cases auto
next
  case (proc_acts i l ok j)
  then consider "i = 0" "state_of p = Running l" | "i = 1" "state_of p1 = Running l" | "i = 2" "state_of p2 = Running l"
    using s(1) by (auto simp: less_Suc_eq)
  then show ?thesis
  proof cases
    case 1
    show ?thesis
    proof (cases "\<exists>k. l = T4_Wait k")
      case False
      with parent4_act [OF s(1) 1(2) s(7) b s(6) s(4) s(5), of j t] 1 proc_acts
      obtain q where "procs t = [q, p1, p2]" "parent4 W t (state_of q)" by auto
      then show ?thesis using s by (intro inv4_all [of t q p1 p2 w1 w2 W]) simp_all
    next
      case True
      then obtain k where k: "l = T4_Wait k" by blast
      show ?thesis
      proof (cases k)
        case 0
        then have "t = finish 0 (Exit_code 0) s" using k 1 proc_acts by simp
        moreover obtain q q1 q2 where "procs (finish 0 (Exit_code 0) s) = [q, q1, q2]"
          "state_of q = Zombie (Exit_code 0)" "state_of q1 = state_of p1" "state_of q2 = state_of p2"
          "can_write q1 = can_write p1" "can_write q2 = can_write p2"
          "pipe_of (finish 0 (Exit_code 0) s) = pipe_of s" "said (finish 0 (Exit_code 0) s) = said s"
          using finish_three [OF s(1), of 0 "Exit_code 0"] by auto
        ultimately show ?thesis using s k 1
          by (intro inv4_all [of t q q1 q2 w1 w2 W]) simp_all
      next
        case (Suc m)
        have a: "act ok j 0 (Wait (T4_Report m)) s = Some t" using k Suc 1 proc_acts by simp
        obtain q q1 q2 r where "procs t = [q, q1, q2]" "state_of q = Running (T4_Report m r)"
          "state_of q1 = state_of p1 \<or> is_zombie (state_of p1) \<and> state_of q1 = Gone"
          "state_of q2 = state_of p2 \<or> is_zombie (state_of p2) \<and> state_of q2 = Gone"
          "can_write q1 = can_write p1" "can_write q2 = can_write p2" "said t = said s"
          using wait_three [OF s(1) 1(2) a] by blast
        then show ?thesis using s k 1
          by (intro inv4_all [of t q q1 q2 w1 w2 W]) (auto elim: is_zombie.elims)
      qed
    qed
  next
    case 2
    have r: "\<not> w1 \<longrightarrow> (1::nat) \<noteq> 0 \<and> can_read (procs s ! 0)"
      using parent4_reader [OF s(7)] orders_length [OF s(6)] by auto
    have a: "act ok j 1 (task4 b1 b2 l) s = Some t" using 2 proc_acts by simp
    have c: "child4 w1 (Running l) True" "\<not> w1 \<longrightarrow> can_write (procs s ! 1)" "1 < length (procs s)"
      using s 2 by simp_all
    from c r a show ?thesis
    proof (cases rule: child4_act)
      case ends
      obtain q q1 q2 where q: "procs t = [q, q1, q2]" "state_of q = state_of p"
        "state_of q1 = Zombie (Exit_code 0)" "state_of q2 = state_of p2" "can_read q = can_read p"
        "can_write q2 = can_write p2" "pipe_of t = pipe_of s" "said t = said s"
        using finish_three [OF s(1), of 1 "Exit_code 0"] ends by auto
      have "parent4 W t (state_of p)" using parent4_cong [of t s W "state_of p"] q s by simp
      then show ?thesis using s q ends(1)
        by (intro inv4_all [of t q q1 q2 w1 w2 W]) simp_all
    next
      case (opens q)
      then show ?thesis using s
        by (intro inv4_all [of t p q p2 w1 w2 W]) (simp_all add: parent4_cong [of t s])
    next
      case (writes q)
      then show ?thesis using s orders_length [OF s(6)]
        by (intro inv4_all [of t p q p2 True w2 "W @ [solar b1]"])
          (simp_all add: orders_written parent4_written [of W s])
    qed
  next
    case 3
    have r: "\<not> w2 \<longrightarrow> (2::nat) \<noteq> 0 \<and> can_read (procs s ! 0)"
      using parent4_reader [OF s(7)] orders_length [OF s(6)] by auto
    have a: "act ok j 2 (task4 b1 b2 l) s = Some t" using 3 proc_acts by simp
    have c: "child4 w2 (Running l) False" "\<not> w2 \<longrightarrow> can_write (procs s ! 2)" "2 < length (procs s)"
      using s 3 by simp_all
    from c r a show ?thesis
    proof (cases rule: child4_act)
      case ends
      obtain q q1 q2 where q: "procs t = [q, q1, q2]" "state_of q = state_of p"
        "state_of q1 = state_of p1" "state_of q2 = Zombie (Exit_code 0)" "can_read q = can_read p"
        "can_write q1 = can_write p1" "pipe_of t = pipe_of s" "said t = said s"
        using finish_three [OF s(1), of 2 "Exit_code 0"] ends by auto
      have "parent4 W t (state_of p)" using parent4_cong [of t s W "state_of p"] q s by simp
      then show ?thesis using s q ends(1)
        by (intro inv4_all [of t q q1 q2 w1 w2 W]) simp_all
    next
      case (opens q)
      then show ?thesis using s
        by (intro inv4_all [of t p p1 q w1 w2 W]) (simp_all add: parent4_cong [of t s])
    next
      case (writes q)
      then show ?thesis using s orders_length [OF s(6)]
        by (intro inv4_all [of t p p1 q w1 True "W @ [earth b2]"])
          (simp_all add: orders_written parent4_written [of W s])
    qed
  qed
qed

lemma inv4_cases [consumes 1, case_names one two three]:
  assumes "inv4 A B s"
    and "\<And>p. procs s = [p] \<Longrightarrow> state_of p = Running T4_Fork1 \<Longrightarrow> can_read p \<Longrightarrow> can_write p \<Longrightarrow>
      pipe_of s = [] \<Longrightarrow> thesis"
    and "\<And>p p1 w1. procs s = [p, p1] \<Longrightarrow> state_of p = Running T4_Fork2 \<Longrightarrow> can_read p \<Longrightarrow> can_write p \<Longrightarrow>
      child4 w1 (state_of p1) True \<Longrightarrow> \<not> w1 \<longrightarrow> can_write p1 \<Longrightarrow> pipe_of s = (if w1 then A else []) \<Longrightarrow> thesis"
    and "\<And>p p1 p2 w1 w2 W. procs s = [p, p1, p2] \<Longrightarrow> child4 w1 (state_of p1) True \<Longrightarrow>
      child4 w2 (state_of p2) False \<Longrightarrow> \<not> w1 \<longrightarrow> can_write p1 \<Longrightarrow> \<not> w2 \<longrightarrow> can_write p2 \<Longrightarrow>
      W \<in> orders A B w1 w2 \<Longrightarrow> parent4 W s (state_of p) \<Longrightarrow> thesis"
  shows thesis
  using assms(1) unfolding inv4_def
  by (elim disjE exE conjE) (fact assms(2), fact assms(3), fact assms(4))

interpretation run4: invariant "\<lambda>s. s = boot T4_Fork1" "pstep False (task4 b1 b2)"
    "\<lambda>s. 64 \<le> length b1 \<and> 64 \<le> length b2 \<longrightarrow> inv4 (solar b1) (earth b2) s" for b1 b2
proof unfold_locales
  fix s t :: "(place4, line4) psystem"
  assume inv: "64 \<le> length b1 \<and> 64 \<le> length b2 \<longrightarrow> inv4 (solar b1) (earth b2) s"
    and st: "pstep False (task4 b1 b2) s t"
  show "64 \<le> length b1 \<and> 64 \<le> length b2 \<longrightarrow> inv4 (solar b1) (earth b2) t"
  proof
    assume b: "64 \<le> length b1 \<and> 64 \<le> length b2"
    with inv have "inv4 (solar b1) (earth b2) s" by blast
    then show "inv4 (solar b1) (earth b2) t"
    proof (cases rule: inv4_cases)
      case one
      then show ?thesis using inv4_one st by blast
    next
      case two
      then show ?thesis using inv4_two st by blast
    next
      case three
      then show ?thesis using inv4_three st b by blast
    qed
  qed
qed (simp add: inv4_boot)

text \<open>Every run ends: the weight of the locations.\<close>

fun rank4 :: "place4 pstate \<Rightarrow> int" where
  "rank4 (Running T4_Fork1) = 40"
| "rank4 (Running T4_Child1) = 3"
| "rank4 (Running T4_Write1) = 2"
| "rank4 (Running T4_Fork2) = 30"
| "rank4 (Running T4_Child2) = 3"
| "rank4 (Running T4_Write2) = 2"
| "rank4 (Running T4_Close) = 20"
| "rank4 (Running T4_Read1) = 19"
| "rank4 (Running (T4_Read2 m)) = 18"
| "rank4 (Running (T4_Print m1 m2)) = 17"
| "rank4 (Running (T4_Wait k)) = 2 * int k + 1"
| "rank4 (Running (T4_Report k r)) = 2 * int k + 2"
| "rank4 (Running (T4_Exit c)) = 1"
| "rank4 Replaced = 1"
| "rank4 x = 0"

lemma rank4_nonneg: "0 \<le> rank4 x"
  by (cases x rule: rank4.cases) simp_all

interpretation rank4: program_rank "task4 b1 b2" may rank4 for b1 b2 may
proof unfold_locales
  show "w < rank4 (Running l)"
    if "w \<in> next_weight rank4 ok (task4 b1 b2 l) (s :: (place4, line4) psystem)" for w ok l s
    using that by (cases "(b1, b2, l)" rule: task4.cases; auto split: if_splits)
qed (simp_all add: rank4_nonneg)

lemma boot_rank4: "ptally rank4 (boot T4_Fork1) = 40"
  by (simp add: ptally_def boot_def)

text \<open>When nothing can happen any more, the parent has ended.\<close>

lemma child4_ended: "child4 w (state_of p) first \<Longrightarrow> ended p \<Longrightarrow> w"
  by (cases "state_of p") (auto simp: ended_def)

lemma child4_not_blocked: "child4 w (state_of (procs s ! i)) first \<Longrightarrow> \<not> blocked_read (task4 b1 b2) s i"
  by (auto simp: blocked_read_def split: if_splits)

lemma inv4_stuck:
  assumes i: "inv4 (solar b1) (earth b2) s" and b: "64 \<le> length b1" "64 \<le> length b2"
    and f: "family s" and st: "\<nexists>t. pstep False (task4 b1 b2) s t"
  obtains W w where "W \<in> orders (solar b1) (earth b2) True True" "parent4 W s (Zombie w)"
    "\<forall>p \<in> set (procs s). ended p" "length (procs s) = 3"
  using i
proof (cases rule: inv4_cases)
  case (one p)
  then show thesis using stuck_reads [OF f st] by (auto simp: ended_def blocked_read_def)
next
  case (two p p1 w1)
  then have "\<not> blocked_read (task4 b1 b2) s 0" "\<not> blocked_read (task4 b1 b2) s 1"
    using child4_not_blocked [of w1 s 1] by (auto simp: blocked_read_def)
  then show thesis using two stuck_reads [OF f st] by (auto simp: ended_def less_Suc_eq)
next
  case (three p p1 p2 w1 w2 W)
  have no: "\<not> blocked_read (task4 b1 b2) s 1" "\<not> blocked_read (task4 b1 b2) s 2"
    using child4_not_blocked [of w1 s 1] child4_not_blocked [of w2 s 2] three by auto
  have both: "w1 \<and> w2" if "ended p1" "ended p2"
    using that three child4_ended by blast
  have "\<not> blocked_read (task4 b1 b2) s 0" if "ended p1" "ended p2"
  proof -
    from both [OF that] three(6) b obtain m1 m2 where "W = [m1, m2]" "m1 \<noteq> []" "m2 \<noteq> []"
      using block_length [of b1] block_length [of b2] by (auto simp: orders_def) (metis list.size(3) zero_neq_numeral)+
    with three show ?thesis by (auto simp: blocked_read_def elim!: task4.elims)
  qed
  with no three(1) stuck_reads [OF f st] have all: "\<forall>p \<in> set (procs s). ended p"
    by (auto simp: less_Suc_eq eval_nat_numeral)
  then obtain w where "state_of p = Zombie w"
    using three by (cases "state_of p") (auto simp: ended_def)
  with three all both show thesis by (intro that [of W w]) auto
qed

text \<open>Without a pipe the program exits at once.\<close>

lemma main4_no_pipe: "pstep may (task4 b1 b2) (main4 False) t \<longleftrightarrow> t = finish 0 (Exit_code 1) (main4 False)"
  by (auto simp: main4_def boot_def elim!: pstep.cases intro!: proc_acts [where i = 0 and ok = True and l = "T4_Exit 1"])

text \<open>C29: When every \<open>fork\<close> of \<open>task4.c\<close> succeeds and the memory behind the two arrays can be read, a run
  has at most 40 steps, and when no process can continue all three have ended and the parent has
  printed the two messages in one of the two orders.\<close>

theorem task4_reads_both:
  assumes "64 \<le> length b1" "64 \<le> length b2"
    and "steps (pstep False (task4 b1 b2)) n (boot T4_Fork1) s"
  shows "n \<le> 40 \<and> ((\<nexists>t. pstep False (task4 b1 b2) s t) \<longrightarrow>
    length (procs s) = 3 \<and> (\<forall>p \<in> set (procs s). ended p) \<and>
    (Reads_lines ''hello Solar system   '' ''hello Earth   '' \<in> snd ` set (said s) \<or>
     Reads_lines ''hello Earth   '' ''hello Solar system   '' \<in> snd ` set (said s)))"
proof (intro conjI impI)
  show "n \<le> 40" using rank4.run_bound [OF assms(3)] by (simp add: boot_rank4)
  assume stuck: "\<nexists>t. pstep False (task4 b1 b2) s t"
  have "inv4 (solar b1) (earth b2) s"
    using run4.steps_inv [OF assms(3)] assms(1,2) by (simp add: inv4_boot)
  from this assms(1,2) family_steps [OF assms(3) family_boot] stuck
  obtain W w where W: "W \<in> orders (solar b1) (earth b2) True True" "parent4 W s (Zombie w)"
    and e: "\<forall>p \<in> set (procs s). ended p" "length (procs s) = 3"
    by (rule inv4_stuck)
  show "length (procs s) = 3" "\<forall>p \<in> set (procs s). ended p" using e by auto
  have str: "c_str (solar b1) = ''hello Solar system   ''" "c_str (earth b2) = ''hello Earth   ''"
    by (simp_all add: solar_def earth_def c_str_sends nul_def)
  from W(1) consider "W = [solar b1, earth b2]" | "W = [earth b2, solar b1]"
    by (auto simp: orders_def)
  then show "Reads_lines ''hello Solar system   '' ''hello Earth   '' \<in> snd ` set (said s) \<or>
     Reads_lines ''hello Earth   '' ''hello Solar system   '' \<in> snd ` set (said s)"
    using W(2) str by cases simp_all
qed

theorem task4_reads_both_witness:
  "\<exists>s :: (place4, line4) psystem. length (procs s) = 3 \<and> (\<forall>p \<in> set (procs s). ended p) \<and>
    (Reads_lines ''hello Solar system   '' ''hello Earth   '' \<in> snd ` set (said s) \<or>
     Reads_lines ''hello Earth   '' ''hello Solar system   '' \<in> snd ` set (said s))"
proof -
  let ?b = "replicate 64 nul"
  obtain n s where s: "steps (pstep False (task4 ?b ?b)) n (boot T4_Fork1) s"
      "\<nexists>t. pstep False (task4 ?b ?b) s t"
    using rank4.reaches_final [of False ?b ?b "\<lambda>_. True" "boot T4_Fork1"] by auto
  from task4_reads_both [OF _ _ s(1)] s(2) show ?thesis by auto
qed

end
