(* ===== verification/Signals.thy ===== *)
theory Signals
  imports Pipe_Tasks
begin

text \<open>
  Programs of \<open>5-semestr/lab4\<close> in runs in which SIGINT may arrive at any time: how many actions their
  processes make (the contract \<open>signal_measure\<close>), that nobody waits for ever when only the parent reads
  (\<open>parent_reads\<close>), and pipes that carry whole blocks (\<open>block_pipe\<close>).
\<close>

section \<open>Runs with signals\<close>

inductive_cases sigstepE: "sigstep may prog s t"

text \<open>A run with any number of signals in which \<open>n\<close> actions of processes happen.\<close>

inductive sigrun :: "bool \<Rightarrow> ('l \<Rightarrow> ('l, 'm) action) \<Rightarrow> nat \<Rightarrow> ('l, 'm) psystem \<Rightarrow> ('l, 'm) psystem \<Rightarrow> bool" for may prog where
  sigrun_0: "sigrun may prog 0 s s"
| sigrun_Suc: "sigrun may prog n s t \<Longrightarrow> pstep may prog t u \<Longrightarrow> sigrun may prog (Suc n) s u"
| sigrun_signal: "sigrun may prog n s t \<Longrightarrow> sigrun may prog n s (t\<lparr>interrupted := True\<rparr>)"

lemma sigrun_reachable:
  "sigrun may prog n s t \<Longrightarrow> reachable ini (sigstep may prog) s \<Longrightarrow> reachable ini (sigstep may prog) t"
  by (induction rule: sigrun.induct) (blast intro: reach_step process_runs signal_arrives)+

lemma steps_sigrun: "steps (pstep may prog) n s t \<Longrightarrow> sigrun may prog n s t"
  by (induction rule: steps.induct) (blast intro: sigrun_0 sigrun_Suc)+

lemma reachable_sigrun:
  assumes "reachable (\<lambda>s. s = s0) (sigstep may prog) t" shows "\<exists>n. sigrun may prog n s0 t"
  using assms
proof (induction rule: reachable.induct)
  case (reach_step s t)
  then obtain n where "sigrun may prog n s0 s" by blast
  with reach_step(2) show ?case by (auto elim!: sigstepE intro: sigrun_Suc sigrun_signal)
qed (auto intro: sigrun_0)

text \<open>What the actions lower and signals leave alone bounds the number of actions.\<close>

locale signal_measure =
  fixes may :: bool and prog :: "'l \<Rightarrow> ('l, 'm) action" and inv :: "('l, 'm) psystem \<Rightarrow> bool" and left :: "('l, 'm) psystem \<Rightarrow> nat"
  assumes inv_sig: "inv s \<Longrightarrow> sigstep may prog s t \<Longrightarrow> inv t"
    and left_act: "inv s \<Longrightarrow> pstep may prog s t \<Longrightarrow> left t < left s"
    and left_signal: "left (s\<lparr>interrupted := True\<rparr>) = left s"
begin

lemma sigrun_inv: "sigrun may prog n s t \<Longrightarrow> inv s \<Longrightarrow> inv t"
  by (induction rule: sigrun.induct) (blast intro: inv_sig process_runs signal_arrives)+

lemma sigrun_bound: "sigrun may prog n s t \<Longrightarrow> inv s \<Longrightarrow> n + left t \<le> left s"
proof (induction rule: sigrun.induct)
  case (sigrun_Suc n s t u)
  with left_act [of t u] sigrun_inv [of n s t] show ?case by fastforce
qed (simp_all add: left_signal)

end

lemma interrupted_simps [simp]:
  "ptally f (s\<lparr>interrupted := b\<rparr>) = ptally f s" "line_total c (s\<lparr>interrupted := b\<rparr>) = line_total c s"
  "family (s\<lparr>interrupted := b\<rparr>) = family s"
  by (simp_all add: ptally_def line_total_def family_def)

lemma family_sigrun: "sigrun may prog n s t \<Longrightarrow> family s \<Longrightarrow> family t"
  by (induction rule: sigrun.induct) (auto intro: family_step)

sublocale program_rank \<subseteq> signals: signal_measure may prog "\<lambda>s. True" "\<lambda>s. nat (ptally rank s)"
proof unfold_locales
  show "nat (ptally rank t) < nat (ptally rank s)" if "pstep may prog s t" for s t
    using that rank_step [of s t] ptally_rank [of t] by simp
qed auto

context program_budget
begin

lemma budget_sigrun:
  "sigrun may prog n s t \<Longrightarrow> line_total c t + ptally f t \<le> line_total c s + ptally f s"
proof (induction rule: sigrun.induct)
  case (sigrun_Suc n s t u)
  then show ?case using budget_step by fastforce
qed simp_all

end

context program_account
begin

lemma account_sigrun:
  "sigrun may prog n s t \<Longrightarrow> line_total c t + ptally f t = line_total c s + ptally f s"
  by (induction rule: sigrun.induct) (auto simp: account_step)

end

section \<open>A parent that reads what its children write\<close>

fun followers :: "char list set \<Rightarrow> ('l, 'm) action \<Rightarrow> 'l set" where
  "followers B (Fork c p f) = insert c (insert f (range p))"
| "followers B (Say m l) = {l}"
| "followers B (Wait k) = range k"
| "followers B (Exec f) = {f}"
| "followers B (Pause l) = {l}"
| "followers B (Write bs l) = {l}"
| "followers B (Read m k) = k ` insert [] B"
| "followers B (Close_read l) = {l}"
| "followers B (Close_write l) = {l}"
| "followers B (Test k) = range k"
| "followers B (Quit c) = {}"

text \<open>
  The first process has closed its end of the pipe for writing at the places \<open>C\<close>, the only ones where
  the program reads; its children are at the places \<open>K\<close>. Then nobody waits for ever.
\<close>

fun end_closed :: "('l \<Rightarrow> bool) \<Rightarrow> ('l \<Rightarrow> bool) \<Rightarrow> nat \<Rightarrow> 'l pstate \<Rightarrow> bool \<Rightarrow> bool" where
  "end_closed C K i (Running l) w = ((C l \<longrightarrow> \<not> w) \<and> (0 < i \<longrightarrow> K l))"
| "end_closed C K i Replaced w = True"
| "end_closed C K i (Zombie v) w = (\<not> w)"
| "end_closed C K i Gone w = (\<not> w)"

definition ends_closed :: "('l \<Rightarrow> bool) \<Rightarrow> ('l \<Rightarrow> bool) \<Rightarrow> ('l, 'm) psystem \<Rightarrow> bool" where
  "ends_closed C K s \<longleftrightarrow>
     (\<forall>i < length (procs s). end_closed C K i (state_of (procs s ! i)) (can_write (procs s ! i)))"

lemma closed_update:
  assumes "ends_closed C K s" "end_closed C K i (state_of (f (procs s ! i))) (can_write (f (procs s ! i)))"
  shows "ends_closed C K (update_proc i f s)"
  unfolding ends_closed_def
proof (intro allI impI)
  fix j assume "j < length (procs (update_proc i f s))"
  with assms show "end_closed C K j (state_of (procs (update_proc i f s) ! j)) (can_write (procs (update_proc i f s) ! j))"
    by (cases "j = i") (auto simp: ends_closed_def update_proc_def)
qed

lemma closed_go:
  "ends_closed C K s \<Longrightarrow> end_closed C K i (Running l) (can_write (procs s ! i)) \<Longrightarrow> ends_closed C K (go_to i l s)"
  by (simp add: go_to_def closed_update)

lemma closed_finish:
  assumes "ends_closed C K s" shows "ends_closed C K (finish i w s)"
  unfolding ends_closed_def
proof (intro allI impI)
  fix j assume "j < length (procs (finish i w s))"
  with assms show "end_closed C K j (state_of (procs (finish i w s) ! j)) (can_write (procs (finish i w s) ! j))"
    by (cases "j = i") (auto simp: ends_closed_def finish_def Let_def)
qed

lemma closed_rest [simp]:
  "ends_closed C K (s\<lparr>said := x\<rparr>) = ends_closed C K s" "ends_closed C K (s\<lparr>pipe_of := y\<rparr>) = ends_closed C K s"
  "ends_closed C K (s\<lparr>interrupted := b\<rparr>) = ends_closed C K s"
  by (simp_all add: ends_closed_def)

lemma closed_fork:
  "ends_closed C K s \<Longrightarrow> end_closed C K (length (procs s)) (state_of q) (can_write q) \<Longrightarrow>
     ends_closed C K (s\<lparr>procs := procs s @ [q]\<rparr>)"
  unfolding ends_closed_def by (auto simp: nth_append less_Suc_eq)

locale parent_reads =
  fixes prog :: "'l \<Rightarrow> ('l, 'm) action" and C K :: "'l \<Rightarrow> bool"
  assumes close_enters: "l' \<in> followers UNIV (prog l) \<Longrightarrow> C l' \<Longrightarrow> C l \<or> prog l = Close_write l'"
    and reads_closed: "prog l = Read n k \<Longrightarrow> C l"
    and child_starts: "prog l = Fork c p f \<Longrightarrow> K c"
    and child_next: "K l \<Longrightarrow> l' \<in> followers UNIV (prog l) \<Longrightarrow> K l'"
    and child_no_read: "K l \<Longrightarrow> prog l \<noteq> Read n k"
begin

lemma closed_act:
  assumes c: "ends_closed C K s" and i: "i < length (procs s)" "state_of (procs s ! i) = Running l"
    and a: "act ok j i (prog l) s = Some t"
  shows "ends_closed C K t"
proof -
  have l: "end_closed C K i (Running l) (can_write (procs s ! i))" using c i by (auto simp: ends_closed_def)
  have nx: "end_closed C K i (Running l') (can_write (procs s ! i))"
    if "l' \<in> followers UNIV (prog l)" "prog l \<noteq> Close_write l'" for l'
    using that l close_enters child_next by auto
  have go: "ends_closed C K (go_to i l' s)" if "l' \<in> followers UNIV (prog l)" "prog l \<noteq> Close_write l'" for l'
    using c nx [OF that] by (rule closed_go)
  show ?thesis
  proof (cases "prog l")
    case (Fork c p f)
    let ?q = "(procs s ! i)\<lparr>parent_of := pid_of i, state_of := Running c\<rparr>"
    have "ends_closed C K ((go_to i (p x) s)\<lparr>procs := procs (go_to i (p x) s) @ [?q]\<rparr>)" for x
      using go [of "p x"] nx [of c] child_starts [OF Fork] Fork by (intro closed_fork) auto
    with a Fork go [of f] show ?thesis by (auto split: if_splits)
  next
    case (Wait k)
    have "ends_closed C K (go_to i (k r) (update_proc j (\<lambda>p. p\<lparr>state_of := Gone\<rparr>) s))"
      if "j < length (procs s)" "state_of (procs s ! j) = Zombie w" for r w
    proof (rule closed_go)
      have "\<not> can_write (procs s ! j)" using c that by (auto simp: ends_closed_def)
      then show "ends_closed C K (update_proc j (\<lambda>p. p\<lparr>state_of := Gone\<rparr>) s)" using c by (intro closed_update) auto
      have "i \<noteq> j" using that i by auto
      then show "end_closed C K i (Running (k r)) (can_write (procs (update_proc j (\<lambda>p. p\<lparr>state_of := Gone\<rparr>) s) ! i))"
        using nx [of "k r"] Wait by (simp add: update_proc_def)
    qed
    with a Wait go [of "k None"] show ?thesis by (auto split: if_splits pstate.splits)
  next
    case (Exec f)
    with a go [of f] c show ?thesis by (auto intro: closed_update split: if_splits)
  next
    case (Close_read k)
    with a c nx [of k] show ?thesis by (auto intro: closed_update)
  next
    case (Close_write k)
    with a c l child_next [of l k] show ?thesis by (auto intro!: closed_update)
  next
    case (Read m k)
    with a go show ?thesis by (auto split: if_splits)
  qed (use a go closed_finish [OF c] in \<open>auto split: if_splits\<close>)
qed

lemma closed_sigrun: "sigrun may prog n s t \<Longrightarrow> ends_closed C K s \<Longrightarrow> ends_closed C K t"
proof (induction rule: sigrun.induct)
  case (sigrun_Suc n s t u)
  then have "ends_closed C K t" by blast
  with sigrun_Suc.hyps(2) show ?case by cases (blast intro: closed_act closed_finish)+
qed simp_all

lemma all_end:
  assumes "family s" "ends_closed C K s" "\<nexists>t. pstep may prog s t"
  shows "\<forall>p \<in> set (procs s). ended p"
proof (rule ccontr)
  assume "\<not> ?thesis"
  with stuck_reads [OF assms(1,3)] obtain i where i: "i < length (procs s)" "blocked_read prog s i"
    and later: "\<And>j. j < length (procs s) \<Longrightarrow> i < j \<Longrightarrow> ended (procs s ! j)" by blast
  then obtain l n k where l: "state_of (procs s ! i) = Running l" "prog l = Read n k" "list_ex can_write (procs s)"
    by (auto simp: blocked_read_def)
  have closed: "end_closed C K j (state_of (procs s ! j)) (can_write (procs s ! j))" if "j < length (procs s)" for j
    using assms(2) that by (simp add: ends_closed_def)
  from closed [OF i(1)] l reads_closed [OF l(2)] child_no_read [of l n k] have "i = 0" "\<not> can_write (procs s ! 0)"
    by (auto split: if_splits)
  moreover have "\<not> can_write (procs s ! j)" if "j < length (procs s)" "0 < j" for j
    using later [OF that(1)] closed [OF that(1)] that(2) \<open>i = 0\<close>
    by (cases "state_of (procs s ! j)") (auto simp: ended_def)
  ultimately have "\<not> can_write (procs s ! j)" if "j < length (procs s)" for j using that by (cases "j = 0") auto
  with l(3) show False by (auto simp: list_ex_length)
qed

end

section \<open>Pipes of blocks\<close>

text \<open>
  Programs that write blocks of one size to the pipe and read by the same size: a read gives a whole
  block or, at the end of the pipe, nothing. \<open>okl\<close> are the places a process can be at, \<open>okm\<close> the lines
  that can be printed.
\<close>

definition places_ok :: "('l \<Rightarrow> bool) \<Rightarrow> ('l, 'm) psystem \<Rightarrow> bool" where
  "places_ok okl s \<longleftrightarrow> (\<forall>j < length (procs s). \<forall>l. state_of (procs s ! j) = Running l \<longrightarrow> okl l)"

definition blocks_inv :: "('l \<Rightarrow> bool) \<Rightarrow> ('m \<Rightarrow> bool) \<Rightarrow> char list set \<Rightarrow> ('l, 'm) psystem \<Rightarrow> bool" where
  "blocks_inv okl okm B s \<longleftrightarrow>
     places_ok okl s \<and> (\<exists>ws. set ws \<subseteq> B \<and> pipe_of s = concat ws) \<and> (\<forall>x \<in> set (said s). okm (snd x))"

lemma places_go: "places_ok okl s \<Longrightarrow> okl l \<Longrightarrow> places_ok okl (go_to i l s)"
  by (auto simp: places_ok_def state_go split: if_splits)

lemma places_finish: "places_ok okl s \<Longrightarrow> places_ok okl (finish i w s)"
  by (auto simp: places_ok_def state_finish split: if_splits)

lemma places_update:
  assumes "places_ok okl s" "\<And>l. state_of (f (procs s ! i)) = Running l \<Longrightarrow> okl l"
  shows "places_ok okl (update_proc i f s)"
  using assms by (auto simp: places_ok_def state_update split: if_splits)

lemma places_rest [simp]:
  "places_ok okl (s\<lparr>said := x\<rparr>) = places_ok okl s" "places_ok okl (s\<lparr>pipe_of := y\<rparr>) = places_ok okl s"
  by (simp_all add: places_ok_def)

lemma places_fork:
  assumes "places_ok okl s" "state_of q = Running c" "okl c"
  shows "places_ok okl (s\<lparr>procs := procs s @ [q]\<rparr>)"
  using assms by (auto simp: places_ok_def nth_append less_Suc_eq)

lemma pipe_update [simp]:
  "pipe_of (go_to i l s) = pipe_of s" "pipe_of (finish i w s) = pipe_of s" "pipe_of (update_proc i f s) = pipe_of s"
  by (simp_all add: go_to_def update_proc_def finish_def Let_def)

locale block_pipe =
  fixes prog :: "'l \<Rightarrow> ('l, 'm) action" and okl :: "'l \<Rightarrow> bool" and okm :: "'m \<Rightarrow> bool"
    and B :: "char list set" and n :: nat
  assumes block_size: "b \<in> B \<Longrightarrow> length b = n" and size_pos: "0 < n"
    and okl_next: "okl l \<Longrightarrow> l' \<in> followers B (prog l) \<Longrightarrow> okl l'"
    and okl_write: "okl l \<Longrightarrow> prog l = Write bs k \<Longrightarrow> bs \<in> B"
    and okl_read: "okl l \<Longrightarrow> prog l = Read m j \<Longrightarrow> m = n"
    and okl_say: "okl l \<Longrightarrow> prog l = Say msg k \<Longrightarrow> okm (msg p q)"
begin

lemma read_block:
  assumes "set ws \<subseteq> B" "concat ws \<noteq> []"
  shows "\<exists>b vs. b \<in> B \<and> take n (concat ws) = b \<and> set vs \<subseteq> B \<and> drop n (concat ws) = concat vs"
proof (cases ws)
  case (Cons b vs)
  then have "b \<in> B" "length b = n" using assms(1) block_size by auto
  with Cons assms(1) show ?thesis by auto
qed (use assms in simp)

lemma blocks_act:
  assumes inv: "blocks_inv okl okm B s" and i: "i < length (procs s)" "state_of (procs s ! i) = Running l"
    and a: "act ok j i (prog l) s = Some t"
  shows "blocks_inv okl okm B t"
proof -
  have l: "okl l" and pl: "places_ok okl s" using inv i by (auto simp: blocks_inv_def places_ok_def)
  have go: "places_ok okl (go_to h k s)" if "k \<in> followers B (prog l)" for h k
    by (rule places_go [OF pl okl_next [OF l that]])
  obtain ws where ws: "set ws \<subseteq> B" "pipe_of s = concat ws" using inv by (auto simp: blocks_inv_def)
  have said: "\<forall>x \<in> set (said s). okm (snd x)" using inv by (simp add: blocks_inv_def)
  have keep: "blocks_inv okl okm B u" if "places_ok okl u" "pipe_of u = pipe_of s" "said u = said s" for u
    using that ws said unfolding blocks_inv_def by auto
  show ?thesis
  proof (cases "prog l")
    case (Fork c p f)
    have "places_ok okl ((go_to i (p x) s)\<lparr>procs := procs (go_to i (p x) s) @
        [(procs s ! i)\<lparr>parent_of := pid_of i, state_of := Running c\<rparr>]\<rparr>)" for x
      using go [of "p x" i] okl_next [OF l, of c] Fork by (intro places_fork) auto
    with a Fork go show ?thesis by (intro keep) (auto split: if_splits)
  next
    case (Say m k)
    with a go [of k i] okl_say [OF l Say] said ws show ?thesis by (auto simp: blocks_inv_def)
  next
    case (Wait k)
    have "places_ok okl (go_to i (k r) (update_proc j (\<lambda>p. p\<lparr>state_of := Gone\<rparr>) s))" for r
      using pl okl_next [OF l, of "k r"] Wait by (intro places_go places_update) auto
    with a Wait go show ?thesis by (intro keep) (auto split: if_splits pstate.splits)
  next
    case (Exec f)
    have "places_ok okl (update_proc i (\<lambda>p. p\<lparr>state_of := Replaced\<rparr>) s)" using pl by (intro places_update) auto
    with a Exec go show ?thesis by (intro keep) (auto split: if_splits)
  next
    case (Write bs k)
    show ?thesis
    proof (cases "list_ex can_read (procs s)")
      case True
      have "set (ws @ [bs]) \<subseteq> B" "pipe_of t = concat (ws @ [bs])"
        using ws okl_write [OF l Write] a Write True by auto
      moreover have "places_ok okl t" "said t = said s" using a Write True go [of k i] by auto
      ultimately show ?thesis using said unfolding blocks_inv_def by metis
    next
      case False
      with a Write places_finish [OF pl] show ?thesis by (intro keep) auto
    qed
  next
    case (Read m k)
    with okl_read [OF l] have m: "m = n" by blast
    show ?thesis
    proof (cases "pipe_of s = []")
      case True
      with a Read go [of "k []" i] show ?thesis by (intro keep) (auto split: if_splits)
    next
      case False
      then obtain b vs where b: "b \<in> B" "take n (concat ws) = b" "set vs \<subseteq> B" "drop n (concat ws) = concat vs"
        using read_block [OF ws(1)] ws(2) by auto
      with a Read m ws False have t: "t = (go_to i (k b) s)\<lparr>pipe_of := concat vs\<rparr>" by simp
      have "places_ok okl t" using go [of "k b" i] Read b(1) by (simp add: t)
      then show ?thesis using b(3) said unfolding blocks_inv_def by (auto simp: t)
    qed
  next
    case (Close_read k)
    have "places_ok okl (update_proc i (\<lambda>p. p\<lparr>state_of := Running k, can_read := False\<rparr>) s)"
      using pl okl_next [OF l, of k] Close_read by (intro places_update) auto
    with a Close_read show ?thesis by (intro keep) auto
  next
    case (Close_write k)
    have "places_ok okl (update_proc i (\<lambda>p. p\<lparr>state_of := Running k, can_write := False\<rparr>) s)"
      using pl okl_next [OF l, of k] Close_write by (intro places_update) auto
    with a Close_write show ?thesis by (intro keep) auto
  next
    case (Quit c)
    with a places_finish [OF pl] show ?thesis by (intro keep) auto
  qed (use a go in \<open>auto intro: keep\<close>)
qed

lemma blocks_step:
  assumes inv: "blocks_inv okl okm B s" and st: "sigstep may prog s t" shows "blocks_inv okl okm B t"
  using st
proof cases
  case process_runs
  then show ?thesis
  proof cases
    case (proc_acts i l ok j)
    then show ?thesis using blocks_act [OF inv] by blast
  next
    case (replaced_ends i w)
    then show ?thesis using inv by (simp add: blocks_inv_def places_finish)
  qed
next
  case signal_arrives
  then show ?thesis using inv by (simp add: blocks_inv_def places_ok_def)
qed

lemma blocks_boot: "okl l \<Longrightarrow> blocks_inv okl okm B (boot l)"
  unfolding blocks_inv_def by (auto simp: boot_def places_ok_def intro!: exI [of _ "[]"])

end

sublocale block_pipe \<subseteq> blocks: invariant "\<lambda>s. \<exists>l. okl l \<and> s = boot l" "sigstep may prog" "blocks_inv okl okm B"
  by unfold_locales (auto intro: blocks_boot blocks_step)

end
