(* ===== verification/Signal_Tasks.thy ===== *)
theory Signal_Tasks
  imports Signals
begin

text \<open>
  What \<open>task5.c\<close> and \<open>5.c\<close> of \<open>5-semestr/lab4\<close> print when SIGINT may arrive at any time: pipes that carry
  whole blocks, the messages of \<open>5.c\<close>, and the message the child of \<open>task5.c\<close> reads byte by byte.
\<close>

section \<open>A message of \<open>5.c\<close> that is printed twice\<close>

lemma sends_facts:
  "msg \<noteq> [] \<Longrightarrow> sends msg b \<noteq> []" "take BUFFER_SIZE (sends msg b) = sends msg b"
  "drop BUFFER_SIZE (sends msg b) = []"
  unfolding sends_def BUFFER_SIZE_def by (simp, simp only: take_take min.idem, simp)

lemma c_str_into_buffer:
  assumes "nul \<notin> set msg" "length msg < 64" shows "c_str (into_buffer buf (sends msg b)) = msg"
proof -
  have "into_buffer buf (sends msg b) = msg @ nul # take (64 - length msg - 1) b @ drop (length (sends msg b)) buf"
    using assms(2) by (cases "64 - length msg") (auto simp: into_buffer_def sends_def min_def)
  with assms(1) show ?thesis by (simp add: c_str_append)
qed

lemma into_buffer_empty: "into_buffer buf [] = buf"
  by (simp add: into_buffer_def)

text \<open>The signal arrives after the test of the first child and before that of the second.\<close>

definition twice_run :: "nat option list" where
  "twice_run = [Some 0, Some 0, Some 1, Some 1, Some 1, None,
     Some 2, Some 2, Some 2, Some 2, Some 2,
     Some 0, Some 0, Some 0, Some 0, Some 0, Some 0, Some 0, Some 0, Some 0, Some 0]"

lemma nth2 [simp]: "(x # y # z # xs) ! 2 = z" "(x # y # z # xs)[2 := w] = x # y # w # xs"
  by (simp_all add: eval_nat_numeral)

lemma twice_result:
  "\<exists>t. psched (task6 b1 b2) twice_run (boot (T6_Fork 0)) = Some t \<and>
     said t = [(2, Message_from_child ''7788hhhhhjj''), (2, Message_from_child ''7788hhhhhjj'')]"
  by (simp add: twice_run_def boot_def act_simps sends_facts
    c_str_into_buffer into_buffer_empty nul_def waitable_def)

section \<open>The messages of \<open>5.c\<close>\<close>

definition messages6 :: "char list set" where
  "messages6 = {[], ''gggffff115'', ''7788hhhhhjj''}"

definition blocks6 :: "char list \<Rightarrow> char list \<Rightarrow> char list set" where
  "blocks6 b1 b2 = {b. length b = 64 \<and> (b = sends ''gggffff115'' b1 \<or> b = sends ''7788hhhhhjj'' b2)}"

fun place6_ok :: "char list \<Rightarrow> char list \<Rightarrow> place6 \<Rightarrow> bool" where
  "place6_ok b1 b2 (T6_Loop n buf) = (c_str buf \<in> messages6)"
| "place6_ok b1 b2 (T6_Ask n buf flag) = (c_str buf \<in> messages6)"
| "place6_ok b1 b2 (T6_Read n buf bs) = (c_str buf \<in> messages6 \<and> (bs = [] \<or> bs \<in> blocks6 b1 b2))"
| "place6_ok b1 b2 (T6_Tell n buf) = (c_str buf \<in> messages6)"
| "place6_ok b1 b2 (T6_Fork i) = (64 \<le> length b1 \<and> 64 \<le> length b2)"
| "place6_ok b1 b2 (T6_Child i) = (64 \<le> length b1 \<and> 64 \<le> length b2)"
| "place6_ok b1 b2 (T6_Test i) = (64 \<le> length b1 \<and> 64 \<le> length b2)"
| "place6_ok b1 b2 (T6_Tested i flag) = (64 \<le> length b1 \<and> 64 \<le> length b2)"
| "place6_ok b1 b2 (T6_Write i) = (64 \<le> length b1 \<and> 64 \<le> length b2)"
| "place6_ok b1 b2 l = True"

fun line6_ok :: "line6 \<Rightarrow> bool" where
  "line6_ok (Message_from_child x) = (x \<in> messages6)"
| "line6_ok m = True"

lemma c_str_nuls: "c_str (replicate k nul) = []"
  by (cases k) (simp_all add: c_str_def)

lemma read6_ok:
  assumes "bs \<in> blocks6 b1 b2" shows "c_str (into_buffer buf bs) \<in> messages6"
  using assms c_str_into_buffer [of "''gggffff115''" buf b1] c_str_into_buffer [of "''7788hhhhhjj''" buf b2]
  by (auto simp: blocks6_def messages6_def nul_def)

lemma nothing_read6: "[] \<in> messages6"
  by (simp add: messages6_def)

interpretation pipe6: block_pipe "task6 b1 b2" "place6_ok b1 b2" line6_ok "blocks6 b1 b2" BUFFER_SIZE for b1 b2
proof unfold_locales
  show "length b = BUFFER_SIZE" if "b \<in> blocks6 b1 b2" for b using that by (simp add: blocks6_def BUFFER_SIZE_def)
  show "0 < BUFFER_SIZE" by (simp add: BUFFER_SIZE_def)
  show "place6_ok b1 b2 l'" if "place6_ok b1 b2 l" "l' \<in> followers (blocks6 b1 b2) (task6 b1 b2 l)" for l l'
    using that by (cases "(b1, b2, l)" rule: task6.cases)
      (auto simp: c_str_nuls nothing_read6 read6_ok into_buffer_empty split: if_splits)
  show "bs \<in> blocks6 b1 b2" if "place6_ok b1 b2 l" "task6 b1 b2 l = Write bs k" for l bs k
    using that by (cases "(b1, b2, l)" rule: task6.cases) (auto simp: blocks6_def sends_def split: if_splits)
  show "m = BUFFER_SIZE" if "place6_ok b1 b2 l" "task6 b1 b2 l = Read m j" for l m j
    using that by (cases "(b1, b2, l)" rule: task6.cases) (auto split: if_splits)
  show "line6_ok (msg p q)" if "place6_ok b1 b2 l" "task6 b1 b2 l = Say msg k" for l msg k p q
    using that
  proof (cases "(b1, b2, l)" rule: task6.cases)
    case (14 b1 b2 k r)
    with that show ?thesis by (cases r rule: report6.cases) auto
  qed (use that in \<open>auto split: if_splits\<close>)
qed

text \<open>C32: what the parent of \<open>5.c\<close> prints, when the memory behind the two arrays can be read. In every run,
  with the signal arriving at any times, and with calls of \<open>fork\<close> that fail (if \<open>may\<close>) or without, each line is one of the two messages, or empty when it has read
  nothing; but it need not be new: there is a run in which only the second child writes, because the
  signal arrives between the tests of the children, and the parent, which does not look at what \<open>read\<close>
  returned, prints its message twice.\<close>

theorem task6_messages:
  assumes "64 \<le> length b1" "64 \<le> length b2"
  shows "(\<forall>s. reachable (\<lambda>s. s = boot (T6_Fork 0)) (sigstep may (task6 b1 b2)) s \<longrightarrow>
       (\<forall>x. (2, Message_from_child x) \<in> set (said s) \<longrightarrow> x \<in> {[], ''gggffff115'', ''7788hhhhhjj''})) \<and>
    (\<exists>s. reachable (\<lambda>s. s = boot (T6_Fork 0)) (sigstep may (task6 b1 b2)) s \<and>
       said s = [(2, Message_from_child ''7788hhhhhjj''), (2, Message_from_child ''7788hhhhhjj'')])"
proof (intro conjI allI impI)
  fix s x
  assume r: "reachable (\<lambda>s. s = boot (T6_Fork 0)) (sigstep may (task6 b1 b2)) s"
    and x: "(2, Message_from_child x) \<in> set (said s)"
  have "reachable (\<lambda>s. \<exists>l. place6_ok b1 b2 l \<and> s = boot l) (sigstep may (task6 b1 b2)) s"
    using r
  proof (induction rule: reachable.induct)
    case (reach_init s)
    have "place6_ok b1 b2 (T6_Fork 0)" using assms by simp
    with reach_init show ?case by (intro reachable.reach_init) blast
  qed (rule reachable.reach_step)
  then have "blocks_inv (place6_ok b1 b2) line6_ok (blocks6 b1 b2) s" by (rule pipe6.blocks.reachable_inv)
  with x show "x \<in> {[], ''gggffff115'', ''7788hhhhhjj''}" by (force simp: blocks_inv_def messages6_def)
next
  obtain t where t: "psched (task6 b1 b2) twice_run (boot (T6_Fork 0)) = Some t"
    "said t = [(2, Message_from_child ''7788hhhhhjj''), (2, Message_from_child ''7788hhhhhjj'')]"
    using twice_result by blast
  moreover have "reachable (\<lambda>s. s = boot (T6_Fork 0)) (sigstep may (task6 b1 b2)) t"
    by (rule psched_reachable [OF t(1)]) (simp add: reach_init)
  ultimately show "\<exists>s. reachable (\<lambda>s. s = boot (T6_Fork 0)) (sigstep may (task6 b1 b2)) s \<and>
       said s = [(2, Message_from_child ''7788hhhhhjj''), (2, Message_from_child ''7788hhhhhjj'')]" by blast
qed

theorem task6_messages_witness:
  "\<exists>s. reachable (\<lambda>s. s = boot (T6_Fork 0)) (sigstep True (task6 (replicate 64 nul) (replicate 64 nul))) s \<and>
     said s = [(2, Message_from_child ''7788hhhhhjj''), (2, Message_from_child ''7788hhhhhjj'')]"
  using task6_messages [of "replicate 64 nul" "replicate 64 nul"] by simp

section \<open>\<open>5.c\<close> ends\<close>

fun rank6 :: "place6 pstate \<Rightarrow> int" where
  "rank6 (Running (T6_Fork i)) = (if i = 0 then 34 else 28)"
| "rank6 (Running (T6_Child i)) = 5"
| "rank6 (Running (T6_Test i)) = 4"
| "rank6 (Running (T6_Tested i flag)) = 3"
| "rank6 (Running (T6_Write i)) = 2"
| "rank6 (Running T6_Sleep) = 18"
| "rank6 (Running T6_Close) = 17"
| "rank6 (Running (T6_Loop n buf)) = 4 * int n + 8"
| "rank6 (Running (T6_Ask n buf flag)) = 4 * int (n - 1) + 11"
| "rank6 (Running (T6_Read n buf bs)) = 4 * int (n - 1) + 10"
| "rank6 (Running (T6_Tell n buf)) = 4 * int (n - 1) + 9"
| "rank6 (Running (T6_Wait k)) = 2 * int k + 3"
| "rank6 (Running (T6_Report k r)) = 2 * int k + 4"
| "rank6 (Running T6_Ok) = 2"
| "rank6 (Running (T6_Error m)) = 2"
| "rank6 (Running (T6_Exit c)) = 1"
| "rank6 Replaced = 1"
| "rank6 x = 0"

lemma rank6_nonneg: "0 \<le> rank6 x"
  by (cases x rule: rank6.cases) simp_all

interpretation rank6: program_rank "task6 b1 b2" may rank6 for b1 b2 may
proof unfold_locales
  show "w < rank6 (Running l)"
    if "w \<in> next_weight rank6 ok (task6 b1 b2 l) (s :: (place6, line6) psystem)" for w ok l s
    using that by (cases "(b1, b2, l)" rule: task6.cases) (auto split: if_splits)
qed (simp_all add: rank6_nonneg)

fun closed6 :: "place6 \<Rightarrow> bool" where
  "closed6 (T6_Loop n buf) = True" | "closed6 (T6_Ask n buf flag) = True" | "closed6 (T6_Read n buf bs) = True"
| "closed6 (T6_Tell n buf) = True" | "closed6 l = False"

fun child6 :: "place6 \<Rightarrow> bool" where
  "child6 (T6_Child i) = True" | "child6 (T6_Test i) = True" | "child6 (T6_Tested i flag) = True"
| "child6 (T6_Write i) = True" | "child6 (T6_Exit c) = True" | "child6 l = False"

interpretation reads6: parent_reads "task6 b1 b2" closed6 child6 for b1 b2
proof unfold_locales
  show "closed6 l \<or> task6 b1 b2 l = Close_write l'"
    if "l' \<in> followers UNIV (task6 b1 b2 l)" "closed6 l'" for l l'
    using that by (cases "(b1, b2, l)" rule: task6.cases) (auto split: if_splits)
  show "closed6 l" if "task6 b1 b2 l = Read n k" for l n k
    using that by (cases "(b1, b2, l)" rule: task6.cases) (auto split: if_splits)
  show "child6 c" if "task6 b1 b2 l = Fork c p f" for l c p f
    using that by (cases "(b1, b2, l)" rule: task6.cases) (auto split: if_splits)
  show "child6 l'" if "child6 l" "l' \<in> followers UNIV (task6 b1 b2 l)" for l l'
    using that by (cases "(b1, b2, l)" rule: task6.cases) (auto split: if_splits)
  show "task6 b1 b2 l \<noteq> Read n k" if "child6 l" for l n k
    using that by (cases "(b1, b2, l)" rule: task6.cases) (auto split: if_splits)
qed

text \<open>
  The processes, the lines about the end of a child, of \<open>main\<close> and of a failed call that there will be. With a failed
  call there are fewer processes: \<open>most6\<close> and \<open>least6\<close> bound their number.
\<close>

fun most6 :: "place6 \<Rightarrow> int" where
  "most6 (T6_Fork i) = (if i = 0 then 3 else 2)" | "most6 (T6_Error m) = 2" | "most6 l = 1"

fun least6 :: "place6 \<Rightarrow> int" where
  "least6 (T6_Fork i) = (if i = 0 then - 3 else - 2)" | "least6 (T6_Error m) = - 3" | "least6 l = - 1"

fun reports6 :: "place6 \<Rightarrow> int" where
  "reports6 (T6_Child i) = 0" | "reports6 (T6_Test i) = 0" | "reports6 (T6_Tested i flag) = 0"
| "reports6 (T6_Write i) = 0" | "reports6 (T6_Exit c) = 0" | "reports6 T6_Ok = 0"
| "reports6 (T6_Wait k) = int k" | "reports6 (T6_Report k r) = int k + 1" | "reports6 l = 2"

fun ends6 :: "place6 \<Rightarrow> int" where
  "ends6 (T6_Child i) = 0" | "ends6 (T6_Test i) = 0" | "ends6 (T6_Tested i flag) = 0"
| "ends6 (T6_Write i) = 0" | "ends6 (T6_Exit c) = 0" | "ends6 l = 1"

fun errors6 :: "place6 \<Rightarrow> int" where
  "errors6 (T6_Error m) = 1" | "errors6 l = 0"

fun report_line6 :: "line6 \<Rightarrow> int" where
  "report_line6 (Child_status c w) = 1" | "report_line6 No_status = 1" | "report_line6 l = 0"

fun ok_line6 :: "line6 \<Rightarrow> int" where
  "ok_line6 All_ok = 1" | "ok_line6 l = 0"

fun error_line6 :: "line6 \<Rightarrow> int" where
  "error_line6 (Perror6 m) = 1" | "error_line6 l = 0"

lemma report6_counts [simp]: "report_line6 (report6 r) = 1" "ok_line6 (report6 r) = 0" "error_line6 (report6 r) = 0"
  by (cases r rule: report6.cases; simp)+

interpretation most6: program_budget "task6 b1 b2" may "state_weight most6 1" error_line6 for b1 b2 may
proof unfold_locales
  show "w + g \<le> state_weight most6 1 (Running l)"
    if "ok \<or> may" "w \<in> next_weight (state_weight most6 1) ok (task6 b1 b2 l) s"
      "g \<in> gains error_line6 (task6 b1 b2 l)" for ok w l s g
    using that by (cases "(b1, b2, l)" rule: task6.cases) (auto split: if_splits)
qed simp

interpretation least6: program_budget "task6 b1 b2" may "state_weight least6 (- 1)" "\<lambda>m. - (2 * error_line6 m)" for b1 b2 may
proof unfold_locales
  show "w + g \<le> state_weight least6 (- 1) (Running l)"
    if "ok \<or> may" "w \<in> next_weight (state_weight least6 (- 1)) ok (task6 b1 b2 l) s"
      "g \<in> gains (\<lambda>m. - (2 * error_line6 m)) (task6 b1 b2 l)" for ok w l s g
    using that by (cases "(b1, b2, l)" rule: task6.cases) (auto split: if_splits)
qed simp

interpretation reports6: program_account "task6 b1 b2" may "state_weight reports6 0"
    "\<lambda>m. report_line6 m + 2 * error_line6 m" for b1 b2 may
proof unfold_locales
  show "w + g = state_weight reports6 0 (Running l)"
    if "ok \<or> may" "w \<in> next_weight (state_weight reports6 0) ok (task6 b1 b2 l) s"
      "g \<in> gains (\<lambda>m. report_line6 m + 2 * error_line6 m) (task6 b1 b2 l)" for ok w l s g
    using that by (cases "(b1, b2, l)" rule: task6.cases) (auto split: if_splits)
qed simp

interpretation ends6: program_account "task6 b1 b2" may "state_weight ends6 0" "\<lambda>m. ok_line6 m + error_line6 m" for b1 b2 may
proof unfold_locales
  show "w + g = state_weight ends6 0 (Running l)"
    if "ok \<or> may" "w \<in> next_weight (state_weight ends6 0) ok (task6 b1 b2 l) s"
      "g \<in> gains (\<lambda>m. ok_line6 m + error_line6 m) (task6 b1 b2 l)" for ok w l s g
    using that by (cases "(b1, b2, l)" rule: task6.cases) (auto split: if_splits)
qed simp

interpretation errors6: program_account "task6 b1 b2" False "state_weight errors6 0" error_line6 for b1 b2
proof unfold_locales
  show "w + g = state_weight errors6 0 (Running l)"
    if "ok \<or> False" "w \<in> next_weight (state_weight errors6 0) ok (task6 b1 b2 l) s"
      "g \<in> gains error_line6 (task6 b1 b2 l)" for ok w l s g
    using that by (cases "(b1, b2, l)" rule: task6.cases) (auto split: if_splits)
qed simp

interpretation some6: program_budget "task6 b1 b2" may "state_weight (\<lambda>l. - errors6 l) 0" "\<lambda>m. - error_line6 m" for b1 b2 may
proof unfold_locales
  show "w + g \<le> state_weight (\<lambda>l. - errors6 l) 0 (Running l)"
    if "ok \<or> may" "w \<in> next_weight (state_weight (\<lambda>l. - errors6 l) 0) ok (task6 b1 b2 l) s"
      "g \<in> gains (\<lambda>m. - error_line6 m) (task6 b1 b2 l)" for ok w l s g
    using that by (cases "(b1, b2, l)" rule: task6.cases) (auto split: if_splits)
qed simp

lemma line_total_parts:
  "line_total (\<lambda>m. f m + g m) s = line_total f s + line_total g s" "line_total (\<lambda>m. k * f m) s = k * line_total f s"
  "line_total (\<lambda>m. - f m) s = - line_total f s"
proof -
  have "tally (\<lambda>x. f (snd x) + g (snd x)) xs = tally (\<lambda>x. f (snd x)) xs + tally (\<lambda>x. g (snd x)) xs"
    "tally (\<lambda>x. k * f (snd x)) xs = k * tally (\<lambda>x. f (snd x)) xs" "tally (\<lambda>x. - f (snd x)) xs = - tally (\<lambda>x. f (snd x)) xs"
    for xs :: "(nat \<times> 'a) list"
    by (induction xs) (simp_all add: algebra_simps)
  then show "line_total (\<lambda>m. f m + g m) s = line_total f s + line_total g s"
    "line_total (\<lambda>m. k * f m) s = k * line_total f s" "line_total (\<lambda>m. - f m) s = - line_total f s"
    unfolding line_total_def by simp_all
qed

lemma line_total_nonneg: "(\<And>m. 0 \<le> c m) \<Longrightarrow> 0 \<le> line_total c s"
  by (simp add: line_total_def tally_nonneg)

lemma line6_nonneg: "0 \<le> report_line6 m" "0 \<le> ok_line6 m" "0 \<le> error_line6 m"
  by (cases m; simp)+

text \<open>C31: \<open>5.c\<close> ends. Whatever the schedule, whenever the signal arrives, and whether or not the pipe can be created and
  the calls of \<open>fork\<close> succeed (\<open>may\<close> tells whether they may fail), its processes make at most 34
  actions, and when none of them can act all have ended. If no call has failed there were three processes, and
  the parent has printed two lines on how its children ended and one that all is well. If one has, the parent has printed
  one error line and none of these, and there were at most two processes. No reader waits for ever, since the parent has
  closed its end for writing before it reads.\<close>

theorem task6_completes:
  assumes run: "sigrun may (task6 b1 b2) n (main6 pipe_ok) s"
  shows "n \<le> 34 \<and> ((\<nexists>t. pstep may (task6 b1 b2) s t) \<longrightarrow>
    (\<forall>p \<in> set (procs s). ended p) \<and>
    (if line_total error_line6 s = 0
     then pipe_ok \<and> length (procs s) = 3 \<and> line_total report_line6 s = 2 \<and> line_total ok_line6 s = 1
     else (may \<or> \<not> pipe_ok) \<and> length (procs s) \<le> 2 \<and> line_total error_line6 s = 1 \<and>
       line_total report_line6 s = 0 \<and> line_total ok_line6 s = 0))"
proof (intro conjI impI)
  let ?e = "line_total error_line6 s" and ?first = "if pipe_ok then T6_Fork 0 else T6_Error ''Can't create pipe.''"
  have init: "ptally f (main6 pipe_ok) = f (Running ?first)"
    "line_total c (main6 pipe_ok) = 0" "family (main6 pipe_ok)" "ends_closed closed6 child6 (main6 pipe_ok)" for f c
    by (simp_all add: main6_def ptally_def line_total_def boot_def family_def ends_closed_def pid_of_def)
  have "n + nat (ptally rank6 s) \<le> nat (ptally rank6 (main6 pipe_ok))"
    using rank6.signals.sigrun_bound [OF run] by simp
  then show "n \<le> 34" by (simp add: init split: if_splits)
  assume stuck: "\<nexists>t. pstep may (task6 b1 b2) s t"
  show ended: "\<forall>p \<in> set (procs s). ended p"
    by (rule reads6.all_end [OF family_sigrun [OF run init(3)] reads6.closed_sigrun [OF run init(4)] stuck])
  have reports: "line_total report_line6 s + 2 * ?e = 2"
    using reports6.account_sigrun [OF run] ended_weight [OF ended, of reports6 0]
    by (simp add: init line_total_parts split: if_splits)
  have ok: "line_total ok_line6 s + ?e = 1"
    using ends6.account_sigrun [OF run] ended_weight [OF ended, of ends6 0]
    by (simp add: init line_total_parts split: if_splits)
  have most: "?e + int (length (procs s)) \<le> 3"
    using most6.budget_sigrun [OF run] ended_weight [OF ended, of most6 1] by (simp add: init total_zero split: if_splits)
  have least: "3 \<le> int (length (procs s)) + 2 * ?e"
    using least6.budget_sigrun [OF run] ended_weight [OF ended, of least6 "- 1"]
    by (simp add: init total_zero line_total_parts split: if_splits)
  have none: "?e = (if pipe_ok then 0 else 1)" if "\<not> may"
  proof -
    have "sigrun False (task6 b1 b2) n (main6 pipe_ok) s" using run by (simp add: that)
    from errors6.account_sigrun [OF this] show ?thesis
      using ended_weight [OF ended, of errors6 0] by (simp add: init split: if_splits)
  qed
  have nonneg: "0 \<le> line_total report_line6 s" "0 \<le> line_total ok_line6 s" "0 \<le> ?e"
    by (intro line_total_nonneg line6_nonneg)+
  have pipe: "?e \<noteq> 0" if "\<not> pipe_ok"
    using some6.budget_sigrun [OF run, unfolded init] that ended_weight [OF ended, of "\<lambda>l. - errors6 l" 0]
    by (simp add: line_total_parts)
  show "if ?e = 0
     then pipe_ok \<and> length (procs s) = 3 \<and> line_total report_line6 s = 2 \<and> line_total ok_line6 s = 1
     else (may \<or> \<not> pipe_ok) \<and> length (procs s) \<le> 2 \<and> ?e = 1 \<and> line_total report_line6 s = 0 \<and> line_total ok_line6 s = 0"
    using reports ok most least none nonneg pipe by (cases may; cases pipe_ok) auto
qed

text \<open>A run in which the first \<open>fork\<close> fails.\<close>

lemma failing_run6:
  "\<exists>s. sigrun True (task6 [] []) 3 (main6 True) s \<and> procs s \<noteq> [] \<and> (\<forall>p \<in> set (procs s). ended p) \<and>
     said s = [(2, Perror6 ''Can't fork.'')]"
proof -
  let ?s = "\<lambda>l. boot l :: (place6, line6) psystem"
  have 1: "pstep True (task6 [] []) (main6 True) (?s (T6_Error ''Can't fork.''))"
    by (rule proc_acts [of 0 _ "T6_Fork 0" False _ 0]) (simp_all add: main6_def boot_def act_simps)
  let ?t = "(?s (T6_Exit 1))\<lparr>said := [(2, Perror6 ''Can't fork.'')]\<rparr>"
  have 2: "pstep True (task6 [] []) (?s (T6_Error ''Can't fork.'')) ?t"
    by (rule proc_acts [of 0 _ "T6_Error ''Can't fork.''" True _ 0]) (simp_all add: boot_def act_simps)
  have 3: "pstep True (task6 [] []) ?t (finish 0 (Exit_code 1) ?t)"
    by (rule proc_acts [of 0 _ "T6_Exit 1" True _ 0]) (simp_all add: boot_def)
  have "sigrun True (task6 [] []) (Suc (Suc (Suc 0))) (main6 True) (finish 0 (Exit_code 1) ?t)"
    by (rule sigrun_Suc [OF sigrun_Suc [OF sigrun_Suc [OF sigrun_0 1] 2] 3])
  moreover have "procs (finish 0 (Exit_code 1) ?t) \<noteq> []" "\<forall>p \<in> set (procs (finish 0 (Exit_code 1) ?t)). ended p"
    by (simp_all add: boot_def act_simps ended_def)
  ultimately show ?thesis by (intro exI [of _ "finish 0 (Exit_code 1) ?t"]) (simp add: numeral_3_eq_3)
qed

lemma ended_stuck:
  assumes "\<forall>p \<in> set (procs s). ended p" shows "\<nexists>t. pstep may prog s t"
  using assms by (auto elim!: pstep.cases simp: ended_def dest!: nth_mem)

theorem task6_completes_witness:
  "\<exists>s. sigrun True (task6 [] []) 3 (main6 True) s \<and> line_total error_line6 s = 1 \<and>
     length (procs s) \<le> 2 \<and> line_total report_line6 s = 0"
proof -
  obtain s where s: "sigrun True (task6 [] []) 3 (main6 True) s" "\<forall>p \<in> set (procs s). ended p"
    "said s = [(2, Perror6 ''Can't fork.'')]" using failing_run6 by blast
  have "line_total error_line6 s = 1" using s(3) by (simp add: line_total_def)
  with task6_completes [OF s(1)] ended_stuck [OF s(2)] s(1) show ?thesis by (intro exI [of _ s]) auto
qed

section \<open>What the child of \<open>task5.c\<close> reads\<close>

definition emails :: "char list set" where
  "emails = {''It`s my secret email for you, son. Father.'', ''Hello my child!''}"

lemma email_length: "M \<in> emails \<Longrightarrow> length M \<le> 43"
  by (auto simp: emails_def)

text \<open>
  Where the parent is before and after it has written, what it has said, what the child has of message \<open>M\<close>
  when \<open>r\<close> is still in the pipe, and what it has said; \<open>w\<close> tells whether it could still write to the pipe.
\<close>

fun parent5 :: "bool \<Rightarrow> place5 pstate \<Rightarrow> bool" where
  "parent5 False (Running l) = (l \<in> {T5_Parent, T5_Waiting, T5_Sleep, T5_Test} \<union> range T5_Send)"
| "parent5 True (Running l) = (l = T5_Exit 0)"
| "parent5 w (Zombie v) = (w \<and> v = Exit_code 0)"
| "parent5 w x = False"

fun waiting5 :: "place5 pstate \<Rightarrow> (nat \<times> line5) list" where
  "waiting5 (Running T5_Parent) = []"
| "waiting5 (Running T5_Waiting) = []"
| "waiting5 x = [(2, Waiting_for_signal)]"

fun child5 :: "char list \<Rightarrow> char list \<Rightarrow> bool \<Rightarrow> place5 pstate \<Rightarrow> bool" where
  "child5 M r w (Running T5_Child) = (r = M)"
| "child5 M r w (Running (T5_Reading m)) = (\<not> w \<and> m @ r = M)"
| "child5 M r w (Running (T5_Got m b)) = (\<not> w \<and> m @ b @ r = M \<and> (b = [] \<longrightarrow> r = []))"
| "child5 M r w (Running (T5_Tell m)) = (m = M)"
| "child5 M r w (Running (T5_Exit c)) = (c = 0)"
| "child5 M r w (Zombie v) = (v = Exit_code 0)"
| "child5 M r w x = False"

fun told5 :: "char list \<Rightarrow> place5 pstate \<Rightarrow> (nat \<times> line5) list" where
  "told5 M (Running (T5_Exit c)) = [(3, Child_read M)]"
| "told5 M (Zombie v) = [(3, Child_read M)]"
| "told5 M x = []"

text \<open>The program after the failure of a call that it reports as \<open>why\<close>.\<close>

fun complained5 :: "string \<Rightarrow> place5 pstate \<Rightarrow> (nat \<times> line5) list" where
  "complained5 why (Running (T5_Error m)) = []"
| "complained5 why x = [(2, Perror5 why)]"

definition failed5 :: "string \<Rightarrow> (place5, line5) psystem \<Rightarrow> bool" where
  "failed5 why s \<longleftrightarrow> (\<exists>p. procs s = [p] \<and>
     state_of p \<in> {Running (T5_Error why), Running (T5_Exit 1), Zombie (Exit_code 1)} \<and>
     said s = complained5 why (state_of p))"

definition alone5 :: "(place5, line5) psystem \<Rightarrow> bool" where
  "alone5 s \<longleftrightarrow> (\<exists>p. procs s = [p] \<and> state_of p = Running T5_Fork \<and> can_read p \<and> can_write p) \<and>
     pipe_of s = [] \<and> said s = []"

definition unwritten5 :: "(place5, line5) psystem \<Rightarrow> bool" where
  "unwritten5 s \<longleftrightarrow> (\<exists>p q. procs s = [p, q] \<and> parent5 False (state_of p) \<and> can_write p \<and> can_read q \<and>
       child5 [] [] (can_write q) (state_of q) \<and> state_of q \<in> {Running T5_Child, Running (T5_Reading [])} \<and>
       (state_of p = Running (T5_Send True) \<longrightarrow> interrupted s) \<and> said s = waiting5 (state_of p)) \<and>
     pipe_of s = []"

definition written5 :: "(place5, line5) psystem \<Rightarrow> bool" where
  "written5 s \<longleftrightarrow> (\<exists>p q M. procs s = [p, q] \<and> M \<in> emails \<and> (M = ''Hello my child!'' \<or> interrupted s) \<and>
       parent5 True (state_of p) \<and> (ended p \<longrightarrow> \<not> can_write p) \<and>
       child5 M (pipe_of s) (can_write q) (state_of q) \<and> said s = (2, Waiting_for_signal) # told5 M (state_of q))"

definition inv5 :: "bool \<Rightarrow> bool \<Rightarrow> (place5, line5) psystem \<Rightarrow> bool" where
  "inv5 may pipe_ok s \<longleftrightarrow> (if pipe_ok
     then alone5 s \<or> may \<and> failed5 ''Couldn't fork.'' s \<or> unwritten5 s \<or> written5 s
     else failed5 ''Couldn't pipe.'' s)"

lemma failed5_step:
  assumes f: "failed5 why s" and st: "pstep may task5 s t" shows "failed5 why t"
proof -
  obtain p where p: "procs s = [p]" "said s = complained5 why (state_of p)"
    "state_of p \<in> {Running (T5_Error why), Running (T5_Exit 1), Zombie (Exit_code 1)}"
    using f unfolding failed5_def by blast
  from st p show ?thesis by cases (auto simp: failed5_def act_simps)
qed

lemma alone5_step:
  assumes "alone5 s" "pstep may task5 s t" shows "unwritten5 t \<or> may \<and> failed5 ''Couldn't fork.'' t"
  using assms(2)
proof cases
  case (proc_acts i l ok j)
  with assms(1) show ?thesis by (cases ok) (auto simp: alone5_def unwritten5_def failed5_def act_simps)
next
  case (replaced_ends i w)
  with assms(1) show ?thesis by (auto simp: alone5_def)
qed

text \<open>How the parts of the invariant are established.\<close>

lemma unwritten5I:
  "procs s = [p, q] \<Longrightarrow> parent5 False (state_of p) \<Longrightarrow> can_write p \<Longrightarrow> can_read q \<Longrightarrow>
     child5 [] [] (can_write q) (state_of q) \<Longrightarrow> state_of q \<in> {Running T5_Child, Running (T5_Reading [])} \<Longrightarrow>
     (state_of p = Running (T5_Send True) \<Longrightarrow> interrupted s) \<Longrightarrow> said s = waiting5 (state_of p) \<Longrightarrow>
     pipe_of s = [] \<Longrightarrow> unwritten5 s"
  unfolding unwritten5_def by blast

lemma written5I:
  "procs s = [p, q] \<Longrightarrow> M \<in> emails \<Longrightarrow> M = ''Hello my child!'' \<or> interrupted s \<Longrightarrow>
     parent5 True (state_of p) \<Longrightarrow> (ended p \<Longrightarrow> \<not> can_write p) \<Longrightarrow>
     child5 M (pipe_of s) (can_write q) (state_of q) \<Longrightarrow> said s = (2, Waiting_for_signal) # told5 M (state_of q) \<Longrightarrow>
     written5 s"
  unfolding written5_def by blast

lemma unwritten5_parent:
  assumes u: "unwritten5 s" and l: "state_of (procs s ! 0) = Running l" and a: "act True j 0 (task5 l) s = Some t"
  shows "unwritten5 t \<or> written5 t"
proof -
  obtain p q where s: "procs s = [p, q]" "parent5 False (state_of p)" "can_write p" "can_read q"
    "child5 [] [] (can_write q) (state_of q)" "state_of q \<in> {Running T5_Child, Running (T5_Reading [])}"
    "state_of p = Running (T5_Send True) \<longrightarrow> interrupted s" "said s = waiting5 (state_of p)" "pipe_of s = []"
    using u unfolding unwritten5_def by blast
  have "parent5 False (Running l)" using s l by simp
  then consider "l = T5_Parent" | "l = T5_Waiting" | "l = T5_Sleep" | "l = T5_Test" | f where "l = T5_Send f"
    by auto
  then show ?thesis
  proof cases
    case (5 f)
    define M where "M = (if f then ''It`s my secret email for you, son. Father.'' else ''Hello my child!'')"
    have t: "t = (go_to 0 (T5_Exit 0) s)\<lparr>pipe_of := M\<rparr>" using a s 5 by (auto simp: M_def)
    have p: "state_of p = Running (T5_Send f)" using l s(1) 5 by simp
    have "written5 t"
    proof (rule written5I [of t "p\<lparr>state_of := Running (T5_Exit 0)\<rparr>" q M])
      show "M \<in> emails" by (simp add: M_def emails_def)
      show "M = ''Hello my child!'' \<or> interrupted t" using s(7) p by (cases f) (simp_all add: M_def t act_simps)
      show "child5 M (pipe_of t) (can_write q) (state_of q)" using s(5,6) by (auto simp: t)
      show "said t = (2, Waiting_for_signal) # told5 M (state_of q)" using s(6,8) p by (auto simp: t act_simps)
    qed (simp_all add: t s(1) act_simps)
    then show ?thesis ..
  qed (use a s l in \<open>auto simp: unwritten5_def act_simps\<close>)
qed

lemma unwritten5_child:
  assumes u: "unwritten5 s" and l: "state_of (procs s ! 1) = Running l" and a: "act True j 1 (task5 l) s = Some t"
  shows "unwritten5 t"
proof -
  obtain p q where s: "procs s = [p, q]" "parent5 False (state_of p)" "can_write p" "can_read q"
    "child5 [] [] (can_write q) (state_of q)" "state_of q \<in> {Running T5_Child, Running (T5_Reading [])}"
    "state_of p = Running (T5_Send True) \<longrightarrow> interrupted s" "said s = waiting5 (state_of p)" "pipe_of s = []"
    using u unfolding unwritten5_def by blast
  have "l = T5_Child \<or> l = T5_Reading []" using s(1,6) l by auto
  then show ?thesis using a s by (auto simp: unwritten5_def act_simps)
qed

lemma written5_child:
  assumes w: "written5 s" and l: "state_of (procs s ! 1) = Running l" and a: "act True j 1 (task5 l) s = Some t"
  shows "written5 t"
proof -
  obtain p q M where s: "procs s = [p, q]" "M \<in> emails" "M = ''Hello my child!'' \<or> interrupted s"
    "parent5 True (state_of p)" "ended p \<longrightarrow> \<not> can_write p" "child5 M (pipe_of s) (can_write q) (state_of q)"
    "said s = (2, Waiting_for_signal) # told5 M (state_of q)"
    using w unfolding written5_def by blast
  have q: "state_of q = Running l" using s(1) l by simp
  have keep: "written5 u"
    if "procs u = [p', q']" "state_of p' = state_of p" "can_write p' = can_write p" "interrupted u = interrupted s"
      "child5 M (pipe_of u) (can_write q') (state_of q')" "said u = (2, Waiting_for_signal) # told5 M (state_of q')"
    for u p' q'
    using that s(2-5) by (intro written5I [of u p' q' M]) (auto simp: ended_def)
  show ?thesis
  proof (cases l)
    case T5_Child
    with a s(1,6,7) q show ?thesis by (intro keep [of t p]) (auto simp: act_simps)
  next
    case (T5_Reading m)
    show ?thesis
    proof (cases "pipe_of s = []")
      case True
      with a s(1,6,7) q T5_Reading show ?thesis
        by (intro keep [of t p "q\<lparr>state_of := Running (T5_Got m [])\<rparr>"]) (auto simp: act_simps split: if_splits)
    next
      case False
      then obtain b r where "pipe_of s = b # r" by (cases "pipe_of s") auto
      with a s(1,6,7) q T5_Reading show ?thesis by (intro keep [of t p]) (auto simp: act_simps)
    qed
  next
    case (T5_Got m b)
    let ?q = "q\<lparr>state_of := Running (if b = [] then T5_Tell m else T5_Reading (m @ b))\<rparr>"
    have "t = s\<lparr>procs := [p, ?q]\<rparr>" using a s(1) T5_Got by (simp add: act_simps)
    with s(1,6,7) q T5_Got show ?thesis by (intro keep [of t p ?q]) auto
  next
    case (T5_Tell m)
    with a s(1,6,7) q show ?thesis by (intro keep [of t p]) (auto simp: act_simps)
  next
    case (T5_Exit k)
    with a s q have t: "t = finish 1 (Exit_code 0) s" by simp
    obtain p' q' where "procs t = [p', q']" "state_of p' = state_of p" "can_write p' = can_write p"
      "state_of q' = Zombie (Exit_code 0)"
      by (simp add: t s(1) act_simps)
    moreover have "interrupted t = interrupted s" by (simp add: t act_simps)
    moreover have "said t = said s" by (simp add: t)
    ultimately show ?thesis using s(7) q T5_Exit by (intro keep [of t p' q']) auto
  qed (use s q in auto)
qed

lemma written5_parent:
  assumes w: "written5 s" and l: "state_of (procs s ! 0) = Running l" and a: "act True j 0 (task5 l) s = Some t"
  shows "written5 t"
proof -
  obtain p q M where s: "procs s = [p, q]" "M \<in> emails" "M = ''Hello my child!'' \<or> interrupted s"
    "parent5 True (state_of p)" "ended p \<longrightarrow> \<not> can_write p" "child5 M (pipe_of s) (can_write q) (state_of q)"
    "said s = (2, Waiting_for_signal) # told5 M (state_of q)"
    using w unfolding written5_def by blast
  then have "l = T5_Exit 0" using l by simp
  with a have t: "t = finish 0 (Exit_code 0) s" by simp
  obtain p' q' where "procs t = [p', q']" "state_of p' = Zombie (Exit_code 0)" "\<not> can_write p'"
    "state_of q' = state_of q" "can_write q' = can_write q"
    by (simp add: t s(1) act_simps)
  moreover have "pipe_of t = pipe_of s" "said t = said s" "interrupted t = interrupted s"
    by (simp_all add: t act_simps)
  ultimately show ?thesis using s by (intro written5I [of t p' q' M]) auto
qed

text \<open>With two processes a step is an action of one of them; neither forks any more.\<close>

lemma act_cannot_fail:
  "(case a of Fork c p f \<Rightarrow> False | Exec f \<Rightarrow> False | _ \<Rightarrow> True) \<Longrightarrow> act ok j i a s = act True j i a s"
  by (cases a) simp_all

lemma two_processes:
  assumes "pstep may prog s t" "procs s = [p, q]" "state_of p \<noteq> Replaced" "state_of q \<noteq> Replaced"
  obtains i l ok j where "i \<in> {0, 1}" "state_of (procs s ! i) = Running l" "act ok j i (prog l) s = Some t"
  using assms(1)
proof cases
  case (proc_acts i l ok j)
  then show thesis using assms(2) by (intro that [of i l ok j]) (auto simp: less_Suc_eq)
next
  case (replaced_ends i w)
  then show thesis using assms(2-4) by (auto simp: less_Suc_eq)
qed

lemma not_forking5:
  "parent5 w x \<Longrightarrow> x \<noteq> Replaced \<and> x \<noteq> Running T5_Fork" "child5 M r c x \<Longrightarrow> x \<noteq> Replaced \<and> x \<noteq> Running T5_Fork"
  by (cases w; cases x; auto) (cases x; auto)

lemma two_processes5:
  assumes "unwritten5 s \<or> written5 s" "pstep may task5 s t"
  obtains i l j where "i \<in> {0, 1}" "state_of (procs s ! i) = Running l" "act True j i (task5 l) s = Some t"
proof -
  obtain p q where pq: "procs s = [p, q]" "state_of p \<noteq> Replaced \<and> state_of p \<noteq> Running T5_Fork"
    "state_of q \<noteq> Replaced \<and> state_of q \<noteq> Running T5_Fork"
    using assms(1) not_forking5 unfolding unwritten5_def written5_def by blast
  then obtain i l ok j where i: "i \<in> {0, 1}" "state_of (procs s ! i) = Running l" "act ok j i (task5 l) s = Some t"
    using two_processes [OF assms(2), of p q thesis] by metis
  then have "l \<noteq> T5_Fork" using pq by auto
  then have "act ok j i (task5 l) s = act True j i (task5 l) s" by (intro act_cannot_fail) (cases l; simp)
  with i that show thesis by metis
qed

lemma inv5_act:
  assumes inv: "inv5 may ok s" and st: "pstep may task5 s t" shows "inv5 may ok t"
proof -
  consider "\<not> ok" "failed5 ''Couldn't pipe.'' s" | ok "alone5 s" | ok may "failed5 ''Couldn't fork.'' s"
    | ok "unwritten5 s" | ok "written5 s" using inv by (auto simp: inv5_def split: if_splits)
  then show ?thesis
  proof cases
    case 4
    then obtain i l j where "i \<in> {0, 1}" "state_of (procs s ! i) = Running l" "act True j i (task5 l) s = Some t"
      using two_processes5 [OF _ st] by metis
    with 4 show ?thesis using unwritten5_parent [of s l j t] unwritten5_child [of s l j t] by (auto simp: inv5_def)
  next
    case 5
    then obtain i l j where "i \<in> {0, 1}" "state_of (procs s ! i) = Running l" "act True j i (task5 l) s = Some t"
      using two_processes5 [OF _ st] by metis
    with 5 show ?thesis using written5_parent [of s l j t] written5_child [of s l j t] by (auto simp: inv5_def)
  next
    case 2
    with alone5_step [OF 2(2) st] show ?thesis by (auto simp: inv5_def)
  qed (use failed5_step [OF _ st] in \<open>auto simp: inv5_def\<close>)
qed

lemma inv5_main: "inv5 may pipe_ok (main5 pipe_ok)"
  by (simp add: main5_def inv5_def failed5_def alone5_def boot_def)

text \<open>The actions that are left.\<close>

fun parent_left5 :: "place5 pstate \<Rightarrow> nat" where
  "parent_left5 (Running T5_Parent) = 6" | "parent_left5 (Running T5_Waiting) = 5"
| "parent_left5 (Running T5_Sleep) = 4" | "parent_left5 (Running T5_Test) = 3"
| "parent_left5 (Running (T5_Send f)) = 2" | "parent_left5 (Running (T5_Error m)) = 2" | "parent_left5 (Running (T5_Exit c)) = 1" | "parent_left5 x = 0"

fun child_left5 :: "place5 pstate \<Rightarrow> nat" where
  "child_left5 (Running T5_Child) = 92"
| "child_left5 (Running (T5_Reading m)) = 2 * (43 - length m) + 5"
| "child_left5 (Running (T5_Got m b)) = (if b = [] then 3 else 2 * (43 - length m) + 4)"
| "child_left5 (Running (T5_Tell m)) = 2" | "child_left5 (Running (T5_Exit c)) = 1" | "child_left5 x = 0"

fun left5_of :: "place5 pstate list \<Rightarrow> nat" where
  "left5_of [Running T5_Fork] = 99"
| "left5_of [p, q] = parent_left5 p + child_left5 q"
| "left5_of [p] = parent_left5 p"
| "left5_of ps = 0"

definition left5 :: "(place5, line5) psystem \<Rightarrow> nat" where
  "left5 s = left5_of (map state_of (procs s))"

lemma left5_act:
  assumes inv: "inv5 may ok s" and st: "pstep may task5 s t" shows "left5 t < left5 s"
proof -
  consider why where "failed5 why s" | "alone5 s" | "unwritten5 s" | "written5 s"
    using inv by (auto simp: inv5_def split: if_splits)
  then show ?thesis
  proof cases
    case (1 why)
    then obtain p where "procs s = [p]" "state_of p \<in> {Running (T5_Error why), Running (T5_Exit 1), Zombie (Exit_code 1)}"
      unfolding failed5_def by blast
    with st show ?thesis by cases (auto simp: left5_def act_simps)
  next
    case 2
    with st show ?thesis by cases (auto simp: alone5_def left5_def act_simps split: if_splits)
  next
    case 3
    then obtain i l j where a: "i \<in> {0, 1}" "state_of (procs s ! i) = Running l" "act True j i (task5 l) s = Some t"
      using two_processes5 [OF _ st] by metis
    from 3 obtain p q where s: "procs s = [p, q]" "parent5 False (state_of p)" "can_read q"
      "state_of q \<in> {Running T5_Child, Running (T5_Reading [])}" "can_write p" "pipe_of s = []"
      unfolding unwritten5_def by blast
    from a(1) show ?thesis
    proof
      assume "i = 0"
      with a s show ?thesis by (cases l) (auto simp: left5_def act_simps split: if_splits)
    next
      assume "i \<in> {1}"
      with a s show ?thesis by (cases l) (auto simp: left5_def act_simps split: if_splits)
    qed
  next
    case 4
    then obtain i l j where a: "i \<in> {0, 1}" "state_of (procs s ! i) = Running l" "act True j i (task5 l) s = Some t"
      using two_processes5 [OF _ st] by metis
    from 4 obtain p q M where s: "procs s = [p, q]" "M \<in> emails" "parent5 True (state_of p)"
      "child5 M (pipe_of s) (can_write q) (state_of q)"
      unfolding written5_def by blast
    have M: "length M \<le> 43" using email_length [OF s(2)] .
    from a(1) show ?thesis
    proof
      assume "i = 0"
      with a s show ?thesis by (cases l) (auto simp: left5_def act_simps)
    next
      assume "i \<in> {1}"
      then have i: "i = 1" by simp
      show ?thesis
      proof (cases l)
        case (T5_Got m b)
        with i a s M show ?thesis by (cases b) (auto simp: left5_def act_simps)
      qed (use i a s M in \<open>auto simp: left5_def act_simps split: if_splits\<close>)
    qed
  qed
qed

lemma inv5_signal:
  assumes "inv5 may ok s" shows "inv5 may ok (s\<lparr>interrupted := True\<rparr>)"
proof -
  let ?t = "s\<lparr>interrupted := True\<rparr>"
  have "failed5 why s \<Longrightarrow> failed5 why ?t" for why by (simp add: failed5_def)
  moreover have "alone5 s \<Longrightarrow> alone5 ?t" by (simp add: alone5_def)
  moreover have "unwritten5 s \<Longrightarrow> unwritten5 ?t" unfolding unwritten5_def by fastforce
  moreover have "written5 s \<Longrightarrow> written5 ?t" unfolding written5_def by fastforce
  ultimately show ?thesis using assms by (auto simp: inv5_def split: if_splits)
qed

interpretation left5: signal_measure may task5 "inv5 may ok" left5 for may ok
proof unfold_locales
  show "inv5 may ok t" if "inv5 may ok s" "sigstep may task5 s t" for s t
    using that by (auto elim!: sigstepE intro: inv5_act inv5_signal)
  show "left5 t < left5 s" if "inv5 may ok s" "pstep may task5 s t" for s t using that by (rule left5_act)
qed (simp add: left5_def)

text \<open>Nobody waits for ever: the child has closed its end for writing, and the parent's is closed when it ends.\<close>

lemma stuck5:
  assumes inv: "inv5 may ok s" and stuck: "\<nexists>t. pstep may task5 s t"
  shows "(ok \<and> written5 s \<and> map state_of (procs s) = [Zombie (Exit_code 0), Zombie (Exit_code 0)]) \<or>
    (\<exists>why. failed5 why s \<and> map state_of (procs s) = [Zombie (Exit_code 1)] \<and>
      (if ok then may \<and> why = ''Couldn't fork.'' else why = ''Couldn't pipe.''))"
proof -
  have off: "act True 0 i (task5 l) s = None" if "i < length (procs s)" "state_of (procs s ! i) = Running l" for i l
    using stuck that by (metis option.exhaust proc_acts)
  have failed: "map state_of (procs s) = [Zombie (Exit_code 1)]" if "failed5 why s" for why
    using that off [of 0 "T5_Exit 1"] off [of 0 "T5_Error why"] by (auto simp: failed5_def)
  consider "\<not> ok" "failed5 ''Couldn't pipe.'' s" | "alone5 s" | ok may "failed5 ''Couldn't fork.'' s"
    | "unwritten5 s" | ok "written5 s" using inv by (auto simp: inv5_def split: if_splits)
  then show ?thesis
  proof cases
    case 2
    then show ?thesis using off [of 0 T5_Fork] by (auto simp: alone5_def)
  next
    case 4
    then obtain p q where s: "procs s = [p, q]" "can_read q" "parent5 False (state_of p)"
      unfolding unwritten5_def by blast
    then obtain l where "state_of p = Running l" by (cases "state_of p") auto
    with s off [of 0 l] show ?thesis by auto
  next
    case 5
    then obtain p q M where s: "procs s = [p, q]" "parent5 True (state_of p)" "ended p \<longrightarrow> \<not> can_write p"
      "child5 M (pipe_of s) (can_write q) (state_of q)"
      unfolding written5_def by blast
    have p: "state_of p = Zombie (Exit_code 0)"
      using s(1,2) off [of 0 "T5_Exit 0"] by (cases "state_of p") auto
    then have np: "\<not> can_write p" using s(3) by (simp add: ended_def)
    have "state_of q = Zombie (Exit_code 0)"
    proof (cases "state_of q")
      case (Running l)
      with s(1,4) np off [of 1 l] show ?thesis by (cases l) (auto split: if_splits)
    qed (use s(4) in auto)
    with 5 s p show ?thesis by simp
  qed (use failed in auto)
qed

text \<open>C30: the child of \<open>task5.c\<close> reads the message of its parent. Whatever the schedule, whenever the
  signal arrives, and whether or not the pipe can be created and \<open>fork\<close> succeeds (\<open>may\<close> tells whether it may
  fail), the processes make at most 99 actions. When none of them can act, either no call has failed, both
  have exited with 0, the parent has printed that it waits, and then the child one of the two messages, complete,
  although it reads one byte at a time: the secret one only if the signal has arrived. Or \<open>pipe\<close> or \<open>fork\<close>
  has failed, and the only process has printed that call's error line, and nothing else, and exited with 1.\<close>

theorem task5_delivers:
  assumes "sigrun may task5 n (main5 pipe_ok) s"
  shows "n \<le> 99 \<and> ((\<nexists>t. pstep may task5 s t) \<longrightarrow>
    pipe_ok \<and> map state_of (procs s) = [Zombie (Exit_code 0), Zombie (Exit_code 0)] \<and>
      (\<exists>M. said s = [(2, Waiting_for_signal), (3, Child_read M)] \<and>
        (M = ''Hello my child!'' \<or> M = ''It`s my secret email for you, son. Father.'' \<and> interrupted s)) \<or>
    (may \<or> \<not> pipe_ok) \<and> map state_of (procs s) = [Zombie (Exit_code 1)] \<and>
      said s = [(2, Perror5 (if pipe_ok then ''Couldn't fork.'' else ''Couldn't pipe.''))])"
proof (intro conjI impI)
  have inv: "inv5 may pipe_ok s" by (rule left5.sigrun_inv [OF assms inv5_main])
  have "n + left5 s \<le> left5 (main5 pipe_ok)" by (rule left5.sigrun_bound [OF assms inv5_main])
  then show "n \<le> 99" by (simp add: left5_def main5_def boot_def split: if_splits)
  assume "\<nexists>t. pstep may task5 s t"
  with stuck5 [OF inv] show "pipe_ok \<and> map state_of (procs s) = [Zombie (Exit_code 0), Zombie (Exit_code 0)] \<and>
      (\<exists>M. said s = [(2, Waiting_for_signal), (3, Child_read M)] \<and>
        (M = ''Hello my child!'' \<or> M = ''It`s my secret email for you, son. Father.'' \<and> interrupted s)) \<or>
    (may \<or> \<not> pipe_ok) \<and> map state_of (procs s) = [Zombie (Exit_code 1)] \<and>
      said s = [(2, Perror5 (if pipe_ok then ''Couldn't fork.'' else ''Couldn't pipe.''))]"
    by (cases pipe_ok) (auto simp: written5_def emails_def failed5_def)
qed

text \<open>A run without the signal: the parent writes and exits, then the child reads byte by byte.\<close>

definition hello_run :: "nat option list" where
  "hello_run = replicate 7 (Some 0) @ replicate 35 (Some 1)"

lemma hello_result:
  "\<exists>t. psched task5 hello_run (main5 True) = Some t \<and>
     said t = [(2, Waiting_for_signal), (3, Child_read ''Hello my child!'')] \<and>
     map state_of (procs t) = [Zombie (Exit_code 0), Zombie (Exit_code 0)]"
  by (simp add: hello_run_def main5_def boot_def act_simps numeral_eq_Suc waitable_def)

theorem task5_delivers_witness:
  "\<exists>n s. sigrun True task5 n (main5 True) s \<and> n \<le> 99 \<and> (\<nexists>t. pstep True task5 s t) \<and>
     said s = [(2, Waiting_for_signal), (3, Child_read ''Hello my child!'')]"
proof -
  obtain s where s: "psched task5 hello_run (main5 True) = Some s"
    "said s = [(2, Waiting_for_signal), (3, Child_read ''Hello my child!'')]"
    "map state_of (procs s) = [Zombie (Exit_code 0), Zombie (Exit_code 0)]"
    using hello_result by (elim exE conjE)
  have "reachable (\<lambda>s. s = main5 True) (sigstep True task5) s"
    by (rule psched_reachable [OF s(1)]) (simp add: reach_init)
  then obtain n where n: "sigrun True task5 n (main5 True) s" using reachable_sigrun by blast
  have "\<nexists>t. pstep True task5 s t" using s(3) by (auto elim!: pstep.cases simp: less_Suc_eq)
  with task5_delivers [OF n] n s(2) show ?thesis by blast
qed

text \<open>At any time before: the child prints nothing before its parent has written, and no more than its buffer holds.\<close>

theorem task5_whole_message:
  assumes "sigrun may task5 n (main5 True) s" and "(p, Child_read x) \<in> set (said s)"
  shows "x \<in> {''It`s my secret email for you, son. Father.'', ''Hello my child!''} \<and> length x < 64 \<and>
    state_of (procs s ! 0) \<in> {Running (T5_Exit 0), Zombie (Exit_code 0)}"
proof -
  have inv: "inv5 may True s" by (rule left5.sigrun_inv [OF assms(1) inv5_main])
  have no: "(p, Child_read x) \<notin> set (waiting5 st)" for st by (cases st rule: waiting5.cases) auto
  have "\<not> unwritten5 s" using assms(2) no unfolding unwritten5_def by metis
  then have "written5 s" using inv assms(2)
    by (auto simp: inv5_def alone5_def failed5_def)
  then obtain q r M where M: "procs s = [q, r]" "M \<in> emails" "parent5 True (state_of q)"
    "said s = (2, Waiting_for_signal) # told5 M (state_of r)" unfolding written5_def by blast
  have "x = M" if "(p, Child_read x) \<in> set (told5 M st)" for st using that by (cases "(M, st)" rule: told5.cases) auto
  with assms(2) M(4) have "x = M" by auto
  with M show ?thesis by (cases "state_of q") (auto simp: emails_def)
qed

end
