(* ===== verification/Daemons.thy ===== *)
theory Daemons
  imports C_Strings
begin

text \<open>
  The two functions \<open>daemonize\<close>, of \<open>6-semestr/lab1/daemon.c\<close> and \<open>6-semestr/lab4/part1/daemonize.c\<close>, and
  the check of \<open>daemon.c\<close> for a daemon that is already running. The state is that of the process that
  goes on; what the system calls answer is a parameter.
\<close>

section \<open>A process and what the system answers\<close>

text \<open>Position \<open>i\<close> of \<open>descriptors\<close> is what descriptor \<open>i\<close> refers to, \<open>None\<close> when it is closed.\<close>

record dproc =
  mask :: nat
  group_leader :: bool
  session_leader :: bool
  has_terminal :: bool
  sighup_ignored :: bool
  directory :: string
  descriptors :: "string option list"

text \<open>
  \<open>fork_gives k\<close> is the result of the \<open>k\<close>-th \<open>fork\<close> in the process that is followed: negative after a
  failure, 0 in the child. \<open>rlimit\<close> is \<open>None\<close> when \<open>getrlimit\<close> fails, \<open>Some None\<close> for \<open>RLIM_INFINITY\<close>.
\<close>

record denv =
  rlimit :: "nat option option"
  fork_gives :: "nat \<Rightarrow> int"
  sigaction_ok :: bool
  chdir_ok :: bool
  devnull_ok :: bool
  lockfile_ok :: bool
  syslog_ok :: bool
  own_pid :: nat

datatype dstop = DExit nat | DFault c_fault

definition forked :: "dproc \<Rightarrow> dproc" where
  "forked p = p\<lparr>group_leader := False, session_leader := False\<rparr>"

text \<open>\<open>setsid\<close> fails for the leader of a process group.\<close>

definition setsid :: "dproc \<Rightarrow> dproc" where
  "setsid p =
     (if group_leader p then p
      else p\<lparr>group_leader := True, session_leader := True, has_terminal := False\<rparr>)"

definition close_below :: "nat \<Rightarrow> dproc \<Rightarrow> dproc" where
  "close_below n p =
     p\<lparr>descriptors := replicate (min n (length (descriptors p))) None @ drop n (descriptors p)\<rparr>"

text \<open>A new descriptor is the lowest closed one.\<close>

fun lowest :: "string option list \<Rightarrow> nat" where
  "lowest [] = 0"
| "lowest (d # ds) = (if d = None then 0 else Suc (lowest ds))"

definition new_descriptor :: "string \<Rightarrow> dproc \<Rightarrow> int \<times> dproc" where
  "new_descriptor f p =
     (let i = lowest (descriptors p) in
      (int i, p\<lparr>descriptors := (if i < length (descriptors p) then (descriptors p)[i := Some f]
         else descriptors p @ [Some f])\<rparr>))"

definition open_null :: "bool \<Rightarrow> dproc \<Rightarrow> int \<times> dproc" where
  "open_null ok p = (if ok then new_descriptor ''/dev/null'' p else (- 1, p))"

definition dup0 :: "dproc \<Rightarrow> int \<times> dproc" where
  "dup0 p =
     (case descriptors p of
        Some f # ds \<Rightarrow> new_descriptor f p
      | _ \<Rightarrow> (- 1, p))"

text \<open>The end of both functions: descriptors 0, 1 and 2 are opened on \<open>/dev/null\<close>.\<close>

definition standard_null :: "bool \<Rightarrow> dproc \<Rightarrow> dstop + dproc" where
  "standard_null ok p =
     (let (fd0, p0) = open_null ok p;
          (fd1, p1) = dup0 p0;
          (fd2, p2) = dup0 p1 in
      if fd0 \<noteq> 0 \<or> fd1 \<noteq> 1 \<or> fd2 \<noteq> 2 then Inl (DExit 1) else Inr p2)"

definition max_descriptors :: "nat option \<Rightarrow> nat" where
  "max_descriptors l = (case l of None \<Rightarrow> 1024 | Some n \<Rightarrow> n)"

section \<open>The error functions of \<open>lab4/part1\<close>\<close>

definition MAXLINE :: nat where "MAXLINE = 4096"

text \<open>\<open>vsnprintf\<close> and \<open>snprintf\<close> with a limit \<open>n\<close>: at most \<open>n - 1\<close> bytes and a zero byte.\<close>

definition snprintf_at :: "char list \<Rightarrow> nat \<Rightarrow> nat \<Rightarrow> char list \<Rightarrow> c_fault + char list" where
  "snprintf_at buf i n msg =
     (if n = 0 then Inr buf else store_block buf (int i) (take (n - 1) msg @ [nul]))"

text \<open>
  \<open>err_doit\<close>: what is put to the standard error; \<open>msg\<close> is the expanded format, \<open>serr\<close> what
  \<open>strerror\<close> gives, \<open>stack\<close> the bytes of the buffer before the call.
\<close>

definition err_doit :: "char list \<Rightarrow> bool \<Rightarrow> char list \<Rightarrow> char list \<Rightarrow> c_fault + char list" where
  "err_doit stack errnoflag serr msg =
     (case snprintf_at stack 0 (MAXLINE - 1) msg of
        Inl e \<Rightarrow> Inl e
      | Inr b1 \<Rightarrow>
         (case (if errnoflag then
                  (case c_strlen b1 of
                     Inl e \<Rightarrow> Inl e
                   | Inr l \<Rightarrow> snprintf_at b1 l (MAXLINE - l - 1) ('': '' @ serr))
                else Inr b1) of
            Inl e \<Rightarrow> Inl e
          | Inr b2 \<Rightarrow>
             (case c_strlen b2 of
                Inl e \<Rightarrow> Inl e
              | Inr l \<Rightarrow> map_sum id c_str (store_block b2 (int l) [CHR 0x0A, nul]))))"

definition err_quit :: "char list \<Rightarrow> char list \<Rightarrow> c_fault + (char list \<times> dstop)" where
  "err_quit stack msg = map_sum id (\<lambda>line. (line, DExit 1)) (err_doit stack False [] msg)"

lemma snprintf_start:
  assumes "length b = MAXLINE" "i + length s < MAXLINE" "nul \<notin> set s" "length pre = i" "take i b = pre" "nul \<notin> set pre"
  shows "\<exists>b'. store_block b (int i) (s @ [nul]) = Inr b' \<and> length b' = MAXLINE \<and> take (i + length s) b' = pre @ s \<and>
    c_strlen b' = Inr (i + length s) \<and> c_str b' = pre @ s"
proof -
  let ?r = "drop (i + Suc (length s)) b"
  have st: "store_block b (int i) (s @ [nul]) = Inr ((pre @ s) @ nul # ?r)"
    using assms(1,2,5) by (simp add: store_block_def)
  have "length ((pre @ s) @ nul # ?r) = MAXLINE" using assms(1,2,4) by simp
  moreover have "nul \<notin> set (pre @ s)" using assms(3,6) by simp
  then have "c_strlen ((pre @ s) @ nul # ?r) = Inr (length (pre @ s))" "c_str ((pre @ s) @ nul # ?r) = pre @ s"
    by (intro c_strlen_append c_str_append; simp)+
  ultimately show ?thesis using st assms(4) by (intro exI [of _ "(pre @ s) @ nul # ?r"]) simp
qed

text \<open>The line never leaves the buffer, and is cut off so that the newline always fits.\<close>

lemma err_doit_fits:
  assumes stack: "length stack = MAXLINE" and n: "nul \<notin> set msg" "nul \<notin> set serr"
  shows "err_doit stack flag serr msg =
    Inr (take (MAXLINE - 2) (msg @ (if flag then '': '' @ serr else [])) @ [CHR 0x0A])"
proof -
  let ?a = "take (MAXLINE - 2) msg"
  have a: "length ?a < MAXLINE" "nul \<notin> set ?a" using n by (auto simp: MAXLINE_def dest: in_set_takeD)
  obtain b1 where b1: "snprintf_at stack 0 (MAXLINE - 1) msg = Inr b1" "length b1 = MAXLINE" "take (length ?a) b1 = ?a"
    "c_strlen b1 = Inr (length ?a)" "c_str b1 = ?a"
    using snprintf_start [OF stack, of 0 ?a "[]"] a by (auto simp: snprintf_at_def MAXLINE_def)
  let ?e = "if flag then take (MAXLINE - length ?a - 2) ('': '' @ serr) else []"
  have all: "?a @ ?e = take (MAXLINE - 2) (msg @ (if flag then '': '' @ serr else []))"
    by (auto simp: min_def MAXLINE_def)
  have e: "length (?a @ ?e) \<le> MAXLINE - 2" unfolding all by simp
  have ne: "nul \<notin> set ?e" using n(2) by (auto simp: nul_def dest!: in_set_takeD)
  have "\<exists>b2. (if flag then (case c_strlen b1 of Inl e \<Rightarrow> Inl e
        | Inr l \<Rightarrow> snprintf_at b1 l (MAXLINE - l - 1) ('': '' @ serr)) else Inr b1) = Inr b2 \<and>
      length b2 = MAXLINE \<and> take (length (?a @ ?e)) b2 = ?a @ ?e \<and> c_strlen b2 = Inr (length (?a @ ?e))"
  proof (cases flag)
    case True
    with snprintf_start [OF b1(2), of "length ?a" ?e ?a] b1 a ne e show ?thesis
      by (auto simp: snprintf_at_def MAXLINE_def)
  qed (use b1 in auto)
  then obtain b2 where b2: "(if flag then (case c_strlen b1 of Inl e \<Rightarrow> Inl e
        | Inr l \<Rightarrow> snprintf_at b1 l (MAXLINE - l - 1) ('': '' @ serr)) else Inr b1) = Inr b2"
      "length b2 = MAXLINE" "take (length (?a @ ?e)) b2 = ?a @ ?e" "c_strlen b2 = Inr (length (?a @ ?e))" by blast
  have "nul \<notin> set (?a @ ?e)" using a(2) ne by simp
  then obtain b3 where "store_block b2 (int (length (?a @ ?e))) ([CHR 0x0A] @ [nul]) = Inr b3" "c_str b3 = (?a @ ?e) @ [CHR 0x0A]"
    using snprintf_start [OF b2(2), of "length (?a @ ?e)" "[CHR 0x0A]" "?a @ ?e"] b2(3) e
    by (auto simp: MAXLINE_def nul_def)
  then show ?thesis unfolding err_doit_def b1(1) sum.case b2(1) b2(4) by (simp add: all)
qed

section \<open>\<open>daemonize\<close> of \<open>lab4/part1\<close>\<close>

text \<open>Every error ends the program (\<open>err_quit\<close>); a second \<open>fork\<close> gives up the lead of the session.\<close>

definition daemonize4 :: "denv \<Rightarrow> dproc \<Rightarrow> dstop + dproc" where
  "daemonize4 e p =
     (let p1 = p\<lparr>mask := 0\<rparr> in
      case rlimit e of
        None \<Rightarrow> Inl (DExit 1)
      | Some rl \<Rightarrow>
         if fork_gives e 0 < 0 then Inl (DExit 1)
         else if fork_gives e 0 \<noteq> 0 then Inl (DExit 0)
         else
          (let p2 = setsid (forked p1) in
           if \<not> sigaction_ok e then Inl (DExit 1)
           else
            (let p3 = p2\<lparr>sighup_ignored := True\<rparr> in
             if fork_gives e 1 < 0 then Inl (DExit 1)
             else if fork_gives e 1 \<noteq> 0 then Inl (DExit 0)
             else if \<not> chdir_ok e then Inl (DExit 1)
             else standard_null (devnull_ok e)
                    (close_below (max_descriptors rl) ((forked p3)\<lparr>directory := ''/''\<rparr>)))))"

section \<open>\<open>daemon.c\<close>\<close>

text \<open>
  Here every error but that of the descriptors is printed and ignored: after a failed \<open>fork\<close> the
  first process goes on, and after a failed \<open>getrlimit\<close> an uninitialised limit is used. \<open>openlog\<close> without
  \<open>LOG_NDELAY\<close> opens nothing; the first \<open>syslog\<close> opens the socket of the log, which stays open (\<open>syslog_ok\<close>
  tells whether there is someone to connect to).
\<close>

definition log_socket :: "denv \<Rightarrow> string list" where
  "log_socket e = (if syslog_ok e then [''/dev/log''] else [])"

definition open_log :: "denv \<Rightarrow> dproc \<Rightarrow> dproc" where
  "open_log e p = (if syslog_ok e then snd (new_descriptor ''/dev/log'' p) else p)"

definition daemonize1 :: "denv \<Rightarrow> dproc \<Rightarrow> dstop + dproc" where
  "daemonize1 e p =
     (let p1 = p\<lparr>mask := 0\<rparr> in
      if 0 < fork_gives e 0 then Inl (DExit 0)
      else
       (let p2 = setsid (if fork_gives e 0 < 0 then p1 else forked p1);
            p3 = (if sigaction_ok e then p2\<lparr>sighup_ignored := True\<rparr> else p2);
            p4 = (if chdir_ok e then p3\<lparr>directory := ''/''\<rparr> else p3) in
        case rlimit e of
          None \<Rightarrow> Inl (DFault Uninitialised)
        | Some rl \<Rightarrow> map_sum id (open_log e) (standard_null (devnull_ok e) (close_below (max_descriptors rl) p4))))"

text \<open>
  \<open>flock\<close> as in \<open>flock (2)\<close>: besides \<open>LOCK_NB\<close> exactly one of the operations must be given, otherwise it
  fails with \<open>EINVAL\<close>. The file may be locked by another process.
\<close>

definition LOCK_SH :: nat where "LOCK_SH = 1"
definition LOCK_EX :: nat where "LOCK_EX = 2"
definition LOCK_NB :: nat where "LOCK_NB = 4"
definition LOCK_UN :: nat where "LOCK_UN = 8"

datatype flock_result = Got_Lock | Unlocked | Would_Block | Invalid | Waits_For_Lock

definition flock :: "nat \<Rightarrow> bool \<Rightarrow> flock_result" where
  "flock op locked =
     (let nb = odd (op div 4); what = (if nb then op - LOCK_NB else op) in
      if what = LOCK_UN then Unlocked
      else if what = LOCK_EX \<or> what = LOCK_SH then
        (if \<not> locked then Got_Lock else if nb then Would_Block else Waits_For_Lock)
      else Invalid)"

text \<open>The daemons that run, with the one that holds the lock, and what the lock file contains.\<close>

record dsystem =
  running :: "(nat \<times> dproc) list"
  lock_holder :: "nat option"
  lock_text :: "char list"

definition LOCKFILE :: string where "LOCKFILE = ''/var/run/daemon.pid''"

text \<open>The result is what the function returns and the process, which keeps the lock file open.\<close>

definition already_running :: "denv \<Rightarrow> dproc \<Rightarrow> dsystem \<Rightarrow> (dstop + (nat \<times> dproc)) \<times> dsystem" where
  "already_running e p s =
     (if \<not> lockfile_ok e then (Inl (DExit 1), s)
      else case flock (LOCK_EX + LOCK_UN) (lock_holder s \<noteq> None) of
        Would_Block \<Rightarrow> (Inl (DExit 1), s)
      | r \<Rightarrow> (Inr (0, snd (new_descriptor LOCKFILE p)), s\<lparr>lock_holder := (if r = Got_Lock then Some (own_pid e) else lock_holder s),
                 lock_text := decimal (own_pid e) @ [nul]\<rparr>))"

text \<open>
  \<open>lockfile\<close>, whose call is commented out: \<open>fcntl (F_SETLK)\<close> with a write lock on the whole file fails
  when another process holds one.
\<close>

definition lockfile :: "nat \<Rightarrow> dsystem \<Rightarrow> int \<times> dsystem" where
  "lockfile pid s =
     (case lock_holder s of
        None \<Rightarrow> (0, s\<lparr>lock_holder := Some pid\<rparr>)
      | Some h \<Rightarrow> if h = pid then (0, s) else (- 1, s))"

lemma lockfile_exclusive:
  assumes "lockfile p s = (0, t)" "p \<noteq> q" shows "lockfile q t = (- 1, t)"
  using assms by (auto simp: lockfile_def split: option.splits if_splits)

text \<open>\<open>main\<close> up to its endless loop: a daemon that gets there joins those that run.\<close>

definition daemon_main :: "denv \<Rightarrow> dproc \<Rightarrow> dsystem \<Rightarrow> dstop option \<times> dsystem" where
  "daemon_main e p s =
     (case daemonize1 e p of
        Inl r \<Rightarrow> (Some r, s)
      | Inr q \<Rightarrow>
         (case already_running e q s of
            (Inl r, t) \<Rightarrow> (Some r, t)
          | (Inr (n, u), t) \<Rightarrow>
             if n \<noteq> 0 then (Some (DExit 1), t) else (None, t\<lparr>running := running t @ [(own_pid e, u)]\<rparr>)))"

fun start_daemons :: "(denv \<times> dproc) list \<Rightarrow> dsystem \<Rightarrow> dsystem" where
  "start_daemons [] s = s"
| "start_daemons ((e, p) # rest) s = start_daemons rest (snd (daemon_main e p s))"

section \<open>What a daemon is\<close>

text \<open>Behind the three standard descriptors it has no open one, or (\<open>daemon_with fs\<close>) just those of the files \<open>fs\<close>.\<close>

definition is_daemon :: "dproc \<Rightarrow> bool" where
  "is_daemon p \<longleftrightarrow>
     mask p = 0 \<and> \<not> has_terminal p \<and> sighup_ignored p \<and> directory p = ''/'' \<and>
     take 3 (descriptors p) = [Some ''/dev/null'', Some ''/dev/null'', Some ''/dev/null''] \<and>
     (\<forall>d \<in> set (drop 3 (descriptors p)). d = None)"

definition daemon_with :: "string list \<Rightarrow> dproc \<Rightarrow> bool" where
  "daemon_with fs p \<longleftrightarrow>
     mask p = 0 \<and> \<not> has_terminal p \<and> sighup_ignored p \<and> directory p = ''/'' \<and>
     descriptors p = map Some ([''/dev/null'', ''/dev/null'', ''/dev/null''] @ fs) @
       replicate (length (descriptors p) - (3 + length fs)) None"

lemma daemon_with_none: "is_daemon p \<Longrightarrow> daemon_with [] p"
  unfolding is_daemon_def daemon_with_def
  using append_take_drop_id [of 3 "descriptors p"]
    replicate_eqI [of "drop 3 (descriptors p)" "length (descriptors p) - 3" None] by simp

lemma lowest_open: "lowest (map Some fs @ replicate k None) = length fs"
  by (induction fs) (simp, cases k, simp_all)

lemma daemon_opens:
  assumes "daemon_with fs p" shows "daemon_with (fs @ [f]) (snd (new_descriptor f p))"
proof -
  let ?fs = "[''/dev/null'', ''/dev/null'', ''/dev/null''] @ fs"
  obtain k where k: "descriptors p = map Some ?fs @ replicate k None"
    using assms unfolding daemon_with_def by blast
  have "descriptors (snd (new_descriptor f p)) = map Some (?fs @ [f]) @ replicate (k - 1) None"
    unfolding new_descriptor_def Let_def k lowest_open by (cases k) (simp_all add: list_update_append)
  then show ?thesis using assms unfolding daemon_with_def by (simp add: new_descriptor_def Let_def)
qed

lemma daemon_log: "is_daemon p \<Longrightarrow> daemon_with (log_socket e) (open_log e p)"
  using daemon_opens [OF daemon_with_none, of p "''/dev/log''"] daemon_with_none [of p]
  by (simp add: log_socket_def open_log_def)

lemma lowest_None: "lowest (replicate n None @ ds) = (if n = 0 then lowest ds else 0)"
  by (cases n) simp_all

lemma standard_null_closed:
  assumes "\<forall>d \<in> set (descriptors p). d = None" "ok"
  shows "\<exists>q. standard_null ok p = Inr q \<and>
    take 3 (descriptors q) = [Some ''/dev/null'', Some ''/dev/null'', Some ''/dev/null''] \<and>
    (\<forall>d \<in> set (drop 3 (descriptors q)). d = None) \<and>
    q = p\<lparr>descriptors := descriptors q\<rparr>"
proof -
  obtain n where d: "descriptors p = replicate n None" using assms(1) by (metis replicate_eqI)
  consider "n = 0" | "n = 1" | "n = 2" | m where "n = Suc (Suc (Suc m))"
    by (metis One_nat_def numeral_2_eq_2 old.nat.exhaust)
  then show ?thesis
    using assms(2) d
    by cases (simp_all add: standard_null_def open_null_def new_descriptor_def dup0_def Let_def numeral_eq_Suc)
qed

lemma close_below_all:
  assumes "length (descriptors p) \<le> n"
  shows "\<forall>d \<in> set (descriptors (close_below n p)). d = None"
  using assms by (simp add: close_below_def)

definition all_succeed :: "denv \<Rightarrow> dproc \<Rightarrow> bool" where
  "all_succeed e p \<longleftrightarrow>
     (case rlimit e of None \<Rightarrow> False | Some rl \<Rightarrow> length (descriptors p) \<le> max_descriptors rl) \<and>
     fork_gives e 0 = 0 \<and> fork_gives e 1 = 0 \<and> sigaction_ok e \<and> chdir_ok e \<and> devnull_ok e \<and> lockfile_ok e"

lemma daemonize1_daemon:
  assumes "all_succeed e p"
  shows "\<exists>q. daemonize1 e p = Inr (open_log e q) \<and> is_daemon q \<and> session_leader q"
proof -
  obtain rl where rl: "rlimit e = Some rl" "length (descriptors p) \<le> max_descriptors rl"
    using assms by (auto simp: all_succeed_def split: option.splits)
  let ?p = "(setsid (forked (p\<lparr>mask := 0\<rparr>)))\<lparr>sighup_ignored := True, directory := ''/''\<rparr>"
  have fd: "descriptors ?p = descriptors p" by (simp add: setsid_def forked_def)
  have "\<forall>d \<in> set (descriptors (close_below (max_descriptors rl) ?p)). d = None"
    using rl fd by (intro close_below_all) simp
  then obtain q where q: "standard_null True (close_below (max_descriptors rl) ?p) = Inr q"
    "take 3 (descriptors q) = [Some ''/dev/null'', Some ''/dev/null'', Some ''/dev/null'']"
    "\<forall>d \<in> set (drop 3 (descriptors q)). d = None"
    "q = (close_below (max_descriptors rl) ?p)\<lparr>descriptors := descriptors q\<rparr>"
    using standard_null_closed [of _ True] by blast
  have "daemonize1 e p = Inr (open_log e q)"
    using assms rl q(1) by (simp add: daemonize1_def all_succeed_def Let_def)
  moreover have "is_daemon q \<and> session_leader q"
    using q(2,3) by (subst q(4), subst q(4)) (simp add: is_daemon_def close_below_def setsid_def forked_def)
  ultimately show ?thesis by blast
qed

text \<open>The other function also gives up the lead of the session, so no terminal can be acquired later.\<close>

lemma daemonize4_daemon:
  assumes "all_succeed e p"
  shows "\<exists>q. daemonize4 e p = Inr q \<and> is_daemon q \<and> \<not> session_leader q"
proof -
  obtain rl where rl: "rlimit e = Some rl" "length (descriptors p) \<le> max_descriptors rl"
    using assms by (auto simp: all_succeed_def split: option.splits)
  let ?p = "(forked ((setsid (forked (p\<lparr>mask := 0\<rparr>)))\<lparr>sighup_ignored := True\<rparr>))\<lparr>directory := ''/''\<rparr>"
  have fd: "descriptors ?p = descriptors p" by (simp add: setsid_def forked_def)
  have "\<forall>d \<in> set (descriptors (close_below (max_descriptors rl) ?p)). d = None"
    using rl fd by (intro close_below_all) simp
  then obtain q where q: "standard_null True (close_below (max_descriptors rl) ?p) = Inr q"
    "take 3 (descriptors q) = [Some ''/dev/null'', Some ''/dev/null'', Some ''/dev/null'']"
    "\<forall>d \<in> set (drop 3 (descriptors q)). d = None"
    "q = (close_below (max_descriptors rl) ?p)\<lparr>descriptors := descriptors q\<rparr>"
    using standard_null_closed [of _ True] by blast
  have "daemonize4 e p = Inr q"
    using assms rl q(1) by (simp add: daemonize4_def all_succeed_def Let_def)
  moreover have "is_daemon q \<and> \<not> session_leader q"
    using q(2,3) by (subst q(4), subst q(4)) (simp add: is_daemon_def close_below_def setsid_def forked_def)
  ultimately show ?thesis by blast
qed

text \<open>After a failed \<open>fork\<close> the leader of a process group goes on and keeps its terminal.\<close>

lemma standard_null_keeps: "standard_null ok p = Inr q \<Longrightarrow> has_terminal q = has_terminal p"
  by (auto simp: standard_null_def open_null_def dup0_def new_descriptor_def Let_def
      split: if_splits list.splits option.splits)

lemma map_sum_Inr: "map_sum id f x = Inr y \<longleftrightarrow> (\<exists>z. x = Inr z \<and> y = f z)"
  by (cases x) auto

lemma open_log_keeps: "has_terminal (open_log e p) = has_terminal p"
  by (simp add: open_log_def new_descriptor_def Let_def)

lemma failed_fork_keeps_terminal:
  assumes "fork_gives e 0 < 0" "group_leader p" "daemonize1 e p = Inr q"
  shows "has_terminal q = has_terminal p"
proof -
  let ?p2 = "setsid (p\<lparr>mask := 0\<rparr>)"
  let ?p4 = "(if sigaction_ok e then ?p2\<lparr>sighup_ignored := True\<rparr> else ?p2)"
  from assms(1,3) obtain rl q' where "q = open_log e q'"
    "standard_null (devnull_ok e) (close_below (max_descriptors rl)
       (if chdir_ok e then ?p4\<lparr>directory := ''/''\<rparr> else ?p4)) = Inr q'"
    by (auto simp: daemonize1_def Let_def map_sum_Inr split: option.splits)
  from standard_null_keeps [OF this(2)] this(1) have "has_terminal q = has_terminal ?p2"
    by (simp add: close_below_def open_log_keeps split: if_splits)
  then show ?thesis using assms(2) by (simp add: setsid_def)
qed

section \<open>More than one daemon\<close>

lemma flock_invalid: "flock (LOCK_EX + LOCK_UN) l = Invalid"
  by (simp add: flock_def LOCK_EX_def LOCK_UN_def LOCK_SH_def)

lemma already_running_passes:
  "lockfile_ok e \<Longrightarrow> already_running e p s =
     (Inr (0, snd (new_descriptor LOCKFILE p)), s\<lparr>lock_text := decimal (own_pid e) @ [nul]\<rparr>)"
  by (simp add: already_running_def flock_invalid)

lemma daemon_main_joins:
  assumes "all_succeed e p"
  obtains q where "daemon_with (log_socket e @ [LOCKFILE]) q" "daemon_main e p s =
    (None, s\<lparr>lock_text := decimal (own_pid e) @ [nul], running := running s @ [(own_pid e, q)]\<rparr>)"
proof -
  from daemonize1_daemon [OF assms] obtain q where q: "daemonize1 e p = Inr (open_log e q)" "is_daemon q" by blast
  have "lockfile_ok e" using assms by (simp add: all_succeed_def)
  with q(1) have "daemon_main e p s = (None, s\<lparr>lock_text := decimal (own_pid e) @ [nul],
      running := running s @ [(own_pid e, snd (new_descriptor LOCKFILE (open_log e q)))]\<rparr>)"
    by (simp add: daemon_main_def already_running_passes)
  with daemon_opens [OF daemon_log [OF q(2)]] that show thesis by blast
qed

text \<open>C36: \<open>daemon.c\<close> does not keep to one daemon: the operation given to \<open>flock\<close> is invalid, so it never
  locks anything and \<open>already_running\<close> lets every start pass. If the system calls succeed, each start
  adds a running daemon, whoever holds the lock, and the lock file has the number of the last one. Besides
  the three standard descriptors each daemon has just the socket of the log, if there is one, and the
  lock file open, which is never closed.\<close>

theorem daemons_not_exclusive:
  assumes "\<forall>(e, p) \<in> set starts. all_succeed e p"
  shows "map fst (running (start_daemons starts s)) = map fst (running s) @ map (own_pid \<circ> fst) starts \<and>
    list_all2 (\<lambda>(e, p) (pid, q). daemon_with (log_socket e @ [LOCKFILE]) q) starts
      (drop (length (running s)) (running (start_daemons starts s))) \<and>
    lock_holder (start_daemons starts s) = lock_holder s \<and>
    lock_text (start_daemons starts s) =
      (if starts = [] then lock_text s else decimal (own_pid (fst (last starts))) @ [nul])"
proof -
  let ?P = "\<lambda>starts s. \<exists>ds. running (start_daemons starts s) = running s @ ds \<and>
      map fst ds = map (own_pid \<circ> fst) starts \<and>
      list_all2 (\<lambda>(e, p) (pid, q). daemon_with (log_socket e @ [LOCKFILE]) q) starts ds \<and>
      lock_holder (start_daemons starts s) = lock_holder s \<and>
      lock_text (start_daemons starts s) =
        (if starts = [] then lock_text s else decimal (own_pid (fst (last starts))) @ [nul])"
  have "?P starts s"
    using assms
  proof (induction starts arbitrary: s)
    case (Cons x rest)
    obtain e p where x: "x = (e, p)" by (cases x)
    with Cons.prems have "all_succeed e p" by simp
    then obtain q where q: "daemon_with (log_socket e @ [LOCKFILE]) q" "daemon_main e p s =
        (None, s\<lparr>lock_text := decimal (own_pid e) @ [nul], running := running s @ [(own_pid e, q)]\<rparr>)"
      by (rule daemon_main_joins)
    let ?s = "s\<lparr>lock_text := decimal (own_pid e) @ [nul], running := running s @ [(own_pid e, q)]\<rparr>"
    from Cons.IH [of ?s] Cons.prems obtain ds where
      ds: "running (start_daemons rest ?s) = running ?s @ ds" "map fst ds = map (own_pid \<circ> fst) rest"
        "list_all2 (\<lambda>(e, p) (pid, q). daemon_with (log_socket e @ [LOCKFILE]) q) rest ds"
        "lock_holder (start_daemons rest ?s) = lock_holder ?s"
        "lock_text (start_daemons rest ?s) =
          (if rest = [] then lock_text ?s else decimal (own_pid (fst (last rest))) @ [nul])"
      by auto
    have "start_daemons (x # rest) s = start_daemons rest ?s" by (simp add: x q(2))
    with ds q(1) show ?case by (intro exI [of _ "(own_pid e, q) # ds"]) (simp add: x)
  qed simp
  then show ?thesis by auto
qed

definition shell_child :: dproc where
  "shell_child = \<lparr>mask = 18, group_leader = True, session_leader = False, has_terminal = True,
     sighup_ignored = False, directory = ''/home'', descriptors = [Some ''tty'', Some ''tty'', Some ''tty'']\<rparr>"

definition good_env :: "nat \<Rightarrow> denv" where
  "good_env pid = \<lparr>rlimit = Some (Some 4096), fork_gives = (\<lambda>k. 0), sigaction_ok = True, chdir_ok = True,
     devnull_ok = True, lockfile_ok = True, syslog_ok = True, own_pid = pid\<rparr>"

theorem daemons_not_exclusive_witness:
  "map fst (running (start_daemons [(good_env 7, shell_child), (good_env 9, shell_child)]
     \<lparr>running = [], lock_holder = Some 3, lock_text = []\<rparr>)) = [7, 9]"
  using daemons_not_exclusive [of "[(good_env 7, shell_child), (good_env 9, shell_child)]"
      "\<lparr>running = [], lock_holder = Some 3, lock_text = []\<rparr>"]
  by (simp add: all_succeed_def good_env_def shell_child_def max_descriptors_def)

end
