(* ===== verification/Proc_Files.thy ===== *)
theory Proc_Files
  imports C_Strings
begin

text \<open>
  Two programs that print files of \<open>/proc\<close>: the daemon \<open>6-semestr/lab4/part1/1.c\<close>, which writes them
  to a log, and \<open>6-semestr/lab4/part11/main.c\<close>, which prints three of them. What the files, links and
  directories hold is a parameter.
\<close>

section \<open>\<open>part1/1.c\<close>\<close>

definition BUF_SIZE :: nat where "BUF_SIZE = 256"
definition PATH_MAX :: nat where "PATH_MAX = 4096"

record proc_fs =
  file_of :: "string \<Rightarrow> char list option"
  link_of :: "string \<Rightarrow> char list option"
  dir_of :: "string \<Rightarrow> string list option"

text \<open>
  The memory around an array on the stack is a parameter, since what lies there is the choice of the compiler and
  of the calls before: \<open>fr_cells\<close> are the bytes from the start of the array on that the function may overwrite
  without harm, those of the array and as many behind it as nobody uses before the function returns, \<open>fr_below\<close> are
  such bytes in front of the array, and \<open>fr_rest\<close> are the bytes behind \<open>fr_cells\<close> that can be read. A write elsewhere
  destroys something that is in use: what the program then does is undefined, and the model ends with a fault.
\<close>

record frame =
  fr_below :: "char list"
  fr_cells :: "char list"
  fr_rest :: "char list"

definition store_in :: "frame \<Rightarrow> int \<Rightarrow> char \<Rightarrow> c_fault + frame" where
  "store_in fr i c =
     map_sum (\<lambda>e. e)
       (\<lambda>m. fr\<lparr>fr_below := take (length (fr_below fr)) m, fr_cells := drop (length (fr_below fr)) m\<rparr>)
       (store (fr_below fr @ fr_cells fr) (int (length (fr_below fr)) + i) c)"

text \<open>The bytes \<open>fread\<close> or \<open>readlink\<close> puts into the array, and the string that starts there.\<close>

definition fill_in :: "char list \<Rightarrow> frame \<Rightarrow> frame" where
  "fill_in bs fr = fr\<lparr>fr_cells := bs @ drop (length bs) (fr_cells fr)\<rparr>"

definition text_at :: "frame \<Rightarrow> c_fault + char list" where
  "text_at fr = (if nul \<in> set (fr_cells fr @ fr_rest fr) then Inr (c_str (fr_cells fr @ fr_rest fr)) else Inl Out_Of_Bounds)"

text \<open>The frames of \<open>print_proc_file\<close> (and \<open>print_proc_mem\<close>), \<open>print_fields\<close> and \<open>print_symlink\<close>, when they print a file.\<close>

record stack_frames =
  plain_frame :: "string \<Rightarrow> frame"
  fields_frame :: "string \<Rightarrow> frame"
  link_frame :: "string \<Rightarrow> frame"

text \<open>The handlers a file may have.\<close>

datatype print_file_fun = Stat_Fields | Statm_Fields
datatype print_name_fun = Symlink | Fd_Dir

record print_info =
  info_name :: string
  ignore_newline :: bool
  print_file :: "print_file_fun option"
  print_name :: "print_name_fun option"

text \<open>How the program stops early: a fault, or \<open>exit\<close> with a code and what is in the log then.\<close>

datatype stop = Fault c_fault | Exited nat "char list"

definition nl :: char where "nl = CHR 0x0A"
definition tab :: char where "tab = CHR 0x09"

definition field_row :: "string \<Rightarrow> char list \<Rightarrow> char list" where
  "field_row p v = p @ replicate (22 - length p) CHR '' '' @ CHR '' '' # v @ [nl]"

fun field_rows :: "string list \<Rightarrow> char list \<Rightarrow> char list" where
  "field_rows [] s = []"
| "field_rows (p # ps) s =
     (case strtok s of None \<Rightarrow> [] | Some (v, r) \<Rightarrow> field_row p v @ field_rows ps r)"

text \<open>\<open>strtok\<close> overwrites the blank behind a word: whether all it overwrites lies in the first \<open>lim\<close> bytes.\<close>

definition strtok_fits :: "nat \<Rightarrow> char list \<Rightarrow> bool" where
  "strtok_fits lim s =
     (let t = dropWhile (\<lambda>c. c = CHR '' '') s;
          d = length s - length t + length (takeWhile (\<lambda>c. c \<noteq> CHR '' '') t) in
      d < length s \<longrightarrow> d < lim)"

fun tokens_fit :: "nat \<Rightarrow> string list \<Rightarrow> char list \<Rightarrow> bool" where
  "tokens_fit lim [] s = strtok_fits lim s"
| "tokens_fit lim (p # ps) s =
     (strtok_fits lim s \<and>
      (case strtok s of None \<Rightarrow> True | Some (v, r) \<Rightarrow> tokens_fit (lim - (length s - length r)) ps r))"

text \<open>\<open>len\<close> is unsigned: for an empty file \<open>buf[len - 1]\<close> is the byte in front of the buffer.\<close>

definition print_fields :: "frame \<Rightarrow> string list \<Rightarrow> char list \<Rightarrow> char list \<Rightarrow> stop + char list" where
  "print_fields fr pfields content out =
     (let bs = take BUF_SIZE content in
      case store_in (fill_in bs fr) (int (length bs) - 1) nul of
        Inl e \<Rightarrow> Inl (Fault e)
      | Inr buf \<Rightarrow>
         (case text_at buf of
            Inl e \<Rightarrow> Inl (Fault e)
          | Inr s \<Rightarrow>
             if tokens_fit (length (fr_cells buf)) pfields s then Inr (out @ field_rows pfields s)
             else Inl (Fault Out_Of_Bounds)))"

definition stat_fields :: "string list" where
  "stat_fields = [
     ''pid'', ''comm'', ''state'', ''ppid'', ''pgrp'', ''session'', ''tty_nr'', ''tpgid'',
     ''flags'', ''minflt'', ''cminflt'', ''majflt'', ''cmajflt'', ''utime'', ''stime'',
     ''cutime'', ''cstime'', ''priority'', ''nice'', ''num_threads'', ''itrealvalue'',
     ''starttime'', ''vsize'', ''rss'', ''rsslim'', ''startcode'', ''endcode'',
     ''startstack'', ''kstkesp'', ''kstkeip'', ''signal'', ''blocked'', ''sigignore'',
     ''sigcatch'', ''wchan'', ''nswap'', ''cnswap'', ''exit_signal'', ''processor'',
     ''rt_priority'', ''policy'', ''delayacct_blkio_ticks'', ''guest_time'',
     ''cguest_time'', ''start_data'', ''end_data'', ''start_brk'', ''arg_start'',
     ''arg_end'', ''env_start'', ''env_end'', ''exit_code'']"

definition statm_fields :: "string list" where
  "statm_fields = [''size'', ''resident'', ''shared'', ''text'', ''lib'', ''data'', ''dt'']"

definition print_proc_stat :: "frame \<Rightarrow> char list \<Rightarrow> char list \<Rightarrow> stop + char list" where
  "print_proc_stat fr content out = print_fields fr stat_fields content out"

definition print_proc_statm :: "frame \<Rightarrow> char list \<Rightarrow> char list \<Rightarrow> stop + char list" where
  "print_proc_statm fr content out = print_fields fr statm_fields content out"

text \<open>When \<open>readlink\<close> fails, the array holds what was on the stack, and \<open>str[n]\<close> is the byte in front of it.\<close>

definition print_symlink :: "stack_frames \<Rightarrow> proc_fs \<Rightarrow> string \<Rightarrow> char list \<Rightarrow> stop + char list" where
  "print_symlink st fs path out =
     (let fr = link_frame st path;
          (n, str) = (case link_of fs path of
            None \<Rightarrow> (- 1, fr)
          | Some t \<Rightarrow> (int (length (take PATH_MAX t)), fill_in (take PATH_MAX t) fr)) in
      case store_in str n nul of
        Inl e \<Rightarrow> Inl (Fault e)
      | Inr str' \<Rightarrow>
         (case text_at str' of
            Inl e \<Rightarrow> Inl (Fault e)
          | Inr s \<Rightarrow> Inr (out @ path @ tab # ''->'' @ tab # s @ [nl])))"

fun print_links :: "stack_frames \<Rightarrow> proc_fs \<Rightarrow> string \<Rightarrow> string list \<Rightarrow> char list \<Rightarrow> stop + char list" where
  "print_links st fs name [] out = Inr out"
| "print_links st fs name (d # ds) out =
     (if d = ''.'' \<or> d = ''..'' then print_links st fs name ds out
      else case print_symlink st fs (take (PATH_MAX - 1) (name @ CHR ''/'' # d)) out of
          Inl e \<Rightarrow> Inl e
        | Inr out' \<Rightarrow> print_links st fs name ds out')"

definition print_proc_fd :: "stack_frames \<Rightarrow> proc_fs \<Rightarrow> string \<Rightarrow> char list \<Rightarrow> stop + char list" where
  "print_proc_fd st fs name out =
     (case dir_of fs name of
        None \<Rightarrow> Inl (Exited 1 out)
      | Some ds \<Rightarrow> print_links st fs name ds out)"

text \<open>The loop of \<open>print_proc_file\<close> for a file without a handler.\<close>

function print_plain :: "frame \<Rightarrow> bool \<Rightarrow> char list \<Rightarrow> char list \<Rightarrow> stop + char list" where
  "print_plain fr ignore content out =
     (let bs = take BUF_SIZE content in
      if bs = [] then Inr out
      else case store_in (fill_in (map (\<lambda>c. if \<not> ignore \<and> c = nul then nl else c) bs) fr) (int (length bs)) nul of
          Inl e \<Rightarrow> Inl (Fault e)
        | Inr buf \<Rightarrow>
           (case text_at buf of
              Inl e \<Rightarrow> Inl (Fault e)
            | Inr s \<Rightarrow> print_plain buf ignore (drop BUF_SIZE content) (out @ s)))"
  by pat_completeness auto

termination
  by (relation "measure (\<lambda>(fr, ignore, content, out). length content)")
    (auto simp: BUF_SIZE_def split: if_splits)

declare print_plain.simps [simp del]

text \<open>\<open>print_proc_mem\<close>, which is never called, is the same loop with the zero bytes always replaced.\<close>

function print_proc_mem :: "frame \<Rightarrow> char list \<Rightarrow> char list \<Rightarrow> stop + char list" where
  "print_proc_mem fr content out =
     (let bs = take BUF_SIZE content in
      if bs = [] then Inr out
      else case store_in (fill_in (map (\<lambda>c. if c = nul then nl else c) bs) fr) (int (length bs)) nul of
          Inl e \<Rightarrow> Inl (Fault e)
        | Inr buf \<Rightarrow>
           (case text_at buf of
              Inl e \<Rightarrow> Inl (Fault e)
            | Inr s \<Rightarrow> print_proc_mem buf (drop BUF_SIZE content) (out @ s)))"
  by pat_completeness auto

termination
  by (relation "measure (\<lambda>(fr, content, out). length content)") (auto simp: BUF_SIZE_def split: if_splits)

declare print_proc_mem.simps [simp del]

lemma print_proc_mem_plain: "print_proc_mem fr content out = print_plain fr False content out"
proof (induction fr content out rule: print_proc_mem.induct)
  case (1 fr content out)
  then show ?case
    by (simp add: print_proc_mem.simps [of fr] print_plain.simps [of fr] Let_def split: sum.split)
qed

definition get_proc_filename :: "nat \<Rightarrow> string \<Rightarrow> string" where
  "get_proc_filename pid shortname = ''/proc/'' @ decimal pid @ CHR ''/'' # shortname"

definition print_proc_file ::
  "stack_frames \<Rightarrow> proc_fs \<Rightarrow> nat \<Rightarrow> print_info \<Rightarrow> char list \<Rightarrow> stop + char list" where
  "print_proc_file st fs pid info out =
     (let out' = out @ nl # ''===== '' @ info_name info @ '' ====='' @ [nl];
          name = get_proc_filename pid (info_name info) in
      case print_name info of
        Some Symlink \<Rightarrow> print_symlink st fs name out'
      | Some Fd_Dir \<Rightarrow> print_proc_fd st fs name out'
      | None \<Rightarrow>
         (case file_of fs name of
            None \<Rightarrow> Inr out'
          | Some content \<Rightarrow>
             (case print_file info of
                Some Stat_Fields \<Rightarrow> print_proc_stat (fields_frame st name) content out'
              | Some Statm_Fields \<Rightarrow> print_proc_statm (fields_frame st name) content out'
              | None \<Rightarrow> print_plain (plain_frame st name) (ignore_newline info) content out')))"

definition plain_info :: "string \<Rightarrow> print_info" where
  "plain_info n = \<lparr>info_name = n, ignore_newline = False, print_file = None, print_name = None\<rparr>"

definition proc_files :: "print_info list" where
  "proc_files = [
     plain_info ''cmdline'',
     (plain_info ''cwd'')\<lparr>print_name := Some Symlink\<rparr>,
     plain_info ''environ'',
     (plain_info ''exe'')\<lparr>print_name := Some Symlink\<rparr>,
     (plain_info ''fd'')\<lparr>print_name := Some Fd_Dir\<rparr>,
     plain_info ''maps'',
     plain_info ''mem'',
     (plain_info ''root'')\<lparr>print_name := Some Symlink\<rparr>,
     (plain_info ''stat'')\<lparr>print_file := Some Stat_Fields\<rparr>,
     (plain_info ''statm'')\<lparr>print_file := Some Statm_Fields\<rparr>]"

fun print_files :: "stack_frames \<Rightarrow> proc_fs \<Rightarrow> nat \<Rightarrow> print_info list \<Rightarrow> char list \<Rightarrow> stop + char list" where
  "print_files st fs pid [] out = Inr out"
| "print_files st fs pid (i # is) out =
     (case print_proc_file st fs pid i out of
        Inl e \<Rightarrow> Inl e
      | Inr out' \<Rightarrow> print_files st fs pid is out')"

text \<open>\<open>main\<close> after \<open>daemonize\<close>; a log that cannot be opened is only noticed by the first \<open>fprintf\<close>.\<close>

definition proc_main ::
  "stack_frames \<Rightarrow> proc_fs \<Rightarrow> bool \<Rightarrow> nat \<Rightarrow> string list \<Rightarrow> stop + char list" where
  "proc_main st fs opened own argv =
     (case (if length argv \<noteq> 2 then Inr own
            else map_sum Fault (\<lambda>v. if v \<le> 0 then own else nat v) (atoi (argv ! 1 @ [nul]))) of
        Inl e \<Rightarrow> Inl e
      | Inr pid \<Rightarrow>
         if \<not> opened then Inl (Fault Null_Deref)
         else print_files st fs pid proc_files (''PID = '' @ decimal pid @ [nl]))"

section \<open>\<open>part11/main.c\<close>\<close>

definition OUT_SIZE :: nat where "OUT_SIZE = 512"

definition outputNames :: "string list" where
  "outputNames = [
     ''pid'', ''filename'', ''state'', ''ppid'', ''gid'', ''session'', ''tty_nr'', ''tp_gid'',
     ''flags'', ''minflt'', ''cminflt'', ''majflt'', ''cmajflt'', ''utime'', ''stime'',
     ''cutime'', ''cstime'', ''priority'', ''nice'', ''num_threads'', ''itrealvalue'',
     ''start_tiime'', ''vsize'', ''rss'', ''rsslim'', ''startcode'', ''endcode'',
     ''startstack'', ''kstkesp'', ''kstkeip'', ''signal'', ''blocked'', ''sigignore'',
     ''sigcatch'', ''wchan'', ''nswap'', ''cnswap'', ''exit_signal'', ''processor'',
     ''rt_priority'', ''policy'', ''delayacct_blkio_tics'', ''quest_time'',
     ''cquest_time'', ''start_data'', ''end_data'', ''start_brk'', ''arg_start'',
     ''arg_end'', ''env_start'', ''env_end'', ''exit_code'']"

text \<open>The loop of \<open>statOutput\<close> goes on with the name after the last one used: \<open>i\<close> is static.\<close>

function stat_loop :: "char list \<Rightarrow> nat \<Rightarrow> char list \<Rightarrow> nat \<times> char list" where
  "stat_loop s i out =
     (case strtok s of
        None \<Rightarrow> (i, out)
      | Some (pch, r) \<Rightarrow>
         if i < 51 then
           stat_loop r (Suc i)
             (out @ nl # replicate (15 - length (outputNames ! i)) CHR '' '' @ outputNames ! i @ '':'' @ tab # CHR '' '' # pch)
         else (i, out))"
  by pat_completeness auto

termination
  by (relation "measure (\<lambda>(s, i, out). 51 - i)") auto

declare stat_loop.simps [simp del]

definition statOutput :: "char list \<Rightarrow> nat \<times> char list \<Rightarrow> nat \<times> char list" where
  "statOutput buf s = stat_loop buf (fst s) (snd s)"

definition simpleOutput :: "char list \<Rightarrow> nat \<times> char list \<Rightarrow> nat \<times> char list" where
  "simpleOutput buf s = (fst s, snd s @ buf @ [nl])"

function read_chunks ::
  "(char list \<Rightarrow> nat \<times> char list \<Rightarrow> nat \<times> char list) \<Rightarrow> char list \<Rightarrow> nat \<times> char list \<Rightarrow> nat \<times> char list" where
  "read_chunks print_func content s =
     (let bs = take OUT_SIZE content in
      if bs = [] then s
      else read_chunks print_func (drop OUT_SIZE content)
        (print_func (c_str ((map (\<lambda>c. if c = nul then nl else c) bs)[length bs - 1 := nul])) s))"
  by pat_completeness auto

termination
  by (relation "measure (\<lambda>(print_func, content, s). length content)") (auto simp: OUT_SIZE_def split: if_splits)

declare read_chunks.simps [simp del]

definition read_one_file ::
  "(string \<Rightarrow> char list option) \<Rightarrow> string \<Rightarrow> (char list \<Rightarrow> nat \<times> char list \<Rightarrow> nat \<times> char list) \<Rightarrow>
   nat \<times> char list \<Rightarrow> c_fault + (nat \<times> char list)" where
  "read_one_file fs filename print_func s =
     (case fs filename of
        None \<Rightarrow> Inl Null_Deref
      | Some content \<Rightarrow> Inr (read_chunks print_func content s))"

definition headline :: "string \<Rightarrow> nat \<times> char list \<Rightarrow> nat \<times> char list" where
  "headline t s = (fst s, snd s @ nl # replicate 30 CHR ''_'' @ nl # t @ [nl, nl])"

text \<open>What is printed up to the \<open>execlp\<close> of \<open>ls\<close>, which shows \<open>/proc/self/fd\<close>.\<close>

definition proc_self_main :: "(string \<Rightarrow> char list option) \<Rightarrow> c_fault + char list" where
  "proc_self_main fs =
     (case read_one_file fs ''/proc/self/stat'' statOutput (headline ''STAT '' (0, [])) of
        Inl e \<Rightarrow> Inl e
      | Inr s1 \<Rightarrow>
         (case read_one_file fs ''/proc/self/environ'' simpleOutput (headline ''ENVIRON'' s1) of
            Inl e \<Rightarrow> Inl e
          | Inr s2 \<Rightarrow>
             (case read_one_file fs ''/proc/self/cmdline'' simpleOutput (headline ''CMDLINE'' s2) of
                Inl e \<Rightarrow> Inl e
              | Inr s3 \<Rightarrow> Inr (snd (headline ''FD'' s3)))))"

section \<open>What the functions print\<close>

lemma c_str_map_nl: "nul \<notin> set (map (\<lambda>c. if c = nul then nl else c) bs)"
  by (auto simp: nul_def nl_def)

lemma c_str_no_nul: "nul \<notin> set s \<Longrightarrow> c_str s = s"
  by (auto simp: c_str_def takeWhile_eq_all_conv)

lemma c_str_idem: "c_str (c_str s @ nul # r) = c_str s"
  by (rule c_str_append) (auto simp: c_str_def dest: set_takeWhileD)

text \<open>Writes into the frame: behind the array, in it, and in front of it.\<close>

lemma store_in_cells:
  assumes "n < length (fr_cells fr)" shows "store_in fr (int n) c = Inr (fr\<lparr>fr_cells := (fr_cells fr)[n := c]\<rparr>)"
proof -
  have "nat (int (length (fr_below fr)) + int n) = length (fr_below fr) + n" by simp
  with assms show ?thesis by (simp add: store_in_def store_def list_update_append)
qed

lemma store_in_behind: "length (fr_cells fr) \<le> n \<Longrightarrow> store_in fr (int n) c = Inl Out_Of_Bounds"
  by (simp add: store_in_def store_def)

lemma store_in_below:
  "store_in fr (- 1) c =
     (if fr_below fr = [] then Inl Out_Of_Bounds
      else Inr (fr\<lparr>fr_below := (fr_below fr)[length (fr_below fr) - 1 := c]\<rparr>))"
proof (cases "fr_below fr" rule: rev_cases)
  case (snoc b x)
  then show ?thesis by (simp add: store_in_def store_def list_update_append)
qed (simp add: store_in_def store_def)

lemma fill_in_simps [simp]:
  "fr_below (fill_in bs fr) = fr_below fr" "fr_rest (fill_in bs fr) = fr_rest fr"
  "fr_cells (fill_in bs fr) = bs @ drop (length bs) (fr_cells fr)"
  by (simp_all add: fill_in_def)

lemma fill_store:
  assumes "length bs < length (fr_cells fr)"
  shows "\<exists>r. store_in (fill_in bs fr) (int (length bs)) nul = Inr (fr\<lparr>fr_cells := bs @ nul # r\<rparr>) \<and>
    length (bs @ nul # r) = length (fr_cells fr)"
proof -
  have "(bs @ drop (length bs) (fr_cells fr))[length bs := nul] = bs @ nul # drop (Suc (length bs)) (fr_cells fr)"
    using assms by (simp add: list_update_append flip: Cons_nth_drop_Suc)
  with assms show ?thesis
    by (intro exI [of _ "drop (Suc (length bs)) (fr_cells fr)"]) (simp add: store_in_cells fill_in_def)
qed

lemma c_str_cut: "c_str (t @ nul # r) = c_str t"
  by (induction t) (auto simp: c_str_def)

lemma text_at_cut [simp]: "text_at (fr\<lparr>fr_cells := t @ nul # r\<rparr>) = Inr (c_str t)"
  by (simp add: text_at_def c_str_cut)

lemma print_plain_eq:
  assumes "BUF_SIZE \<le> length (fr_cells fr)"
  shows "print_plain fr False content out =
      (if BUF_SIZE \<le> length content \<and> length (fr_cells fr) = BUF_SIZE then Inl (Fault Out_Of_Bounds)
       else Inr (out @ map (\<lambda>c. if c = nul then nl else c) content))"
  using assms
proof (induction fr False content out rule: print_plain.induct)
  case (1 fr content out)
  let ?f = "\<lambda>c. if c = nul then nl else c" and ?bs = "take BUF_SIZE content"
  show ?case
  proof (cases "content = []")
    case True
    then show ?thesis by (simp add: print_plain.simps [of fr] BUF_SIZE_def)
  next
    case ne: False
    then have bs: "?bs \<noteq> []" by (simp add: BUF_SIZE_def)
    show ?thesis
    proof (cases "length ?bs < length (fr_cells fr)")
      case True
      with fill_store [of "map ?f ?bs" fr] obtain r where r: "length (map ?f ?bs @ nul # r) = length (fr_cells fr)"
        "store_in (fill_in (map ?f ?bs) fr) (int (length ?bs)) nul = Inr (fr\<lparr>fr_cells := map ?f ?bs @ nul # r\<rparr>)" by auto
      let ?fr = "fr\<lparr>fr_cells := map ?f ?bs @ nul # r\<rparr>"
      have shows_bs: "text_at ?fr = Inr (map ?f ?bs)" by (simp add: c_str_no_nul [OF c_str_map_nl])
      have step: "print_plain fr False content out = print_plain ?fr False (drop BUF_SIZE content) (out @ map ?f ?bs)"
        using bs r(2) shows_bs by (simp add: print_plain.simps [of fr] Let_def)
      have len: "length (fr_cells ?fr) = length (fr_cells fr)" using r(1) by simp
      have IH: "print_plain ?fr False (drop BUF_SIZE content) (out @ map ?f ?bs) =
          (if BUF_SIZE \<le> length (drop BUF_SIZE content) \<and> length (fr_cells ?fr) = BUF_SIZE then Inl (Fault Out_Of_Bounds)
           else Inr ((out @ map ?f ?bs) @ map ?f (drop BUF_SIZE content)))"
      proof (rule 1(1) [OF refl bs _ shows_bs])
        show "store_in (fill_in (map (\<lambda>c. if \<not> False \<and> c = nul then nl else c) ?bs) fr) (int (length ?bs)) nul = Inr ?fr"
          using r(2) by simp
        show "BUF_SIZE \<le> length (fr_cells ?fr)" using 1(2) len by simp
      qed
      have "map ?f ?bs @ map ?f (drop BUF_SIZE content) = map ?f content"
        by (simp flip: map_append)
      with step IH len True show ?thesis by (auto simp: min_def split: if_splits)
    next
      case False
      then have "length ?bs = BUF_SIZE" "length (fr_cells fr) = BUF_SIZE" using 1(2) by auto
      moreover from this have "store_in (fill_in (map ?f ?bs) fr) (int (length ?bs)) nul = Inl Out_Of_Bounds"
        by (intro store_in_behind) simp
      ultimately show ?thesis using bs by (simp add: print_plain.simps [of fr] Let_def)
    qed
  qed
qed

text \<open>\<open>print_proc_file\<close> of \<open>part1/1.c\<close> writes a file without a handler to the log, every zero byte as
  a newline, if it has fewer than 256 bytes or the byte behind the buffer may be overwritten; otherwise
  the zero byte behind the first full buffer destroys what lies there.\<close>

theorem plain_file_log:
  assumes "BUF_SIZE \<le> length (fr_cells (plain_frame st (get_proc_filename pid (info_name info))))"
    and "print_name info = None" "print_file info = None" "\<not> ignore_newline info"
    and "file_of fs (get_proc_filename pid (info_name info)) = Some content"
  shows "print_proc_file st fs pid info out =
    (if BUF_SIZE \<le> length content \<and> length (fr_cells (plain_frame st (get_proc_filename pid (info_name info)))) = BUF_SIZE
     then Inl (Fault Out_Of_Bounds)
     else Inr (out @ nl # ''===== '' @ info_name info @ '' ====='' @ nl #
       map (\<lambda>c. if c = nul then nl else c) content))"
  using assms by (simp add: print_proc_file_def Let_def print_plain_eq)

definition sample_fs :: proc_fs where
  "sample_fs = \<lparr>file_of = (\<lambda>p. if p = ''/proc/7/cmdline'' then Some [CHR ''l'', CHR ''s'', nul] else None),
     link_of = (\<lambda>p. None), dir_of = (\<lambda>p. None)\<rparr>"

text \<open>A stack with \<open>k\<close> bytes to spare behind the arrays of \<open>b\<close> and \<open>PATH_MAX\<close> bytes.\<close>

definition sample_stack :: "nat \<Rightarrow> stack_frames" where
  "sample_stack k =
     (let f = (\<lambda>n (p :: string). \<lparr>fr_below = [], fr_cells = replicate (n + k) nul, fr_rest = []\<rparr>) in
      \<lparr>plain_frame = f BUF_SIZE, fields_frame = f BUF_SIZE, link_frame = f PATH_MAX\<rparr>)"

lemma get_proc_filename_7: "get_proc_filename 7 ''cmdline'' = ''/proc/7/cmdline''"
  by (simp add: get_proc_filename_def decimal.simps [of 7] char_of_def bit_0)

theorem plain_file_log_witness:
  "print_proc_file (sample_stack 0) sample_fs 7 (plain_info ''cmdline'') [] =
     Inr (nl # ''===== cmdline ====='' @ [nl, CHR ''l'', CHR ''s'', nl])"
  using plain_file_log [of "sample_stack 0" 7 "plain_info ''cmdline''" sample_fs "[CHR ''l'', CHR ''s'', nul]" "[]"]
  by (simp add: plain_info_def get_proc_filename_7 sample_fs_def sample_stack_def BUF_SIZE_def nul_def)

text \<open>The lines of a file of words.\<close>

lemma field_rows_zip:
  "\<forall>w \<in> set ws. token w \<Longrightarrow> field_rows ps (unwords ws) = concat (map (\<lambda>(p, v). field_row p v) (zip ps ws))"
proof (induction ps arbitrary: ws)
  case (Cons p ps)
  show ?case
  proof (cases ws)
    case (Cons w vs)
    with Cons.prems have "strtok (unwords ws) = Some (w, unwords vs)" by (simp add: strtok_unwords)
    with Cons Cons.IH [of vs] Cons.prems show ?thesis by simp
  qed simp
qed simp

lemma unwords_no_nul: "\<forall>w \<in> set ws. nul \<notin> set w \<Longrightarrow> nul \<notin> set (unwords ws)"
  by (induction ws rule: unwords.induct) (auto simp: nul_def)

text \<open>What lies in the first \<open>lim\<close> bytes can be taken apart without writing behind them.\<close>

lemma strtok_shorter: "strtok s = Some (v, r) \<Longrightarrow> length r \<le> length s"
  by (auto simp: strtok_def Let_def split: if_splits)
    (metis diff_le_self dual_order.trans length_dropWhile_le)

lemma tokens_fit_short: "length s \<le> lim \<Longrightarrow> tokens_fit lim ps s"
proof (induction ps arbitrary: lim s)
  case (Cons p ps)
  have "tokens_fit (lim - (length s - length r)) ps r" if "strtok s = Some (v, r)" for v r
    using strtok_shorter [OF that] Cons.prems by (intro Cons.IH) simp
  with Cons.prems show ?case by (auto simp: strtok_fits_def Let_def split: option.split)
qed (simp add: strtok_fits_def Let_def)

text \<open>The first line of a file of fields, without its last byte.\<close>

definition fields_text :: "char list \<Rightarrow> char list" where
  "fields_text content = c_str (butlast (take BUF_SIZE content))"

lemma length_c_str: "length (c_str t) \<le> length t"
  by (simp add: c_str_def length_takeWhile_le)

lemma print_fields_text:
  assumes "BUF_SIZE \<le> length (fr_cells fr)" "content \<noteq> []"
  shows "print_fields fr names content out = Inr (out @ field_rows names (fields_text content))"
proof -
  let ?bs = "take BUF_SIZE content"
  have ne: "?bs \<noteq> []" using assms(2) by (simp add: BUF_SIZE_def)
  then have n: "int (length ?bs) - 1 = int (length ?bs - 1)" by (cases ?bs) simp_all
  from ne have pos: "length ?bs - 1 < length (fr_cells (fill_in ?bs fr))" by (cases ?bs) simp_all
  have "(?bs @ drop (length ?bs) (fr_cells fr))[length ?bs - 1 := nul] = butlast ?bs @ nul # drop (length ?bs) (fr_cells fr)"
    using ne by (cases ?bs rule: rev_cases) (auto simp: list_update_append)
  then have s: "store_in (fill_in ?bs fr) (int (length ?bs) - 1) nul =
      Inr (fr\<lparr>fr_cells := butlast ?bs @ nul # drop (length ?bs) (fr_cells fr)\<rparr>)"
    unfolding n using pos by (subst store_in_cells) (simp_all add: fill_in_def)
  have "tokens_fit (length (butlast ?bs @ nul # drop (length ?bs) (fr_cells fr))) names (c_str (butlast ?bs))"
    using length_c_str [of "butlast ?bs"] by (intro tokens_fit_short) simp
  then show ?thesis unfolding print_fields_def Let_def s by (simp add: fields_text_def)
qed

text \<open>A line of words separated by single blanks that fits into the buffer is taken apart again: each
  word is printed behind the name of its field, up to the end of the shorter of the two lists.\<close>

theorem fields_printed:
  assumes "BUF_SIZE \<le> length (fr_cells fr)" "\<forall>w \<in> set ws. token w \<and> nul \<notin> set w"
    and "length (unwords ws) < BUF_SIZE"
  shows "print_fields fr names (unwords ws @ [nl]) out =
      Inr (out @ concat (map (\<lambda>(p, v). field_row p v) (zip names ws)))"
proof -
  have "fields_text (unwords ws @ [nl]) = unwords ws"
    using assms(2,3) by (simp add: fields_text_def c_str_no_nul unwords_no_nul)
  then show ?thesis using assms(2) by (subst print_fields_text [OF assms(1)]) (simp_all add: field_rows_zip)
qed

theorem fields_printed_witness:
  "print_fields (fields_frame (sample_stack 0) []) statm_fields (''12 7'' @ [nl]) [] =
     Inr (field_row ''size'' ''12'' @ field_row ''resident'' ''7'')"
  using fields_printed [of "fields_frame (sample_stack 0) []" "[''12'', ''7'']" statm_fields "[]"]
  by (simp add: token_def nul_def BUF_SIZE_def statm_fields_def sample_stack_def)

section \<open>Chunks\<close>

text \<open>
  In each chunk of 512 bytes the last byte is replaced by a newline, whatever it was; the other zero
  bytes are newlines as well. So the output of \<open>simpleOutput\<close> has the length of the file.
\<close>

lemma update_last: "xs \<noteq> [] \<Longrightarrow> xs[length xs - 1 := x] = butlast xs @ [x]"
  by (induction xs rule: rev_induct) auto

definition shown :: "char list \<Rightarrow> char list" where
  "shown content = map (\<lambda>j. if j mod OUT_SIZE = OUT_SIZE - 1 \<or> Suc j = length content \<or> content ! j = nul
     then nl else content ! j) [0..<length content]"

lemma simple_chunk:
  assumes "bs \<noteq> []"
  shows "simpleOutput (c_str ((map (\<lambda>c. if c = nul then nl else c) bs)[length bs - 1 := nul])) s =
    (fst s, snd s @ (map (\<lambda>c. if c = nul then nl else c) bs)[length bs - 1 := nl])"
proof -
  let ?b = "map (\<lambda>c. if c = nul then nl else c) bs"
  have u: "?b[length bs - 1 := x] = butlast ?b @ [x]" for x
    using update_last [of ?b x] assms by simp
  have "c_str (?b[length bs - 1 := nul]) = butlast ?b"
    unfolding u using c_str_append [of "butlast ?b" "[]"] c_str_map_nl [of bs] by (metis in_set_butlastD)
  then show ?thesis unfolding simpleOutput_def using u [of nl] by simp
qed

lemma shown_chunk:
  "shown content = (map (\<lambda>c. if c = nul then nl else c) (take OUT_SIZE content))[length (take OUT_SIZE content) - 1 := nl]
     @ shown (drop OUT_SIZE content)" (is "_ = ?x @ _")
proof (rule nth_equalityI)
  show "length (shown content) = length (?x @ shown (drop OUT_SIZE content))"
    by (simp add: shown_def)
next
  fix j assume "j < length (shown content)"
  then have j: "j < length content" by (simp add: shown_def)
  show "shown content ! j = (?x @ shown (drop OUT_SIZE content)) ! j"
  proof (cases "j < OUT_SIZE")
    case True
    then have m: "j mod OUT_SIZE = j" by simp
    show ?thesis
    proof (cases "length content \<le> OUT_SIZE")
      case short: True
      then have "?x ! j = (map (\<lambda>c. if c = nul then nl else c) content)[length content - 1 := nl] ! j" by simp
      then show ?thesis using short True j m
        by (auto simp: shown_def nth_append nth_list_update OUT_SIZE_def)
    next
      case long: False
      then have "?x ! j = (map (\<lambda>c. if c = nul then nl else c) (take OUT_SIZE content))[OUT_SIZE - 1 := nl] ! j" by simp
      then show ?thesis using long True j m
        by (auto simp: shown_def nth_append nth_list_update)
    qed
  next
    case False
    then have "length content > OUT_SIZE" "j mod OUT_SIZE = (j - OUT_SIZE) mod OUT_SIZE"
      using j by (simp_all add: le_mod_geq)
    with False j show ?thesis by (auto simp: shown_def nth_append)
  qed
qed

lemma shown_Nil [simp]: "shown [] = []"
  by (simp add: shown_def)

lemma read_simple: "read_chunks simpleOutput content s = (fst s, snd s @ shown content)"
proof (induction simpleOutput content s rule: read_chunks.induct)
  case (1 content s)
  show ?case
  proof (cases "content = []")
    case True
    then show ?thesis by (simp add: read_chunks.simps)
  next
    case False
    then have ne: "take OUT_SIZE content \<noteq> []" by (simp add: OUT_SIZE_def)
    show ?thesis using 1 [OF refl ne] ne
      by (simp only: read_chunks.simps [of simpleOutput content s] Let_def if_False simple_chunk [OF ne]
          shown_chunk [of content] fst_conv snd_conv append_assoc)
  qed
qed

lemma length_shown: "length (shown content) = length content"
  by (simp add: shown_def)

text \<open>\<open>statOutput\<close> never prints the last of its names.\<close>

lemma stat_loop_51: "i \<le> 51 \<Longrightarrow> fst (stat_loop s i out) \<le> 51"
proof (induction s i out rule: stat_loop.induct)
  case (1 s i out)
  then show ?case by (auto simp: stat_loop.simps [of s i out] split: option.splits)
qed

end
