(* ===== verification/Log_Daemon.thy ===== *)
theory Log_Daemon
  imports Daemons Proc_Files
begin

text \<open>
  The daemon \<open>6-semestr/lab4/part1/1.c\<close> as a whole: \<open>main\<close> makes the process a daemon and then writes ten
  sections to its log. Shown is exactly when the log is completed, and what it then holds.
\<close>

section \<open>\<open>main\<close>\<close>

definition log_main ::
  "denv \<Rightarrow> dproc \<Rightarrow> stack_frames \<Rightarrow> proc_fs \<Rightarrow> bool \<Rightarrow> nat \<Rightarrow> string list \<Rightarrow>
     dstop + (dproc \<times> (stop + char list))" where
  "log_main e p st fs opened own argv =
     (case daemonize4 e p of
        Inl x \<Rightarrow> Inl x
      | Inr q \<Rightarrow> Inr (q, proc_main st fs opened own argv))"

section \<open>What a section holds\<close>

text \<open>
  When a section is completed: a write in front of an array needs a byte there that may be overwritten, one
  behind it a byte behind it, and what is printed without having been read must be a string that can be read.
\<close>

definition link_loggable :: "stack_frames \<Rightarrow> proc_fs \<Rightarrow> string \<Rightarrow> bool" where
  "link_loggable st fs path \<longleftrightarrow>
     (let fr = link_frame st path in
      case link_of fs path of
        None \<Rightarrow> fr_below fr \<noteq> [] \<and> nul \<in> set (fr_cells fr @ fr_rest fr)
      | Some t \<Rightarrow> length t < PATH_MAX \<or> PATH_MAX < length (fr_cells fr))"

definition link_line :: "stack_frames \<Rightarrow> proc_fs \<Rightarrow> string \<Rightarrow> char list" where
  "link_line st fs path =
     path @ tab # ''->'' @ tab #
     (case link_of fs path of
        None \<Rightarrow> c_str (fr_cells (link_frame st path) @ fr_rest (link_frame st path))
      | Some t \<Rightarrow> c_str (take PATH_MAX t)) @ [nl]"

definition entry_path :: "string \<Rightarrow> string \<Rightarrow> string" where
  "entry_path name d = take (PATH_MAX - 1) (name @ CHR ''/'' # d)"

definition entries :: "string list \<Rightarrow> string list" where
  "entries = filter (\<lambda>d. d \<noteq> ''.'' \<and> d \<noteq> ''..'')"

definition names_of :: "print_file_fun \<Rightarrow> string list" where
  "names_of k = (case k of Stat_Fields \<Rightarrow> stat_fields | Statm_Fields \<Rightarrow> statm_fields)"

definition fields_loggable :: "frame \<Rightarrow> string list \<Rightarrow> char list \<Rightarrow> bool" where
  "fields_loggable fr names content \<longleftrightarrow> content \<noteq> [] \<or>
     fr_below fr \<noteq> [] \<and> nul \<in> set (fr_cells fr @ fr_rest fr) \<and>
     tokens_fit (length (fr_cells fr)) names (c_str (fr_cells fr @ fr_rest fr))"

definition fields_line :: "frame \<Rightarrow> char list \<Rightarrow> char list" where
  "fields_line fr content = (if content = [] then c_str (fr_cells fr @ fr_rest fr) else fields_text content)"

definition loggable :: "stack_frames \<Rightarrow> proc_fs \<Rightarrow> nat \<Rightarrow> print_info \<Rightarrow> bool" where
  "loggable st fs pid info =
     (let name = get_proc_filename pid (info_name info) in
      case print_name info of
        Some Symlink \<Rightarrow> link_loggable st fs name
      | Some Fd_Dir \<Rightarrow> (case dir_of fs name of
            None \<Rightarrow> False
          | Some ds \<Rightarrow> list_all (\<lambda>d. link_loggable st fs (entry_path name d)) (entries ds))
      | None \<Rightarrow> (case file_of fs name of
            None \<Rightarrow> True
          | Some content \<Rightarrow> (case print_file info of
                None \<Rightarrow> length content < BUF_SIZE \<or> BUF_SIZE < length (fr_cells (plain_frame st name))
              | Some k \<Rightarrow> fields_loggable (fields_frame st name) (names_of k) content)))"

definition log_section :: "stack_frames \<Rightarrow> proc_fs \<Rightarrow> nat \<Rightarrow> print_info \<Rightarrow> char list" where
  "log_section st fs pid info =
     (let name = get_proc_filename pid (info_name info) in
      nl # ''===== '' @ info_name info @ '' ====='' @ nl #
      (case print_name info of
        Some Symlink \<Rightarrow> link_line st fs name
      | Some Fd_Dir \<Rightarrow> (case dir_of fs name of
            None \<Rightarrow> []
          | Some ds \<Rightarrow> concat (map (\<lambda>d. link_line st fs (entry_path name d)) (entries ds)))
      | None \<Rightarrow> (case file_of fs name of
            None \<Rightarrow> []
          | Some content \<Rightarrow>
             (case print_file info of
                None \<Rightarrow> map (\<lambda>c. if c = nul then nl else c) content
              | Some k \<Rightarrow> field_rows (names_of k) (fields_line (fields_frame st name) content)))))"

text \<open>Every array is at least as long as the program declares it.\<close>

definition frames_ok :: "stack_frames \<Rightarrow> bool" where
  "frames_ok st \<longleftrightarrow> (\<forall>p. BUF_SIZE \<le> length (fr_cells (plain_frame st p)) \<and>
     BUF_SIZE \<le> length (fr_cells (fields_frame st p)) \<and> PATH_MAX \<le> length (fr_cells (link_frame st p)))"

section \<open>One section\<close>

lemma text_at_below [simp]: "text_at (fr\<lparr>fr_below := b\<rparr>) = text_at fr"
  by (simp add: text_at_def)

lemma print_symlink_eq:
  assumes "frames_ok st"
  shows "print_symlink st fs path out =
    (if link_loggable st fs path then Inr (out @ link_line st fs path) else Inl (Fault Out_Of_Bounds))"
proof (cases "link_of fs path")
  case None
  then show ?thesis
    by (simp add: print_symlink_def link_loggable_def link_line_def store_in_below text_at_def Let_def)
next
  case (Some t)
  let ?fr = "link_frame st path" and ?t = "take PATH_MAX t"
  have len: "PATH_MAX \<le> length (fr_cells ?fr)" using assms by (simp add: frames_ok_def)
  show ?thesis
  proof (cases "length ?t < length (fr_cells ?fr)")
    case True
    with fill_store [of ?t ?fr] obtain x where
      "store_in (fill_in ?t ?fr) (int (length ?t)) nul = Inr (?fr\<lparr>fr_cells := ?t @ nul # x\<rparr>)" by blast
    moreover have "length t < PATH_MAX \<or> PATH_MAX < length (fr_cells ?fr)" using True by auto
    ultimately show ?thesis using Some
      by (simp add: print_symlink_def link_loggable_def link_line_def Let_def del: length_take)
  next
    case False
    then have "store_in (fill_in ?t ?fr) (int (length ?t)) nul = Inl Out_Of_Bounds"
      using len by (intro store_in_behind) simp
    moreover have "\<not> (length t < PATH_MAX \<or> PATH_MAX < length (fr_cells ?fr))" using False len by auto
    ultimately show ?thesis using Some
      by (simp add: print_symlink_def link_loggable_def Let_def del: length_take)
  qed
qed

lemma print_links_entry:
  "print_links st fs name (d # ds) out =
     (if d = ''.'' \<or> d = ''..'' then print_links st fs name ds out
      else case print_symlink st fs (entry_path name d) out of
          Inl e \<Rightarrow> Inl e
        | Inr out' \<Rightarrow> print_links st fs name ds out')"
  by (simp only: print_links.simps entry_path_def)

lemma print_links_eq:
  assumes "frames_ok st"
  shows "print_links st fs name ds out =
    (if list_all (\<lambda>d. link_loggable st fs (entry_path name d)) (entries ds)
     then Inr (out @ concat (map (\<lambda>d. link_line st fs (entry_path name d)) (entries ds)))
     else Inl (Fault Out_Of_Bounds))"
  by (induction ds arbitrary: out)
    (simp_all add: print_links_entry print_symlink_eq [OF assms] entries_def del: print_links.simps(2))

lemma print_fields_eq:
  assumes "BUF_SIZE \<le> length (fr_cells fr)"
  shows "print_fields fr names content out =
    (if fields_loggable fr names content then Inr (out @ field_rows names (fields_line fr content))
     else Inl (Fault Out_Of_Bounds))"
proof (cases "content = []")
  case True
  then show ?thesis
    by (simp add: print_fields_def store_in_below fill_in_def fields_loggable_def fields_line_def text_at_def)
next
  case False
  then show ?thesis by (simp add: print_fields_text [OF assms] fields_loggable_def fields_line_def)
qed

lemma print_proc_file_eq:
  assumes "frames_ok st" "\<not> ignore_newline info"
  shows "print_proc_file st fs pid info out =
    (if loggable st fs pid info then Inr (out @ log_section st fs pid info)
     else if print_name info = Some Fd_Dir \<and> dir_of fs (get_proc_filename pid (info_name info)) = None
     then Inl (Exited 1 (out @ nl # ''===== '' @ info_name info @ '' ====='' @ [nl]))
     else Inl (Fault Out_Of_Bounds))"
proof -
  have len: "BUF_SIZE \<le> length (fr_cells (plain_frame st p))" "BUF_SIZE \<le> length (fr_cells (fields_frame st p))" for p
    using assms(1) by (simp_all add: frames_ok_def)
  show ?thesis
    using assms(2) len(1) [of "get_proc_filename pid (info_name info)"]
    unfolding print_proc_file_def loggable_def log_section_def Let_def
    by (auto simp: print_symlink_eq [OF assms(1)] print_links_eq [OF assms(1)] print_fields_eq [OF len(2)]
        print_plain_eq [OF len(1)] print_proc_fd_def print_proc_stat_def print_proc_statm_def names_of_def
        split: option.splits print_name_fun.splits print_file_fun.splits)
qed

section \<open>The whole log\<close>

lemma print_files_log:
  assumes "frames_ok st" "\<forall>i \<in> set is. \<not> ignore_newline i"
  shows "print_files st fs pid is out = Inr log \<longleftrightarrow>
    list_all (loggable st fs pid) is \<and> log = out @ concat (map (log_section st fs pid) is)"
  using assms(2)
proof (induction "is" arbitrary: out)
  case (Cons i "is")
  then show ?case using assms(1) by (auto simp: print_proc_file_eq split: if_splits)
qed auto

lemma proc_files_plain: "\<forall>i \<in> set proc_files. \<not> ignore_newline i"
  by (simp add: proc_files_def plain_info_def)

text \<open>The number of the process the log is about.\<close>

definition logged_pid :: "nat \<Rightarrow> string list \<Rightarrow> nat option" where
  "logged_pid own argv =
     (if length argv \<noteq> 2 then Some own
      else case atoi (argv ! 1 @ [nul]) of Inl e \<Rightarrow> None | Inr v \<Rightarrow> Some (if v \<le> 0 then own else nat v))"

text \<open>C33: the daemon and its log. If the system calls succeed, \<open>main\<close> of \<open>1.c\<close> first makes its process a
  daemon. It then completes the log exactly when the log could be opened, the directory of descriptors can be
  opened, and no write outside an array destroys something in use: a plain file has fewer than 256 bytes or the byte behind
  the buffer is free, a link can be read or the byte in front of its array is free (and the line shows what was on the
  stack), its target has fewer than 4096 bytes or the byte behind is free, and likewise for a file of fields that is
  empty. The log then holds the ten sections in their order, a plain file in full, however long. Which bytes around
  the arrays are free is the parameter \<open>st\<close>.\<close>

theorem log_complete:
  assumes "all_succeed e p" and "frames_ok st" and "logged_pid own argv = Some pid"
  shows "\<exists>q r. log_main e p st fs opened own argv = Inr (q, r) \<and> is_daemon q \<and>
    (\<forall>log. r = Inr log \<longleftrightarrow>
       opened \<and> list_all (loggable st fs pid) proc_files \<and>
       log = ''PID = '' @ decimal pid @ nl # concat (map (log_section st fs pid) proc_files))"
proof -
  obtain q where q: "daemonize4 e p = Inr q" "is_daemon q" using daemonize4_daemon [OF assms(1)] by blast
  have r: "proc_main st fs opened own argv =
      (if \<not> opened then Inl (Fault Null_Deref)
       else print_files st fs pid proc_files (''PID = '' @ decimal pid @ [nl]))"
    using assms(3) by (auto simp: proc_main_def logged_pid_def split: if_splits sum.splits)
  show ?thesis
    using q print_files_log [OF assms(2) proc_files_plain, of fs pid "''PID = '' @ decimal pid @ [nl]"]
    by (auto simp: log_main_def r)
qed

text \<open>
  Plain files of more than 256 bytes, as \<open>environ\<close> and \<open>maps\<close> of the log in the repository, on a stack with one
  free byte behind the buffer.
\<close>

definition long_fs :: proc_fs where
  "long_fs = \<lparr>file_of = (\<lambda>p. Some (replicate 300 CHR ''a'')), link_of = (\<lambda>p. Some ''/''), dir_of = (\<lambda>p. Some [''.'', ''..'', ''0''])\<rparr>"

theorem log_complete_witness:
  "\<exists>q. log_main (good_env 7) shell_child (sample_stack 1) long_fs True 7 [''1.out''] =
     Inr (q, Inr (''PID = '' @ decimal 7 @ nl # concat (map (log_section (sample_stack 1) long_fs 7) proc_files))) \<and> is_daemon q"
proof -
  have env: "all_succeed (good_env 7) shell_child"
    by (simp add: all_succeed_def good_env_def shell_child_def max_descriptors_def)
  have frames: "frames_ok (sample_stack 1)" by (simp add: frames_ok_def sample_stack_def Let_def)
  have "loggable (sample_stack 1) long_fs 7 i" for i
    by (auto simp: loggable_def long_fs_def link_loggable_def fields_loggable_def list_all_iff PATH_MAX_def
        sample_stack_def Let_def split: option.splits print_name_fun.splits)
  then have "list_all (loggable (sample_stack 1) long_fs 7) proc_files" by (simp add: list_all_iff)
  moreover have "logged_pid 7 [''1.out''] = Some 7" by (simp add: logged_pid_def)
  ultimately obtain q r where
    "log_main (good_env 7) shell_child (sample_stack 1) long_fs True 7 [''1.out''] = Inr (q, r)"
    "is_daemon q" "r = Inr (''PID = '' @ decimal 7 @ nl # concat (map (log_section (sample_stack 1) long_fs 7) proc_files))"
    using log_complete [OF env frames] by metis
  then show ?thesis by metis
qed

end
