(* ===== verification/Buffered_Io.thy ===== *)
theory Buffered_Io
  imports Prelude "HOL-Library.Multiset"
begin

text \<open>
  The programs of \<open>6-semestr/lab5\<close>: files that are opened twice or read through two streams. \<open>1.c\<close>
  reads one descriptor through two buffers, \<open>2.c\<close> and \<open>2_1.c\<close> read a file through two descriptors,
  \<open>3.c\<close>, \<open>3_1.c\<close>, \<open>3_2.c\<close> and \<open>3_3.c\<close> write a file through two streams.
\<close>

section \<open>Two streams on one descriptor: \<open>1.c\<close>\<close>

definition STREAM_BUFFER :: nat where "STREAM_BUFFER = 20"

text \<open>
  \<open>fscanf (fs, "%c", &c)\<close>: the next byte of the buffer; an empty buffer is filled from the descriptor,
  whose offset both streams share. The result is the byte, the buffer and what is left of the file.
\<close>

definition scan :: "char list \<Rightarrow> char list \<Rightarrow> char option \<times> char list \<times> char list" where
  "scan buf file =
     (let (b, f) = (if buf = [] then (take STREAM_BUFFER file, drop STREAM_BUFFER file) else (buf, file)) in
      if b = [] then (None, [], f) else (Some (hd b), tl b, f))"

definition put :: "char option \<Rightarrow> char list" where
  "put c = (case c of None \<Rightarrow> [] | Some x \<Rightarrow> [x])"

lemma scan_length:
  "scan buf file = (c, b, f) \<Longrightarrow> length buf + length file = length (put c) + length b + length f"
  by (auto simp: scan_def put_def Let_def STREAM_BUFFER_def split: if_splits prod.splits)

function alternate :: "bool \<Rightarrow> bool \<Rightarrow> char list \<Rightarrow> char list \<Rightarrow> char list \<Rightarrow> char list \<Rightarrow> char list" where
  "alternate flag1 flag2 buff1 buff2 file out =
     (if \<not> (flag1 \<or> flag2) then out
      else let (c1, b1, f1) = scan buff1 file;
               (c2, b2, f2) = scan buff2 f1 in
        alternate (c1 \<noteq> None) (c2 \<noteq> None) b1 b2 f2 (out @ put c1 @ put c2))"
  by pat_completeness auto

termination
proof (relation "measure (\<lambda>(x, y, b1, b2, f, out). 2 * (length b1 + length b2 + length f) + (if x \<or> y then 1 else 0))",
    goal_cases)
  case (2 flag1 flag2 buff1 buff2 fl out x c1 z b1 f1 w c2 v b2 f2)
  then have "length buff1 + length fl = length (put c1) + length b1 + length f1"
    "length buff2 + length f1 = length (put c2) + length b2 + length f2"
    by (auto intro: scan_length)
  with 2 show ?case by (cases c1; cases c2) (auto simp: put_def)
qed simp

declare alternate.simps [simp del]

text \<open>\<open>main\<close>; when the file cannot be opened, \<open>fdopen\<close> returns a null pointer.\<close>

definition streams_main :: "char list option \<Rightarrow> c_fault + char list" where
  "streams_main alphabet =
     (case alphabet of
        None \<Rightarrow> Inl Null_Deref
      | Some file \<Rightarrow> Inr (alternate True False [] [] file []))"

section \<open>Two descriptors: \<open>2.c\<close> and \<open>2_1.c\<close>\<close>

text \<open>\<open>read (fd, &c, 1)\<close>: at the end of the file \<open>c\<close> keeps its value.\<close>

definition read1 :: "char list \<Rightarrow> char \<Rightarrow> bool \<times> char \<times> char list" where
  "read1 file c = (case file of [] \<Rightarrow> (False, c, []) | x # xs \<Rightarrow> (True, x, xs))"

function two_loop :: "char list \<Rightarrow> char list \<Rightarrow> char \<Rightarrow> char list" where
  "two_loop file1 file2 c =
     (let (ok1, c1, f1) = read1 file1 c;
          (ok2, c2, f2) = read1 file2 c1 in
      c1 # c2 # (if ok1 \<and> ok2 then two_loop f1 f2 c2 else []))"
  by pat_completeness auto

termination
  by (relation "measure (\<lambda>(f1, f2, c). length f1)") (auto simp: read1_def split: list.splits)

declare two_loop.simps [simp del]

text \<open>A failed \<open>open\<close> leaves a descriptor that every \<open>read\<close> rejects, like an empty file.\<close>

definition two_main :: "char list option \<Rightarrow> char list option \<Rightarrow> char \<Rightarrow> char list" where
  "two_main open1 open2 c = two_loop (case open1 of None \<Rightarrow> [] | Some f \<Rightarrow> f) (case open2 of None \<Rightarrow> [] | Some f \<Rightarrow> f) c"

text \<open>Each thread of \<open>2_1.c\<close> has a byte it has read and not yet written, and the rest of its file.\<close>

record copier =
  held :: "char option"
  unread :: "char list"
  ended_copy :: bool

record copying =
  copier1 :: copier
  copier2 :: copier
  terminal :: "char list"

fun read_file :: "copier \<Rightarrow> char list \<Rightarrow> (copier \<times> char list) option" where
  "read_file p out =
     (if ended_copy p then None
      else case held p of
        Some c \<Rightarrow> Some (p\<lparr>held := None\<rparr>, out @ [c])
      | None \<Rightarrow>
         (case unread p of
            [] \<Rightarrow> Some (p\<lparr>ended_copy := True\<rparr>, out)
          | c # cs \<Rightarrow> Some (p\<lparr>held := Some c, unread := cs\<rparr>, out)))"

inductive copy_step :: "copying \<Rightarrow> copying \<Rightarrow> bool" where
  first_copies: "read_file (copier1 s) (terminal s) = Some (p, out) \<Longrightarrow>
    copy_step s (s\<lparr>copier1 := p, terminal := out\<rparr>)"
| second_copies: "read_file (copier2 s) (terminal s) = Some (p, out) \<Longrightarrow>
    copy_step s (s\<lparr>copier2 := p, terminal := out\<rparr>)"

definition copy_init :: "char list \<Rightarrow> copying \<Rightarrow> bool" where
  "copy_init file s \<longleftrightarrow>
     s = \<lparr>copier1 = \<lparr>held = None, unread = file, ended_copy = False\<rparr>,
          copier2 = \<lparr>held = None, unread = file, ended_copy = False\<rparr>, terminal = []\<rparr>"

section \<open>Two streams on one file: \<open>3.c\<close>, \<open>3_1.c\<close>, \<open>3_2.c\<close> and \<open>3_3.c\<close>\<close>

text \<open>
  \<open>fopen (name, "w")\<close> truncates the file; the letters stay in the buffer of the stream until \<open>fclose\<close>
  writes them at the start of the file, over what is there. A run prints the size of the file after
  each of these calls.
\<close>

definition alphabet :: "char list" where
  "alphabet = map char_of [97..<123 :: nat]"

text \<open>The letters with an odd code go to the first stream, the others to the second.\<close>

definition letters :: "nat \<Rightarrow> char list" where
  "letters n = filter (\<lambda>c. if odd (of_char c :: nat) then n = 1 else n = 2) alphabet"

definition overwrite :: "char list \<Rightarrow> char list \<Rightarrow> char list" where
  "overwrite bs file = bs @ drop (length bs) file"

record stream_file =
  file_bytes :: "char list"
  sizes :: "nat list"

definition fopen_w :: "stream_file \<Rightarrow> stream_file" where
  "fopen_w s = s\<lparr>file_bytes := []\<rparr>"

text \<open>
  All letters fit into the buffer of the stream, so nothing is written before \<open>fclose\<close>, which makes one \<open>write\<close> of them
  and then closes the descriptor. \<open>fclose_w\<close> is that \<open>write\<close>; the close has no effect on the file, so a stream
  counts as closed when its letters are written.
\<close>

definition fclose_w :: "nat \<Rightarrow> stream_file \<Rightarrow> stream_file" where
  "fclose_w n s = s\<lparr>file_bytes := overwrite (letters n) (file_bytes s)\<rparr>"

definition stat_size :: "stream_file \<Rightarrow> stream_file" where
  "stat_size s = s\<lparr>sizes := sizes s @ [length (file_bytes s)]\<rparr>"

definition write_main :: "stream_file \<Rightarrow> stream_file" where
  "write_main = stat_size \<circ> fclose_w 2 \<circ> stat_size \<circ> fclose_w 1 \<circ> stat_size \<circ> fopen_w \<circ> stat_size \<circ> fopen_w"

definition write_main_1 :: "stream_file \<Rightarrow> stream_file" where
  "write_main_1 = stat_size \<circ> fclose_w 1 \<circ> stat_size \<circ> fclose_w 2 \<circ> stat_size \<circ> fopen_w \<circ> stat_size \<circ> fopen_w"

text \<open>The threads: where \<open>write_to_file\<close> is; the numbers in the list are those of the threads.\<close>

datatype stream_writer_pc = Not_Created | Opens | Stats_Open | Closes | Stats_Close | Joined

record writing =
  shared_file :: stream_file
  writers :: "nat \<Rightarrow> stream_writer_pc"
  to_create :: "nat list"
  closed :: "nat list"
  exit_code :: "int option"

fun write_to_file :: "nat \<Rightarrow> stream_writer_pc \<Rightarrow> writing \<Rightarrow> (stream_writer_pc \<times> writing) option" where
  "write_to_file n Not_Created s = None"
| "write_to_file n Opens s = Some (Stats_Open, s\<lparr>shared_file := fopen_w (shared_file s)\<rparr>)"
| "write_to_file n Stats_Open s = Some (Closes, s\<lparr>shared_file := stat_size (shared_file s)\<rparr>)"
| "write_to_file n Closes s =
     Some (Stats_Close, s\<lparr>shared_file := fclose_w n (shared_file s), closed := closed s @ [n]\<rparr>)"
| "write_to_file n Stats_Close s = Some (Joined, s\<lparr>shared_file := stat_size (shared_file s)\<rparr>)"
| "write_to_file n Joined s = None"

fun_cases write_to_fileE: "write_to_file n pc s = Some r"

text \<open>The function of \<open>3_3.c\<close> differs only in the layout of its lines.\<close>

definition write_to_file_3_3 :: "nat \<Rightarrow> stream_writer_pc \<Rightarrow> writing \<Rightarrow> (stream_writer_pc \<times> writing) option" where
  "write_to_file_3_3 = write_to_file"

text \<open>
  \<open>main\<close> creates the threads in the order of the list and waits for both; if it cannot create one it
  returns -1, which ends the program whatever the other thread is doing.
\<close>

inductive writing_step :: "writing \<Rightarrow> writing \<Rightarrow> bool" where
  creates: "exit_code s = None \<Longrightarrow> to_create s = n # ns \<Longrightarrow>
    writing_step s (s\<lparr>to_create := ns, writers := (writers s)(n := Opens)\<rparr>)"
| create_fails: "exit_code s = None \<Longrightarrow> to_create s = n # ns \<Longrightarrow> writing_step s (s\<lparr>exit_code := Some (- 1)\<rparr>)"
| joins: "exit_code s = None \<Longrightarrow> to_create s = [] \<Longrightarrow> writers s 1 = Joined \<Longrightarrow> writers s 2 = Joined \<Longrightarrow>
    writing_step s (s\<lparr>exit_code := Some 0\<rparr>)"
| writes: "exit_code s = None \<Longrightarrow> write_to_file n (writers s n) s = Some (pc, t) \<Longrightarrow>
    writing_step s (t\<lparr>writers := (writers t)(n := pc)\<rparr>)"

text \<open>The orders in which \<open>3_2.c\<close> and \<open>3_3.c\<close> create the threads.\<close>

definition threads_3_2 :: "nat list" where "threads_3_2 = [1, 2]"
definition threads_3_3 :: "nat list" where "threads_3_3 = [2, 1]"

definition writing_init :: "nat list \<Rightarrow> writing \<Rightarrow> bool" where
  "writing_init order s \<longleftrightarrow>
     writers s = (\<lambda>n. Not_Created) \<and> to_create s = order \<and> closed s = [] \<and> sizes (shared_file s) = [] \<and>
     exit_code s = None"

section \<open>\<open>1.c\<close>: every byte once\<close>

lemma scan_mset:
  "scan buf file = (c, b, f) \<Longrightarrow> mset (put c) + mset b + mset f = mset buf + mset file"
proof (cases "buf = []")
  case True
  assume "scan buf file = (c, b, f)"
  moreover have "mset (take STREAM_BUFFER file) + mset (drop STREAM_BUFFER file) = mset file"
    by (metis append_take_drop_id mset_append)
  ultimately show ?thesis using True
    by (cases "take STREAM_BUFFER file") (auto simp: scan_def put_def)
next
  case False
  assume "scan buf file = (c, b, f)"
  with False show ?thesis by (cases buf) (auto simp: scan_def put_def)
qed

lemma scan_None: "scan buf file = (None, b, f) \<Longrightarrow> b = [] \<and> f = []"
  by (auto simp: scan_def STREAM_BUFFER_def split: if_splits)

lemma alternate_mset:
  "mset (alternate flag1 flag2 buff1 buff2 file out) =
     mset out + (if flag1 \<or> flag2 then mset buff1 + mset buff2 + mset file else {#})"
proof (induction flag1 flag2 buff1 buff2 "file" out rule: alternate.induct)
  case (1 flag1 flag2 buff1 buff2 fl out)
  show ?case
  proof (cases "flag1 \<or> flag2")
    case False
    then show ?thesis by (simp add: alternate.simps)
  next
    case True
    obtain c1 b1 f1 where s1: "scan buff1 fl = (c1, b1, f1)" by (metis prod_cases3)
    obtain c2 b2 f2 where s2: "scan buff2 f1 = (c2, b2, f2)" by (metis prod_cases3)
    have eq: "alternate flag1 flag2 buff1 buff2 fl out =
        alternate (c1 \<noteq> None) (c2 \<noteq> None) b1 b2 f2 (out @ put c1 @ put c2)"
      using True s1 s2 by (simp add: alternate.simps [of flag1])
    have IH: "mset (alternate (c1 \<noteq> None) (c2 \<noteq> None) b1 b2 f2 (out @ put c1 @ put c2)) =
        mset (out @ put c1 @ put c2) +
        (if c1 \<noteq> None \<or> c2 \<noteq> None then mset b1 + mset b2 + mset f2 else {#})"
      using 1 [OF _ s1 [symmetric] refl refl s2 [symmetric] refl refl] True by simp
    have "mset b1 + mset b2 + mset f2 = {#}" if "\<not> (c1 \<noteq> None \<or> c2 \<noteq> None)"
      using that s1 s2 scan_None [of buff1 fl b1 f1] scan_None [of buff2 f1 b2 f2] by simp
    with IH have "mset (alternate flag1 flag2 buff1 buff2 fl out) =
        mset out + (mset (put c1) + mset (put c2) + (mset b1 + mset b2 + mset f2))"
      by (cases "c1 \<noteq> None \<or> c2 \<noteq> None") (simp_all add: eq ac_simps)
    also have "mset (put c1) + mset (put c2) + (mset b1 + mset b2 + mset f2) =
        (mset (put c1) + mset b1) + (mset (put c2) + mset b2 + mset f2)"
      by (simp add: ac_simps)
    also have "\<dots> = (mset (put c1) + mset b1 + mset f1) + mset buff2"
      unfolding scan_mset [OF s2] by (simp add: ac_simps)
    also have "\<dots> = mset buff1 + mset buff2 + mset fl"
      unfolding scan_mset [OF s1] by (simp add: ac_simps)
    finally show ?thesis using True by simp
  qed
qed

text \<open>Once the file has been read, the two buffers are printed in turn.\<close>

lemma scan_rest: "scan buf [] = (if buf = [] then (None, [], []) else (Some (hd buf), tl buf, []))"
  by (simp add: scan_def)

lemma alternate_rest:
  "flag1 \<or> flag2 \<Longrightarrow> alternate flag1 flag2 buff1 buff2 [] out = out @ splice buff1 buff2"
proof (induction "length buff1 + length buff2" arbitrary: flag1 flag2 buff1 buff2 out rule: less_induct)
  case less
  have stop: "alternate False False [] [] [] o' = o'" for o'
    by (simp add: alternate.simps)
  show ?case
  proof (cases "buff1 = [] \<and> buff2 = []")
    case True
    with less.prems stop show ?thesis
      by (simp add: alternate.simps [of flag1] scan_rest put_def)
  next
    case False
    then have "length (tl buff1) + length (tl buff2) < length buff1 + length buff2"
      by (cases buff1; cases buff2) auto
    from less.hyps [OF this, of "buff1 \<noteq> []" "buff2 \<noteq> []"] False
    have "alternate (buff1 \<noteq> []) (buff2 \<noteq> []) (tl buff1) (tl buff2) [] o' = o' @ splice (tl buff1) (tl buff2)" for o'
      by simp
    moreover have "alternate flag1 flag2 buff1 buff2 [] out =
        alternate (buff1 \<noteq> []) (buff2 \<noteq> []) (tl buff1) (tl buff2) []
          (out @ (if buff1 = [] then [] else [hd buff1]) @ (if buff2 = [] then [] else [hd buff2]))"
      using less.prems by (simp add: alternate.simps [of flag1] scan_rest put_def)
    ultimately show ?thesis by (cases buff1; cases buff2) auto
  qed
qed

text \<open>C34: \<open>1.c\<close> prints every byte of the file exactly once, but not in their order: a file that fits into
  the two buffers is printed as its first 20 bytes and the others in turn.\<close>

theorem streams_print_all:
  "\<exists>out. streams_main (Some f) = Inr out \<and> mset out = mset f \<and>
     (length f \<le> 2 * STREAM_BUFFER \<longrightarrow> out = splice (take STREAM_BUFFER f) (drop STREAM_BUFFER f))"
proof -
  have "alternate True False [] [] f [] = splice (take STREAM_BUFFER f) (drop STREAM_BUFFER f)"
    if len: "length f \<le> 2 * STREAM_BUFFER"
  proof (cases "f = []")
    case True
    then show ?thesis by (simp add: alternate_rest)
  next
    case False
    let ?a = "take STREAM_BUFFER f" and ?b = "drop STREAM_BUFFER f"
    have a: "?a \<noteq> []" using False by (simp add: STREAM_BUFFER_def)
    have rest: "take STREAM_BUFFER ?b = ?b" "drop STREAM_BUFFER ?b = []" using len by simp_all
    have s1: "scan [] f = (Some (hd ?a), tl ?a, ?b)" using a by (simp add: scan_def)
    show ?thesis
    proof (cases "?b = []")
      case True
      then have "alternate True False [] [] f [] = alternate True False (tl ?a) [] [] [hd ?a]"
        using s1 by (simp add: alternate.simps [of True] scan_rest put_def)
      also have "\<dots> = hd ?a # splice (tl ?a) []" by (simp add: alternate_rest)
      finally show ?thesis using a True True by (cases ?a) auto
    next
      case b: False
      then have s2: "scan [] ?b = (Some (hd ?b), tl ?b, [])" using rest by (simp add: scan_def)
      have "alternate True False [] [] f [] = alternate True True (tl ?a) (tl ?b) [] [hd ?a, hd ?b]"
        using s1 s2 by (simp add: alternate.simps [of True] put_def)
      also have "\<dots> = hd ?a # hd ?b # splice (tl ?a) (tl ?b)" by (simp add: alternate_rest)
      finally show ?thesis using a b by (metis hd_Cons_tl splice.simps(2))
    qed
  qed
  then show ?thesis by (simp add: streams_main_def alternate_mset)
qed

theorem streams_print_all_witness:
  "streams_main (Some ''abcdefghijklmnopqrstuvwz'') = Inr ''aubvcwdzefghijklmnopqrst''"
proof -
  let ?f = "''abcdefghijklmnopqrstuvwz''"
  have "length ?f \<le> 2 * STREAM_BUFFER" by (simp add: STREAM_BUFFER_def)
  then have "streams_main (Some ?f) = Inr (splice (take STREAM_BUFFER ?f) (drop STREAM_BUFFER ?f))"
    using streams_print_all [of ?f] by blast
  then show ?thesis by (simp add: STREAM_BUFFER_def)
qed

section \<open>\<open>2.c\<close> and \<open>2_1.c\<close>: every byte twice\<close>

text \<open>The last byte is printed twice more, since the failed reads do not change \<open>c\<close>.\<close>

lemma two_main_result:
  "two_main (Some f) (Some f) c = concat (map (\<lambda>x. [x, x]) f) @ [last (c # f), last (c # f)]"
proof -
  have "two_loop f f c = concat (map (\<lambda>x. [x, x]) f) @ [last (c # f), last (c # f)]"
    by (induction f arbitrary: c) (simp_all add: two_loop.simps read1_def)
  then show ?thesis by (simp add: two_main_def)
qed

lemma shuffles_snoc:
  "zs \<in> shuffles xs ys \<Longrightarrow> zs @ [x] \<in> shuffles (xs @ [x]) ys"
proof (induction zs arbitrary: xs ys)
  case (Cons z zs)
  from Cons.prems consider xs' where "xs = z # xs'" "zs \<in> shuffles xs' ys"
    | ys' where "ys = z # ys'" "zs \<in> shuffles xs ys'"
    by (auto elim: shufflesE)
  then show ?case
  proof cases
    case 1
    with Cons.IH [of xs' ys] show ?thesis by (simp add: Cons_in_shuffles_leftI)
  next
    case 2
    with Cons.IH [of xs ys'] show ?thesis by (simp add: Cons_in_shuffles_rightI)
  qed
qed simp

lemma shuffles_snoc2: "zs \<in> shuffles xs ys \<Longrightarrow> zs @ [y] \<in> shuffles xs (ys @ [y])"
  using shuffles_snoc [of zs ys xs y] by (simp add: shuffles_commutes)

text \<open>What a thread has printed so far; the rest of the file is in its hands or unread.\<close>

definition copied :: "char list \<Rightarrow> copier \<Rightarrow> char list \<Rightarrow> bool" where
  "copied f p d \<longleftrightarrow> f = d @ (case held p of None \<Rightarrow> [] | Some c \<Rightarrow> [c]) @ unread p \<and>
     (ended_copy p \<longrightarrow> held p = None \<and> unread p = [])"

lemma read_file_cases:
  assumes "read_file p out = Some (q, out')" "copied f p d"
  obtains "copied f q d" "out' = out" | x where "copied f q (d @ [x])" "out' = out @ [x]"
  using assms by (auto simp: copied_def split: if_splits option.splits list.splits)

interpretation two_threads: invariant "copy_init f" copy_step
  "\<lambda>s. \<exists>d1 d2. copied f (copier1 s) d1 \<and> copied f (copier2 s) d2 \<and> terminal s \<in> shuffles d1 d2" for f
proof unfold_locales
  show "\<exists>d1 d2. copied f (copier1 t) d1 \<and> copied f (copier2 t) d2 \<and> terminal t \<in> shuffles d1 d2"
    if "\<exists>d1 d2. copied f (copier1 s) d1 \<and> copied f (copier2 s) d2 \<and> terminal s \<in> shuffles d1 d2"
      "copy_step s t" for s t
    using that(2)
  proof cases
    case (first_copies p out)
    with that(1) show ?thesis
      by (auto elim!: read_file_cases intro: shuffles_snoc simp del: read_file.simps) 
  next
    case (second_copies p out)
    with that(1) show ?thesis
      by (auto elim!: read_file_cases intro: shuffles_snoc2 simp del: read_file.simps)
  qed
qed (auto simp: copy_init_def copied_def)

lemma two_threads_shuffle:
  assumes "reachable (copy_init f) copy_step s" "ended_copy (copier1 s)" "ended_copy (copier2 s)"
  shows "terminal s \<in> shuffles f f"
  using two_threads.reachable_inv [OF assms(1)] assms(2,3) by (auto simp: copied_def)

section \<open>The stream closed last wins\<close>

lemma letters_length: "length (letters 1) = 13" "length (letters 2) = 13"
  by (simp_all add: letters_def alphabet_def upt_rec)

text \<open>Between a call of \<open>fopen\<close> and the next \<open>fclose\<close> the file is empty or holds the letters closed last.\<close>

definition busy :: "writing \<Rightarrow> bool" where
  "busy s \<longleftrightarrow> (\<exists>n. writers s n \<in> {Stats_Open, Closes})"

definition content_ok :: "nat list \<Rightarrow> bool \<Rightarrow> char list \<Rightarrow> bool" where
  "content_ok cs b file \<longleftrightarrow>
     (if cs = [] then b \<longrightarrow> file = [] else file = letters (last cs) \<or> file = [] \<and> b)"

definition writing_inv :: "writing \<Rightarrow> bool" where
  "writing_inv s \<longleftrightarrow>
     (\<forall>n. writers s n \<noteq> Not_Created \<longrightarrow> n \<in> {1, 2}) \<and>
     set (to_create s) \<subseteq> {1, 2} \<and> distinct (to_create s) \<and>
     (\<forall>n \<in> set (to_create s). writers s n = Not_Created) \<and> set (closed s) \<subseteq> {1, 2} \<and>
     (\<forall>n. writers s n \<in> {Stats_Close, Joined} \<longrightarrow> n \<in> set (closed s)) \<and>
     content_ok (closed s) (busy s) (file_bytes (shared_file s)) \<and> set (sizes (shared_file s)) \<subseteq> {0, 13}"

text \<open>What \<open>main\<close> has done: each thread is still to be created or has been, and both have ended when it returns 0.\<close>

definition main_inv :: "writing \<Rightarrow> bool" where
  "main_inv s \<longleftrightarrow>
     (\<forall>n \<in> {1, 2}. n \<in> set (to_create s) \<or> writers s n \<noteq> Not_Created) \<and>
     (exit_code s = Some 0 \<longrightarrow> writers s 1 = Joined \<and> writers s 2 = Joined)"

lemma write_to_file_keeps:
  assumes "write_to_file n pc s = Some (pc', t)"
  shows "to_create t = to_create s \<and> writers t = writers s \<and> exit_code t = exit_code s \<and> pc' \<noteq> Not_Created"
  using assms by (elim write_to_fileE) auto

lemma main_inv_step: "main_inv s \<Longrightarrow> writing_step s t \<Longrightarrow> main_inv t"
  by (auto simp: main_inv_def split: if_splits elim!: writing_step.cases dest!: write_to_file_keeps)

lemma overwrite_letters:
  assumes "n = 1 \<or> n = 2" "m = 1 \<or> m = 2" shows "overwrite (letters n) (letters m) = letters n"
  using assms letters_length by (auto simp: overwrite_def)

lemma overwrite_Nil: "overwrite bs [] = bs"
  by (simp add: overwrite_def)

lemma content_length:
  "content_ok cs b file \<Longrightarrow> set cs \<subseteq> {1, 2} \<Longrightarrow> b \<or> cs \<noteq> [] \<Longrightarrow> length file \<in> {0, 13}"
proof (cases "cs = []")
  case False
  moreover assume "content_ok cs b file" "set cs \<subseteq> {1, 2}"
  moreover from this False have "last cs = 1 \<or> last cs = 2" using last_in_set [of cs] by blast
  ultimately show ?thesis using letters_length by (auto simp: content_ok_def)
qed (auto simp: content_ok_def)

lemma content_overwrite:
  assumes "content_ok cs True file" "set cs \<subseteq> {1, 2}" "n \<in> {1, 2}"
  shows "overwrite (letters n) file = letters n"
proof (cases "cs = []")
  case True
  with assms show ?thesis by (simp add: content_ok_def overwrite_Nil)
next
  case False
  then have "last cs \<in> {1, 2}" using assms(2) last_in_set [of cs] by blast
  with False assms show ?thesis
    using overwrite_letters [of n "last cs"] by (auto simp: content_ok_def overwrite_Nil)
qed

lemma busy_same:
  assumes "writers t = (writers s)(n := pc)" "writers s n \<notin> {Stats_Open, Closes}" "pc \<notin> {Stats_Open, Closes}"
  shows "busy t = busy s"
  unfolding busy_def using assms by (metis fun_upd_apply)

lemma busy_start: "writers t n \<in> {Stats_Open, Closes} \<Longrightarrow> busy t"
  by (auto simp: busy_def)

lemma writing_inv_step:
  assumes inv: "writing_inv s" and st: "writing_step s t"
  shows "writing_inv t"
  using st
proof cases
  case (creates n ns)
  then have "busy t \<longleftrightarrow> busy s"
    using inv by (intro busy_same [of t s n Opens]) (auto simp: writing_inv_def)
  with creates inv show ?thesis by (auto simp: writing_inv_def)
next
  case (create_fails n ns)
  with inv show ?thesis by (simp add: writing_inv_def busy_def)
next
  case joins
  with inv show ?thesis by (simp add: writing_inv_def busy_def)
next
  case (writes n pc u)
  from inv have "writers s n \<noteq> Not_Created \<longrightarrow> n \<in> {1, 2}" by (simp add: writing_inv_def)
  with writes have n: "n \<in> {1, 2}" by (cases "writers s n") auto
  show ?thesis
  proof (cases "writers s n")
    case Not_Created
    with writes show ?thesis by simp
  next
    case Opens
    with writes have t: "t = s\<lparr>shared_file := fopen_w (shared_file s), writers := (writers s)(n := Stats_Open)\<rparr>"
      by auto
    have "busy t" by (rule busy_start [of _ n]) (simp add: t)
    then have "content_ok (closed t) (busy t) (file_bytes (shared_file t))"
      by (simp add: t content_ok_def fopen_w_def)
    with inv n Opens show ?thesis unfolding writing_inv_def by (auto simp: t fopen_w_def)
  next
    case Stats_Open
    with writes have t: "t = s\<lparr>shared_file := stat_size (shared_file s), writers := (writers s)(n := Closes)\<rparr>"
      by auto
    have b: "busy t" "busy s" by (rule busy_start [of _ n]; simp add: t Stats_Open)+
    then have "content_ok (closed t) (busy t) (file_bytes (shared_file t))" "length (file_bytes (shared_file s)) \<in> {0, 13}"
      using inv content_length [of "closed s" "busy s"] by (simp_all add: t writing_inv_def stat_size_def)
    with inv n Stats_Open show ?thesis unfolding writing_inv_def by (auto simp: t stat_size_def)
  next
    case Closes
    with writes have t: "t = s\<lparr>shared_file := fclose_w n (shared_file s), closed := closed s @ [n],
        writers := (writers s)(n := Stats_Close)\<rparr>" by auto
    have "busy s" by (rule busy_start [of _ n]) (simp add: Closes)
    then have "overwrite (letters n) (file_bytes (shared_file s)) = letters n"
      using inv n by (intro content_overwrite [of "closed s"]) (auto simp: writing_inv_def)
    then have "content_ok (closed t) (busy t) (file_bytes (shared_file t))"
      by (simp add: t content_ok_def fclose_w_def)
    with inv n Closes show ?thesis unfolding writing_inv_def by (auto simp: t fclose_w_def)
  next
    case Stats_Close
    with writes have t: "t = s\<lparr>shared_file := stat_size (shared_file s), writers := (writers s)(n := Joined)\<rparr>"
      by auto
    have c: "closed s \<noteq> []" using inv Stats_Close by (force simp: writing_inv_def)
    have "busy t \<longleftrightarrow> busy s" using Stats_Close by (intro busy_same [of t s n Joined]) (auto simp: t)
    then have "content_ok (closed t) (busy t) (file_bytes (shared_file t))" "length (file_bytes (shared_file s)) \<in> {0, 13}"
      using inv c content_length [of "closed s" "busy s"] by (simp_all add: t writing_inv_def stat_size_def)
    with inv n Stats_Close show ?thesis unfolding writing_inv_def by (auto simp: t stat_size_def)
  next
    case Joined
    with writes show ?thesis by simp
  qed
qed

interpretation two_writers: invariant "\<lambda>s. \<exists>order. set order = {1, 2} \<and> distinct order \<and> writing_init order s"
    writing_step "\<lambda>s. writing_inv s \<and> main_inv s"
proof unfold_locales
  show "writing_inv t \<and> main_inv t" if "writing_inv s \<and> main_inv s" "writing_step s t" for s t
    using that writing_inv_step main_inv_step by blast
qed (auto simp: writing_inv_def main_inv_def writing_init_def busy_def content_ok_def)

text \<open>The two programs without threads.\<close>

lemma write_main_result:
  "file_bytes (write_main s) = letters 2" "sizes (write_main s) = sizes s @ [0, 0, 13, 13]"
  "file_bytes (write_main_1 s) = letters 1" "sizes (write_main_1 s) = sizes s @ [0, 0, 13, 13]"
  using letters_length
  by (simp_all add: write_main_def write_main_1_def fopen_w_def fclose_w_def stat_size_def overwrite_def)

lemma threads_inv:
  assumes "order \<in> {threads_3_2, threads_3_3}" "reachable (writing_init order) writing_step s"
  shows "writing_inv s" "main_inv s"
proof -
  have ord: "set order = {1, 2} \<and> distinct order"
    using assms(1) by (auto simp: threads_3_2_def threads_3_3_def)
  have "reachable (\<lambda>s. \<exists>order. set order = {1, 2} \<and> distinct order \<and> writing_init order s) writing_step s"
    using assms(2) ord by (induction rule: reachable.induct) (auto intro: reach_init reach_step)
  then have "writing_inv s \<and> main_inv s" by (rule two_writers.reachable_inv)
  then show "writing_inv s" "main_inv s" by simp_all
qed

text \<open>The program goes on until \<open>main\<close> has returned, with 0 or after a failure with -1.\<close>

lemma write_to_file_goes: "pc \<notin> {Not_Created, Joined} \<Longrightarrow> write_to_file n pc s \<noteq> None"
  by (cases pc) auto

lemma writing_returns:
  assumes inv: "main_inv s" and stuck: "\<nexists>t. writing_step s t"
  shows "exit_code s \<noteq> None"
proof
  assume e: "exit_code s = None"
  have none: "to_create s = []" using creates [OF e] stuck by (cases "to_create s") auto
  have "writers s n = Joined" if "n \<in> {1, 2}" for n
  proof -
    have "writers s n \<noteq> Not_Created" using inv none that by (auto simp: main_inv_def)
    moreover have "write_to_file n (writers s n) s = None" using writes [OF e] stuck by (metis option.exhaust surj_pair)
    ultimately show ?thesis using write_to_file_goes [of "writers s n" n s] by auto
  qed
  then show False using joins [OF e none] stuck by auto
qed

text \<open>C35: In \<open>3.c\<close>, \<open>3_1.c\<close> and, in every interleaving, in the programs \<open>3_2.c\<close> and \<open>3_3.c\<close> with threads, the
  file ends with exactly the thirteen letters of the stream that was closed last (whose letters \<open>fclose\<close> wrote last): the letters of the
  other stream are lost, and no size printed is ever that of both. A program with threads that cannot go
  on has returned from \<open>main\<close>.\<close>

theorem last_close_wins:
  assumes "order \<in> {threads_3_2, threads_3_3}" "reachable (writing_init order) writing_step s"
  shows "(exit_code s = Some 0 \<longrightarrow>
      file_bytes (shared_file s) = letters (last (closed s)) \<and> last (closed s) \<in> {1, 2}) \<and>
    set (sizes (shared_file s)) \<subseteq> {0, 13} \<and> ((\<nexists>t. writing_step s t) \<longrightarrow> exit_code s \<noteq> None) \<and>
    file_bytes (write_main s0) = letters 2 \<and> file_bytes (write_main_1 s0) = letters 1"
proof (intro conjI impI)
  note inv = threads_inv(1) [OF assms] and minv = threads_inv(2) [OF assms]
  show "exit_code s \<noteq> None" if "\<nexists>t. writing_step s t" by (rule writing_returns [OF minv that])
  show "set (sizes (shared_file s)) \<subseteq> {0, 13}" using inv by (simp add: writing_inv_def)
  have fin: "file_bytes (shared_file s) = letters (last (closed s)) \<and> last (closed s) \<in> {1, 2}"
    if e: "exit_code s = Some 0"
  proof -
    have j: "writers s 1 = Joined" "writers s 2 = Joined" using minv e by (simp_all add: main_inv_def)
    have "\<not> busy s"
    proof
      assume "busy s"
      then obtain n where n: "writers s n \<in> {Stats_Open, Closes}" by (auto simp: busy_def)
      then have "writers s n \<noteq> Not_Created" by auto
      with inv have "n \<in> {1, 2}" unfolding writing_inv_def by blast
      with n j show False by auto
    qed
    moreover have c: "closed s \<noteq> []" "set (closed s) \<subseteq> {1, 2}" using inv j by (force simp: writing_inv_def)+
    moreover from c have "last (closed s) \<in> {1, 2}" using last_in_set [of "closed s"] by blast
    ultimately show ?thesis using inv by (simp add: writing_inv_def content_ok_def)
  qed
  show "file_bytes (shared_file s) = letters (last (closed s))" "last (closed s) \<in> {1, 2}"
    if "exit_code s = Some 0" using fin [OF that] by blast+
qed (simp_all add: write_main_result)

text \<open>A run of \<open>3_2.c\<close> in which the second thread closes its stream first.\<close>

fun writing_sched :: "nat list \<Rightarrow> writing \<Rightarrow> writing option" where
  "writing_sched [] s = Some s"
| "writing_sched (0 # cs) s =
     (if exit_code s \<noteq> None then None
      else case to_create s of
        [] \<Rightarrow> (if writers s 1 = Joined \<and> writers s 2 = Joined then writing_sched cs (s\<lparr>exit_code := Some 0\<rparr>) else None)
      | n # ns \<Rightarrow> writing_sched cs (s\<lparr>to_create := ns, writers := (writers s)(n := Opens)\<rparr>))"
| "writing_sched (n # cs) s =
     (if exit_code s \<noteq> None then None
      else case write_to_file n (writers s n) s of
        None \<Rightarrow> None
      | Some (pc, t) \<Rightarrow> writing_sched cs (t\<lparr>writers := (writers t)(n := pc)\<rparr>))"

lemma writing_sched_reachable:
  "writing_sched cs s = Some t \<Longrightarrow> reachable ini writing_step s \<Longrightarrow> reachable ini writing_step t"
proof (induction cs s rule: writing_sched.induct)
  case (2 cs s)
  then have e: "exit_code s = None" by (auto split: if_splits)
  show ?case
  proof (cases "to_create s")
    case Nil
    with 2(3) e have j: "writers s 1 = Joined" "writers s 2 = Joined" by (simp_all split: if_splits)
    from joins [OF e Nil j] 2(4) have "reachable ini writing_step (s\<lparr>exit_code := Some 0\<rparr>)" by (blast intro: reach_step)
    with 2(1) [OF _ Nil] 2(3) e Nil j show ?thesis by simp
  next
    case (Cons n ns)
    from creates [OF e Cons] 2(4)
    have "reachable ini writing_step (s\<lparr>to_create := ns, writers := (writers s)(n := Opens)\<rparr>)" by (blast intro: reach_step)
    with 2(2) [OF _ Cons] 2(3) e Cons show ?thesis by simp
  qed
next
  case (3 n cs s)
  then obtain pc u where u: "write_to_file (Suc n) (writers s (Suc n)) s = Some (pc, u)"
    "writing_sched cs (u\<lparr>writers := (writers u)(Suc n := pc)\<rparr>) = Some t" and e: "exit_code s = None"
    by (auto split: option.splits prod.splits if_splits)
  from writes [OF e u(1)] 3(3) have "reachable ini writing_step (u\<lparr>writers := (writers u)(Suc n := pc)\<rparr>)"
    by (blast intro: reach_step)
  with 3(1) [OF _ u(1) refl u(2)] e show ?case by blast
qed simp

definition writing_start :: writing where
  "writing_start = \<lparr>shared_file = \<lparr>file_bytes = ''old'', sizes = []\<rparr>, writers = (\<lambda>n. Not_Created),
     to_create = [1, 2], closed = [], exit_code = None\<rparr>"

lemma writing_run:
  "\<exists>s. writing_sched [0, 0, 1, 2, 1, 2, 2, 1, 1, 2, 0] writing_start = Some s \<and>
     exit_code s = Some 0 \<and> closed s = [2, 1]"
  by (simp add: writing_start_def numeral_2_eq_2)

theorem last_close_wins_witness:
  "\<exists>s :: writing. file_bytes (shared_file s) = letters 1 \<and> set (sizes (shared_file s)) \<subseteq> {0, 13}"
proof -
  obtain s where s: "writing_sched [0, 0, 1, 2, 1, 2, 2, 1, 1, 2, 0] writing_start = Some s"
    "exit_code s = Some 0" "closed s = [2, 1]" using writing_run by blast
  have "reachable (writing_init threads_3_2) writing_step s"
    by (rule writing_sched_reachable [OF s(1)])
      (simp_all add: writing_start_def reach_init writing_init_def threads_3_2_def)
  from last_close_wins [OF _ this] s(2,3) show ?thesis by auto
qed

end
