(* ===== verification/Kernel_Modules.thy ===== *)
theory Kernel_Modules
  imports Prelude
begin

text \<open>
  Loadable kernel modules as owners of resources: the contract of loading and unloading, and the
  virtual file system of \<open>6-semestr/lab8/virtual_fc.c\<close>.
\<close>

section \<open>Loading and unloading\<close>

datatype resource =
  File_System | Memory_Area | Slab_Cache | Slab_Object | Irq_Line | Proc_Entry | Work_Queue | Work_Item nat

text \<open>
  What a module has registered or allocated, and whether its code is in the kernel: \<open>insmod\<close> removes
  the code again when the initialisation returns an error, whatever it has left behind.
\<close>

record kernel =
  held :: "resource list"
  present :: bool

definition take_res :: "resource \<Rightarrow> kernel \<Rightarrow> kernel" where
  "take_res r k = k\<lparr>held := r # held k\<rparr>"

definition free_res :: "resource \<Rightarrow> kernel \<Rightarrow> kernel" where
  "free_res r k = k\<lparr>held := remove1 r (held k)\<rparr>"

definition insmod :: "(kernel \<Rightarrow> c_fault + (int \<times> kernel)) \<Rightarrow> kernel \<Rightarrow> c_fault + (int \<times> kernel)" where
  "insmod init k =
     (case init (k\<lparr>present := True\<rparr>) of
        Inl e \<Rightarrow> Inl e
      | Inr (ret, k') \<Rightarrow> Inr (ret, if ret = 0 then k' else k'\<lparr>present := False\<rparr>))"

definition rmmod :: "(kernel \<Rightarrow> kernel) \<Rightarrow> kernel \<Rightarrow> kernel" where
  "rmmod exit_fun k = (exit_fun k)\<lparr>present := False\<rparr>"

text \<open>
  The contract of a module: what a successful initialisation takes, the exit function gives back.
  \<open>goes\<close> tells for which answers of the kernel the initialisation succeeds.
\<close>

locale kernel_module =
  fixes init :: "'e \<Rightarrow> kernel \<Rightarrow> c_fault + (int \<times> kernel)"
    and exit_fun :: "'e \<Rightarrow> kernel \<Rightarrow> kernel"
    and goes :: "'e \<Rightarrow> bool"
  assumes init_goes: "goes e \<Longrightarrow> \<exists>rs. init e k = Inr (0, k\<lparr>held := rs @ held k\<rparr>) \<and>
      exit_fun e (k\<lparr>held := rs @ held k\<rparr>) = k"
    and init_stays: "\<not> goes e \<Longrightarrow> init e k = Inr (r, k') \<Longrightarrow> r \<noteq> 0"
begin

lemma load_unload:
  assumes "insmod (init e) k = Inr (0, k')"
  shows "rmmod (exit_fun e) k' = k\<lparr>present := False\<rparr>"
proof -
  obtain r k1 where i: "init e (k\<lparr>present := True\<rparr>) = Inr (r, k1)" "r = 0" "k' = k1"
    using assms by (auto simp: insmod_def split: sum.splits if_splits)
  then have "goes e" using init_stays by blast
  with init_goes [of e "k\<lparr>present := True\<rparr>"] i show ?thesis
    by (auto simp: rmmod_def)
qed

lemma load_iff: "(\<exists>k'. insmod (init e) k = Inr (0, k')) \<longleftrightarrow> goes e"
proof
  assume "goes e"
  with init_goes [of e "k\<lparr>present := True\<rparr>"] show "\<exists>k'. insmod (init e) k = Inr (0, k')"
    by (auto simp: insmod_def)
next
  assume "\<exists>k'. insmod (init e) k = Inr (0, k')"
  then show "goes e" using init_stays [of e "k\<lparr>present := True\<rparr>"]
    by (force simp: insmod_def split: sum.splits if_splits)
qed

end

section \<open>The virtual file system\<close>

definition ENOMEM :: int where "ENOMEM = 12"
definition PAGE_SIZE :: nat where "PAGE_SIZE = 4096"
definition PAGE_SHIFT :: nat where "PAGE_SHIFT = 12"
definition VIRTUAL_FC_MAGIC_NUM :: nat where "VIRTUAL_FC_MAGIC_NUM = 320017171"

record vfs_env =
  register_gives :: int
  kmalloc_ok :: bool
  cache_ok :: bool
  object_ok :: bool

text \<open>
  \<open>virtual_fc_init\<close>. After an error the file system stays registered; \<open>kmem_cache_free\<close> is given a
  null pointer when the allocation has failed, which it does not allow.
\<close>

definition virtual_fc_init :: "vfs_env \<Rightarrow> kernel \<Rightarrow> c_fault + (int \<times> kernel)" where
  "virtual_fc_init e k =
     (let ret = register_gives e in
      if ret \<noteq> 0 then Inr (ret, k)
      else
       (let k1 = take_res File_System k in
        if \<not> kmalloc_ok e then Inr (- ENOMEM, k1)
        else
         (let k2 = take_res Memory_Area k1 in
          if \<not> cache_ok e then Inr (- ENOMEM, free_res Memory_Area k2)
          else
           (let k3 = take_res Slab_Cache k2 in
            if \<not> object_ok e then Inl Null_Deref
            else Inr (0, take_res Slab_Object k3)))))"

definition virtual_fc_exit :: "vfs_env \<Rightarrow> kernel \<Rightarrow> kernel" where
  "virtual_fc_exit e k =
     free_res File_System (free_res Memory_Area (free_res Slab_Cache (free_res Slab_Object k)))"

definition vfs_goes :: "vfs_env \<Rightarrow> bool" where
  "vfs_goes e \<longleftrightarrow> register_gives e = 0 \<and> kmalloc_ok e \<and> cache_ok e \<and> object_ok e"

interpretation vfs: kernel_module virtual_fc_init virtual_fc_exit vfs_goes
proof unfold_locales
  show "\<exists>rs. virtual_fc_init e k = Inr (0, k\<lparr>held := rs @ held k\<rparr>) \<and>
      virtual_fc_exit e (k\<lparr>held := rs @ held k\<rparr>) = k" if "vfs_goes e" for e k
    using that
    by (intro exI [of _ "[Slab_Object, Slab_Cache, Memory_Area, File_System]"])
      (simp add: vfs_goes_def virtual_fc_init_def virtual_fc_exit_def take_res_def free_res_def)
qed (auto simp: vfs_goes_def virtual_fc_init_def ENOMEM_def Let_def split: if_splits)

text \<open>The super block and its root directory.\<close>

record inode =
  i_mode :: nat
  i_size :: nat
  i_dir_ops :: bool
  i_count :: nat

record super_block =
  s_blocksize :: nat
  s_blocksize_bits :: nat
  s_magic :: nat
  s_op :: bool
  s_root :: "inode option"

record mount_env =
  super_ok :: bool
  inode_ok :: bool
  root_ok :: bool

definition S_IFDIR_0755 :: nat where "S_IFDIR_0755 = 16877"

definition virtual_fc_make_inode :: "mount_env \<Rightarrow> nat \<Rightarrow> inode option" where
  "virtual_fc_make_inode e mode =
     (if inode_ok e then Some \<lparr>i_mode = mode, i_size = PAGE_SIZE, i_dir_ops = False, i_count = 1\<rparr> else None)"

text \<open>Giving up a reference that is not there any more touches a freed inode.\<close>

definition iput :: "inode \<Rightarrow> c_fault + inode" where
  "iput i = (if i_count i = 0 then Inl Use_After_Free else Inr (i\<lparr>i_count := i_count i - 1\<rparr>))"

text \<open>\<open>d_make_root\<close> gives up the reference itself when it fails.\<close>

definition d_make_root :: "mount_env \<Rightarrow> inode \<Rightarrow> c_fault + (inode option \<times> inode)" where
  "d_make_root e i =
     (if root_ok e then Inr (Some i, i) else map_sum (\<lambda>x. x) (\<lambda>j. (None, j)) (iput i))"

definition virtual_fc_fill_sb :: "mount_env \<Rightarrow> super_block \<Rightarrow> c_fault + (int \<times> super_block)" where
  "virtual_fc_fill_sb e sb =
     (let sb1 = sb\<lparr>s_blocksize := PAGE_SIZE, s_blocksize_bits := PAGE_SHIFT,
                   s_magic := VIRTUAL_FC_MAGIC_NUM, s_op := True\<rparr> in
      case virtual_fc_make_inode e S_IFDIR_0755 of
        None \<Rightarrow> Inr (- ENOMEM, sb1)
      | Some i \<Rightarrow>
         (case d_make_root e (i\<lparr>i_dir_ops := True\<rparr>) of
            Inl f \<Rightarrow> Inl f
          | Inr (None, j) \<Rightarrow>
             (case iput j of
                Inl f \<Rightarrow> Inl f
              | Inr j' \<Rightarrow> Inr (- ENOMEM, sb1\<lparr>s_root := None\<rparr>))
          | Inr (Some r, j) \<Rightarrow> Inr (0, sb1\<lparr>s_root := Some r\<rparr>)))"

definition blank_super :: super_block where
  "blank_super = \<lparr>s_blocksize = 0, s_blocksize_bits = 0, s_magic = 0, s_op = False, s_root = None\<rparr>"

text \<open>
  \<open>mount_nodev\<close> creates a super block and calls the function that fills it; the kernel finds the
  function through the registered file system, in the code of the module.
\<close>

definition virtual_fc_mount :: "mount_env \<Rightarrow> c_fault + (int + super_block)" where
  "virtual_fc_mount e =
     (if \<not> super_ok e then Inr (Inl (- ENOMEM))
      else case virtual_fc_fill_sb e blank_super of
          Inl f \<Rightarrow> Inl f
        | Inr (ret, sb) \<Rightarrow> Inr (if ret \<noteq> 0 then Inl ret else Inr sb))"

definition ENODEV :: int where "ENODEV = 19"

definition mount_vfs :: "mount_env \<Rightarrow> kernel \<Rightarrow> c_fault + (int + super_block)" where
  "mount_vfs e k =
     (if File_System \<notin> set (held k) then Inr (Inl (- ENODEV))
      else if \<not> present k then Inl Use_After_Free
      else virtual_fc_mount e)"

lemmas vfs_defs = virtual_fc_mount_def virtual_fc_fill_sb_def virtual_fc_make_inode_def d_make_root_def
  iput_def blank_super_def

text \<open>A mount gives the super block with an empty root directory when all allocations succeed, an error
  when there is no memory for the super block or the inode, and releases the inode twice when there
  is none for the root entry.\<close>

lemma mount_cases:
  "virtual_fc_mount e =
    (if \<not> super_ok e \<or> \<not> inode_ok e then Inr (Inl (- ENOMEM))
     else if \<not> root_ok e then Inl Use_After_Free
     else Inr (Inr \<lparr>s_blocksize = PAGE_SIZE, s_blocksize_bits = PAGE_SHIFT, s_magic = VIRTUAL_FC_MAGIC_NUM,
       s_op = True, s_root = Some \<lparr>i_mode = S_IFDIR_0755, i_size = PAGE_SIZE, i_dir_ops = True, i_count = 1\<rparr>\<rparr>))"
  by (simp add: vfs_defs ENOMEM_def Let_def)

text \<open>The module is loaded exactly if the registration and the three allocations succeed, and then
  unloading gives everything back. If loading fails after the registration, the file system stays
  registered without the code of the module, so the next mount runs into freed memory.\<close>

theorem vfs_load:
  assumes "File_System \<notin> set (held k)"
  shows "(\<exists>k'. insmod (virtual_fc_init e) k = Inr (0, k')) = vfs_goes e \<and>
    (\<forall>k'. insmod (virtual_fc_init e) k = Inr (0, k') \<longrightarrow>
       rmmod (virtual_fc_exit e) k' = k\<lparr>present := False\<rparr>) \<and>
    (\<forall>r k'. insmod (virtual_fc_init e) k = Inr (r, k') \<longrightarrow> r \<noteq> 0 \<longrightarrow>
       mount_vfs m k' = (if register_gives e = 0 then Inl Use_After_Free else Inr (Inl (- ENODEV))))"
proof (intro conjI allI impI)
  show "(\<exists>k'. insmod (virtual_fc_init e) k = Inr (0, k')) = vfs_goes e" by (rule vfs.load_iff)
  show "rmmod (virtual_fc_exit e) k' = k\<lparr>present := False\<rparr>" if "insmod (virtual_fc_init e) k = Inr (0, k')" for k'
    using that by (rule vfs.load_unload)
  show "mount_vfs m k' = (if register_gives e = 0 then Inl Use_After_Free else Inr (Inl (- ENODEV)))"
    if "insmod (virtual_fc_init e) k = Inr (r, k')" "r \<noteq> 0" for r k'
    using that assms
    by (auto simp: insmod_def virtual_fc_init_def take_res_def free_res_def mount_vfs_def Let_def split: if_splits)
qed

theorem vfs_load_witness:
  "mount_vfs \<lparr>super_ok = True, inode_ok = True, root_ok = True\<rparr> \<lparr>held = [File_System], present = False\<rparr> =
     Inl Use_After_Free \<and>
   insmod (virtual_fc_init \<lparr>register_gives = 0, kmalloc_ok = False, cache_ok = True, object_ok = True\<rparr>)
     \<lparr>held = [], present = False\<rparr> = Inr (- ENOMEM, \<lparr>held = [File_System], present = False\<rparr>)"
proof -
  let ?e = "\<lparr>register_gives = 0, kmalloc_ok = False, cache_ok = True, object_ok = True\<rparr>"
  have i: "insmod (virtual_fc_init ?e) \<lparr>held = [], present = False\<rparr> =
      Inr (- ENOMEM, \<lparr>held = [File_System], present = False\<rparr>)"
    by (simp add: insmod_def virtual_fc_init_def take_res_def ENOMEM_def)
  with vfs_load [of "\<lparr>held = [], present = False\<rparr>" ?e] show ?thesis
    by (simp add: ENOMEM_def)
qed

end
