(* ===== verification/Virtual_Fs.thy ===== *)
theory Virtual_Fs
  imports Kernel_Modules
begin

text \<open>
  The module of \<open>6-semestr/lab8/virtual_fc.c\<close> in use: loading, unloading, mounting and unmounting in any
  order, and the constructor of its slab cache.
\<close>

section \<open>The life of the file system\<close>

text \<open>
  \<open>func_init\<close>, the constructor of the slab cache, stores its argument, an address, as an \<open>int\<close> in the
  object, which is given here by its words of four bytes: the upper half of the address is lost.
\<close>

definition func_init :: "64 word \<Rightarrow> 32 word list \<Rightarrow> c_fault + 32 word list" where
  "func_init p obj = store obj 0 (ucast p)"

lemma func_init_truncates:
  "func_init p [a, b] = Inr [ucast p, b]"
  "(ucast (ucast p :: 32 word) :: 64 word) = p \<longleftrightarrow> p < 2 ^ 32"
proof -
  show "func_init p [a, b] = Inr [ucast p, b]" by (simp add: func_init_def store_def)
  have "(ucast (ucast p :: 32 word) :: 64 word) = p \<longleftrightarrow> uint p mod 2 ^ 32 = uint p"
    by (simp add: word_uint_eq_iff unsigned_ucast_eq take_bit_eq_mod uint_mod)
  also have "\<dots> \<longleftrightarrow> uint p < 2 ^ 32"
    by (metis mod_pos_pos_trivial pos_mod_bound uint_ge_0 zero_less_numeral zero_less_power)
  finally show "(ucast (ucast p :: 32 word) :: 64 word) = p \<longleftrightarrow> p < 2 ^ 32"
    by (simp add: word_less_def)
qed

text \<open>
  What can be done with the module and the file system, in any order. Loading and mounting look the
  name \<open>virtual_fc\<close> up in the list of file systems: an entry whose module is gone is freed memory. A
  mount keeps the module from being unloaded (\<open>owner\<close>). \<open>kill_litter_super\<close> calls \<open>put_super\<close>, which is
  code of the module.
\<close>

datatype vfs_op = Insmod vfs_env | Rmmod vfs_env | Mount mount_env | Umount nat

record vfs =
  vfs_kernel :: kernel
  module_refs :: nat
  mounts :: "super_block list"
  put_supers :: nat

definition vfs_start :: vfs where
  "vfs_start = \<lparr>vfs_kernel = \<lparr>held = [], present = False\<rparr>, module_refs = 0, mounts = [], put_supers = 0\<rparr>"

definition vfs_dangling :: "vfs \<Rightarrow> bool" where
  "vfs_dangling s \<longleftrightarrow> File_System \<in> set (held (vfs_kernel s)) \<and> \<not> present (vfs_kernel s)"

definition virtual_fc_put_super :: "vfs \<Rightarrow> vfs" where
  "virtual_fc_put_super s = s\<lparr>put_supers := Suc (put_supers s)\<rparr>"

definition kill_litter_super :: "nat \<Rightarrow> vfs \<Rightarrow> c_fault + vfs" where
  "kill_litter_super i s =
     (if \<not> present (vfs_kernel s) then Inl Use_After_Free
      else Inr ((if s_op (mounts s ! i) then virtual_fc_put_super s else s)\<lparr>
             mounts := take i (mounts s) @ drop (Suc i) (mounts s), module_refs := module_refs s - 1\<rparr>))"

fun vfs_do :: "vfs_op \<Rightarrow> vfs \<Rightarrow> c_fault + vfs" where
  "vfs_do (Insmod e) s =
     (if present (vfs_kernel s) then Inr s
      else if vfs_dangling s then Inl Use_After_Free
      else case insmod (virtual_fc_init e) (vfs_kernel s) of
          Inl f \<Rightarrow> Inl f
        | Inr (ret, k) \<Rightarrow> Inr (s\<lparr>vfs_kernel := k\<rparr>))"
| "vfs_do (Rmmod e) s =
     (if present (vfs_kernel s) \<and> module_refs s = 0
      then Inr (s\<lparr>vfs_kernel := rmmod (virtual_fc_exit e) (vfs_kernel s)\<rparr>) else Inr s)"
| "vfs_do (Mount e) s =
     (case mount_vfs e (vfs_kernel s) of
        Inl f \<Rightarrow> Inl f
      | Inr (Inl err) \<Rightarrow> Inr s
      | Inr (Inr sb) \<Rightarrow> Inr (s\<lparr>mounts := mounts s @ [sb], module_refs := Suc (module_refs s)\<rparr>))"
| "vfs_do (Umount i) s = (if i < length (mounts s) then kill_litter_super i s else Inr s)"

fun vfs_run :: "vfs_op list \<Rightarrow> vfs \<Rightarrow> c_fault + vfs" where
  "vfs_run [] s = Inr s"
| "vfs_run (op # ops) s = (case vfs_do op s of Inl f \<Rightarrow> Inl f | Inr t \<Rightarrow> vfs_run ops t)"

definition vfs_resources :: "resource list" where
  "vfs_resources = [Slab_Object, Slab_Cache, Memory_Area, File_System]"

definition vfs_mounted :: super_block where
  "vfs_mounted = \<lparr>s_blocksize = PAGE_SIZE, s_blocksize_bits = PAGE_SHIFT, s_magic = VIRTUAL_FC_MAGIC_NUM,
     s_op = True, s_root = Some \<lparr>i_mode = S_IFDIR_0755, i_size = PAGE_SIZE, i_dir_ops = True, i_count = 1\<rparr>\<rparr>"

text \<open>
  The module owns all its resources or none, except that a failed load may leave the file system
  registered; a mounted file system keeps the module, and counts as one reference to it.
\<close>

definition vfs_ok :: "vfs \<Rightarrow> bool" where
  "vfs_ok s \<longleftrightarrow>
     (if present (vfs_kernel s) then held (vfs_kernel s) = vfs_resources
      else held (vfs_kernel s) \<in> {[], [File_System]} \<and> mounts s = []) \<and>
     module_refs s = length (mounts s) \<and> (\<forall>sb \<in> set (mounts s). sb = vfs_mounted)"

text \<open>The three ways to crash the kernel.\<close>

fun vfs_crashes :: "vfs_op \<Rightarrow> vfs \<Rightarrow> bool" where
  "vfs_crashes (Insmod e) s =
     (\<not> present (vfs_kernel s) \<and> (vfs_dangling s \<or> register_gives e = 0 \<and> kmalloc_ok e \<and> cache_ok e \<and> \<not> object_ok e))"
| "vfs_crashes (Mount e) s =
     (vfs_dangling s \<or> present (vfs_kernel s) \<and> super_ok e \<and> inode_ok e \<and> \<not> root_ok e)"
| "vfs_crashes op s = False"

text \<open>A load that fails behind the registration and leaves the file system registered.\<close>

fun vfs_leaks :: "vfs_op \<Rightarrow> vfs \<Rightarrow> bool" where
  "vfs_leaks (Insmod e) s =
     (\<not> present (vfs_kernel s) \<and> register_gives e = 0 \<and> (\<not> kmalloc_ok e \<or> \<not> cache_ok e))"
| "vfs_leaks op s = False"

lemma insmod_cases:
  assumes "held k = []"
  shows "insmod (virtual_fc_init e) k =
    (if register_gives e \<noteq> 0 then Inr (register_gives e, k\<lparr>present := False\<rparr>)
     else if \<not> kmalloc_ok e \<or> \<not> cache_ok e then Inr (- ENOMEM, k\<lparr>held := [File_System], present := False\<rparr>)
     else if \<not> object_ok e then Inl Null_Deref
     else Inr (0, k\<lparr>held := vfs_resources, present := True\<rparr>))"
  using assms
  by (simp add: insmod_def virtual_fc_init_def take_res_def free_res_def ENOMEM_def vfs_resources_def Let_def)

lemma vfs_crash_iff:
  assumes ok: "vfs_ok s" shows "(\<exists>f. vfs_do op s = Inl f) \<longleftrightarrow> vfs_crashes op s"
proof (cases op)
  case (Insmod e)
  show ?thesis
  proof (cases "present (vfs_kernel s) \<or> vfs_dangling s")
    case False
    then have "held (vfs_kernel s) = []" using ok by (auto simp: vfs_ok_def vfs_dangling_def)
    with Insmod False show ?thesis by (auto simp: insmod_cases split: if_splits)
  qed (use Insmod in auto)
next
  case (Mount e)
  with ok show ?thesis
    by (auto simp: mount_vfs_def mount_cases vfs_dangling_def vfs_ok_def vfs_resources_def split: sum.splits if_splits)
next
  case (Umount i)
  with ok show ?thesis by (auto simp: kill_litter_super_def vfs_ok_def)
qed simp

lemma vfs_do_ok:
  assumes ok: "vfs_ok s" and d: "vfs_do op s = Inr t" shows "vfs_ok t"
proof (cases op)
  case (Insmod e)
  show ?thesis
  proof (cases "present (vfs_kernel s) \<or> vfs_dangling s")
    case False
    then have "held (vfs_kernel s) = []" "mounts s = []" using ok by (auto simp: vfs_ok_def vfs_dangling_def)
    with Insmod False ok d show ?thesis by (auto simp: insmod_cases vfs_ok_def split: if_splits)
  qed (use Insmod ok d in \<open>auto split: if_splits\<close>)
next
  case (Rmmod e)
  with ok d show ?thesis
    by (auto simp: vfs_ok_def rmmod_def virtual_fc_exit_def free_res_def vfs_resources_def split: if_splits)
next
  case (Mount e)
  with ok d show ?thesis
    by (auto simp: mount_vfs_def mount_cases vfs_ok_def vfs_mounted_def split: sum.splits if_splits)
next
  case (Umount i)
  have "\<forall>sb \<in> set (take i (mounts s) @ drop (Suc i) (mounts s)). sb = vfs_mounted"
    using ok unfolding vfs_ok_def by (metis Un_iff in_set_dropD in_set_takeD set_append)
  with Umount ok d show ?thesis
    by (auto simp: kill_litter_super_def vfs_ok_def virtual_fc_put_super_def split: if_splits)
qed

lemma vfs_do_leaks:
  assumes ok: "vfs_ok s" and d: "vfs_do op s = Inr t"
  shows "vfs_dangling t \<longleftrightarrow> vfs_dangling s \<or> vfs_leaks op s"
proof (cases op)
  case (Insmod e)
  show ?thesis
  proof (cases "present (vfs_kernel s) \<or> vfs_dangling s")
    case False
    then have "held (vfs_kernel s) = []" using ok by (auto simp: vfs_ok_def vfs_dangling_def)
    with Insmod False d show ?thesis by (auto simp: insmod_cases vfs_dangling_def split: if_splits)
  qed (use Insmod d in \<open>auto simp: vfs_dangling_def split: if_splits\<close>)
next
  case (Rmmod e)
  with ok d show ?thesis
    by (auto simp: vfs_dangling_def vfs_ok_def rmmod_def virtual_fc_exit_def free_res_def vfs_resources_def split: if_splits)
next
  case (Mount e)
  with d show ?thesis by (auto simp: vfs_dangling_def split: sum.splits)
next
  case (Umount i)
  with d show ?thesis
    by (auto simp: vfs_dangling_def kill_litter_super_def virtual_fc_put_super_def split: if_splits)
qed

lemma vfs_run_ok: "vfs_ok s \<Longrightarrow> vfs_run ops s = Inr t \<Longrightarrow> vfs_ok t"
  by (induction ops arbitrary: s) (auto split: sum.splits intro: vfs_do_ok)

lemma vfs_ok_start: "vfs_ok vfs_start"
  by (simp add: vfs_ok_def vfs_start_def)

text \<open>C37: the life of the virtual file system, over any sequence of loading, unloading, mounting and
  unmounting. While it is loaded the module holds exactly its four resources; one reference per mounted file
  system keeps it loaded, and every mounted file system has the same super block with a root directory. While it
  is not loaded it holds nothing, with one exception: a load that fails behind the registration, and only such a
  load, leaves the file system registered from then on. An
  operation runs into freed or missing memory in exactly three cases: a load whose last allocation fails,
  a mount whose root entry cannot be allocated, and any load or mount after a load that failed behind the
  registration. An unmount calls \<open>put_super\<close> once.\<close>

theorem vfs_lifecycle:
  assumes "vfs_run ops vfs_start = Inr s"
  shows "vfs_ok s \<and>
    held (vfs_kernel s) = (if present (vfs_kernel s) then vfs_resources else if vfs_dangling s then [File_System] else []) \<and>
    (\<forall>t. vfs_do op s = Inr t \<longrightarrow> (vfs_dangling t \<longleftrightarrow> vfs_dangling s \<or> vfs_leaks op s)) \<and>
    ((\<exists>f. vfs_do op s = Inl f) \<longleftrightarrow> vfs_crashes op s) \<and>
    (\<forall>i < length (mounts s). \<exists>t. vfs_do (Umount i) s = Inr t \<and> put_supers t = Suc (put_supers s) \<and>
       length (mounts t) = length (mounts s) - 1)"
proof -
  have ok: "vfs_ok s" using vfs_run_ok [OF vfs_ok_start assms] .
  have "\<exists>t. vfs_do (Umount i) s = Inr t \<and> put_supers t = Suc (put_supers s) \<and> length (mounts t) = length (mounts s) - 1"
    if i: "i < length (mounts s)" for i
  proof -
    have "mounts s ! i = vfs_mounted" using ok nth_mem [OF i] unfolding vfs_ok_def by blast
    moreover have "present (vfs_kernel s)" using ok i by (auto simp: vfs_ok_def split: if_splits)
    ultimately show ?thesis using i
      by (simp add: kill_litter_super_def vfs_mounted_def virtual_fc_put_super_def)
  qed
  moreover have "held (vfs_kernel s) =
      (if present (vfs_kernel s) then vfs_resources else if vfs_dangling s then [File_System] else [])"
    using ok by (auto simp: vfs_ok_def vfs_dangling_def)
  ultimately show ?thesis using ok vfs_crash_iff [OF ok] vfs_do_leaks [OF ok] by blast
qed

text \<open>A load that fails for want of memory, and the mount after it.\<close>

theorem vfs_lifecycle_witness:
  "\<exists>s. vfs_run [Insmod \<lparr>register_gives = 0, kmalloc_ok = False, cache_ok = True, object_ok = True\<rparr>] vfs_start = Inr s \<and>
     (\<exists>f. vfs_do (Mount \<lparr>super_ok = True, inode_ok = True, root_ok = True\<rparr>) s = Inl f)"
proof -
  let ?e = "\<lparr>register_gives = 0, kmalloc_ok = False, cache_ok = True, object_ok = True\<rparr>"
  let ?s = "vfs_start\<lparr>vfs_kernel := \<lparr>held = [File_System], present = False\<rparr>\<rparr>"
  have r: "vfs_run [Insmod ?e] vfs_start = Inr ?s"
    by (simp add: vfs_start_def vfs_dangling_def insmod_cases)
  from vfs_lifecycle [OF r, of "Mount \<lparr>super_ok = True, inode_ok = True, root_ok = True\<rparr>"] r show ?thesis
    by (auto simp: vfs_dangling_def)
qed

end
