(* ===== verification/Interrupt_Modules.thy ===== *)
theory Interrupt_Modules
  imports C_Strings
begin

text \<open>
  The two modules of \<open>6-semestr/lab9\<close> that share the interrupt of the keyboard: \<open>queue.c\<close> defers its
  work to a work queue, \<open>tesklet/tasklet.c\<close> to a tasklet. Loading, unloading, the interrupt and the
  deferred work interleave: an interrupt can come between any two steps of the module. An interrupt handler
  is one step.
\<close>

definition IRQ_NUM :: nat where "IRQ_NUM = 1"

section \<open>\<open>queue.c\<close>\<close>

text \<open>
  The source uses the names \<open>SHARED_IRQ\<close> and \<open>irq_call_n\<close> without declaring them; they are taken for
  the declared \<open>IRQ_NUM\<close> and \<open>irq_call_count\<close>. The lines printed to the log are left out, and the counters
  are taken not to reach \<open>2 ^ 31\<close>.

  The two works can run at the same time on two processors, but neither runs twice at the same time. Where a
  work is in \<open>my_wq_function\<close>: \<open>W_Data\<close> is the increment of its \<open>data\<close>, which only it changes, \<open>W_Load\<close> and
  \<open>W_Store\<close> the increment of the shared counter, a load and a store, \<open>W_Sleep\<close> the rest up to the return.
\<close>

definition SHARED_IRQ :: nat where "SHARED_IRQ = IRQ_NUM"

datatype wpc = W_Idle | W_Data | W_Load | W_Store nat | W_Sleep

record qwork =
  w_id :: nat
  w_init :: bool
  w_pending :: bool
  w_at :: wpc
  w_data :: nat

datatype wq_state = Wq_Null | Wq_Live | Wq_Destroyed

datatype qpc =
  Q_Request | Q_Create | Q_Alloc1 | Q_Init1 | Q_Alloc2 | Q_Init2 | Q_Loaded
  | Q_Flush | Q_Destroy | Q_Free_Irq | Q_Kfree | Q_Unloaded | Q_Failed

record qmodule =
  q_at :: qpc
  q_irq :: bool
  wq :: wq_state
  work1 :: "qwork option"
  work2 :: "qwork option"
  irq_call_count :: nat
  q_interrupts :: nat

definition alloc_work :: "nat \<Rightarrow> qwork" where
  "alloc_work n = \<lparr>w_id = n, w_init = False, w_pending = False, w_at = W_Idle, w_data = 0\<rparr>"

definition INIT_WORK :: "qwork \<Rightarrow> qwork" where
  "INIT_WORK w = w\<lparr>w_init := True, w_pending := False\<rparr>"

text \<open>\<open>queue_work\<close> does nothing for work that is already pending.\<close>

definition queue_work :: "wq_state \<Rightarrow> qwork option \<Rightarrow> c_fault + qwork option" where
  "queue_work q w =
     (case w of
        None \<Rightarrow> Inr None
      | Some x \<Rightarrow>
         if \<not> w_init x then Inl Uninitialised
         else (case q of
             Wq_Null \<Rightarrow> Inl Null_Deref
           | Wq_Destroyed \<Rightarrow> Inl Use_After_Free
           | Wq_Live \<Rightarrow> Inr (Some (x\<lparr>w_pending := True\<rparr>))))"

text \<open>\<open>my_interrupt_handler\<close>: whether the interrupt is handled, and the state.\<close>

definition q_interrupt_handler :: "nat \<Rightarrow> qmodule \<Rightarrow> c_fault + (bool \<times> qmodule)" where
  "q_interrupt_handler irq s =
     (if irq = SHARED_IRQ then
        (case queue_work (wq s) (work1 s) of
           Inl e \<Rightarrow> Inl e
         | Inr w1 \<Rightarrow>
            (case queue_work (wq s) (work2 s) of
               Inl e \<Rightarrow> Inl e
             | Inr w2 \<Rightarrow> Inr (True, s\<lparr>work1 := w1, work2 := w2, q_interrupts := Suc (q_interrupts s)\<rparr>)))
      else Inr (False, s))"

text \<open>A work is active while it is pending or running.\<close>

definition active :: "qwork option \<Rightarrow> bool" where
  "active w = (case w of None \<Rightarrow> False | Some x \<Rightarrow> w_pending x \<or> w_at x \<noteq> W_Idle)"

text \<open>\<open>printk_time\<close>: the hours, minutes and seconds of the day it prints for a time since the boot.\<close>

definition printk_time :: "nat \<Rightarrow> nat \<times> nat \<times> nat" where
  "printk_time tv_sec = (tv_sec div 3600 mod 24, tv_sec div 60 mod 60, tv_sec mod 60)"

lemma printk_time_of_day:
  assumes "printk_time t = (h, m, s)"
  shows "h < 24 \<and> m < 60 \<and> s < 60 \<and> 3600 * h + 60 * m + s = t mod 86400"
proof -
  have "t mod (60 * 1440) = 60 * (t div 60 mod 1440) + t mod 60" by (rule mod_mult2_eq)
  moreover have "t div 60 mod (60 * 24) = 60 * (t div 60 div 60 mod 24) + t div 60 mod 60" by (rule mod_mult2_eq)
  moreover have "t div 60 div 60 = t div 3600" by (simp add: div_mult2_eq [symmetric])
  ultimately show ?thesis using assms by (auto simp: printk_time_def)
qed

text \<open>
  The steps of \<open>my_wq_function\<close>: the work queue takes a pending work that is not running and calls the
  function, which goes on statement by statement; \<open>n\<close> is the shared counter.
\<close>

fun work_step :: "qwork \<Rightarrow> nat \<Rightarrow> wpc \<Rightarrow> (qwork \<times> nat) option" where
  "work_step w n W_Idle = (if w_pending w then Some (w\<lparr>w_pending := False, w_at := W_Data\<rparr>, n) else None)"
| "work_step w n W_Data = Some (w\<lparr>w_data := Suc (w_data w), w_at := W_Load\<rparr>, n)"
| "work_step w n W_Load = Some (w\<lparr>w_at := W_Store n\<rparr>, n)"
| "work_step w n (W_Store r) = Some (w\<lparr>w_at := W_Sleep\<rparr>, Suc r)"
| "work_step w n W_Sleep = Some (w\<lparr>w_at := W_Idle\<rparr>, n)"

definition my_wq_function :: "bool \<Rightarrow> qmodule \<Rightarrow> qmodule option" where
  "my_wq_function first s =
     (case (if first then work1 s else work2 s) of
        None \<Rightarrow> None
      | Some w \<Rightarrow>
         (case work_step w (irq_call_count s) (w_at w) of
            None \<Rightarrow> None
          | Some (v, n) \<Rightarrow>
             Some (if first then s\<lparr>work1 := Some v, irq_call_count := n\<rparr>
                   else s\<lparr>work2 := Some v, irq_call_count := n\<rparr>)))"

text \<open>
  The steps of \<open>my_wq_init\<close> and \<open>my_wq_exit\<close>; \<open>ok\<close> tells whether the call succeeds. \<open>flush_workqueue\<close>
  and \<open>destroy_workqueue\<close> return when nothing is pending or running.
\<close>

fun q_advance :: "bool \<Rightarrow> qpc \<Rightarrow> qmodule \<Rightarrow> qmodule option" where
  "q_advance ok Q_Request s = Some (if ok then s\<lparr>q_irq := True, q_at := Q_Create\<rparr> else s\<lparr>q_at := Q_Failed\<rparr>)"
| "q_advance ok Q_Create s =
     Some (if ok then s\<lparr>wq := Wq_Live, q_at := Q_Alloc1\<rparr> else s\<lparr>q_irq := False, q_at := Q_Failed\<rparr>)"
| "q_advance ok Q_Alloc1 s =
     Some (if ok then s\<lparr>work1 := Some (alloc_work 1), q_at := Q_Init1\<rparr> else s\<lparr>q_at := Q_Alloc2\<rparr>)"
| "q_advance ok Q_Init1 s = Some (s\<lparr>work1 := map_option INIT_WORK (work1 s), q_at := Q_Alloc2\<rparr>)"
| "q_advance ok Q_Alloc2 s =
     Some (if ok then s\<lparr>work2 := Some (alloc_work 2), q_at := Q_Init2\<rparr> else s\<lparr>q_at := Q_Loaded\<rparr>)"
| "q_advance ok Q_Init2 s = Some (s\<lparr>work2 := map_option INIT_WORK (work2 s), q_at := Q_Loaded\<rparr>)"
| "q_advance ok Q_Loaded s = Some (s\<lparr>q_at := Q_Flush\<rparr>)"
| "q_advance ok Q_Flush s = (if active (work1 s) \<or> active (work2 s) then None else Some (s\<lparr>q_at := Q_Destroy\<rparr>))"
| "q_advance ok Q_Destroy s =
     (if active (work1 s) \<or> active (work2 s) then None else Some (s\<lparr>wq := Wq_Destroyed, q_at := Q_Free_Irq\<rparr>))"
| "q_advance ok Q_Free_Irq s = Some (s\<lparr>q_irq := False, q_at := Q_Kfree\<rparr>)"
| "q_advance ok Q_Kfree s = Some (s\<lparr>work1 := None, work2 := None, q_at := Q_Unloaded\<rparr>)"
| "q_advance ok Q_Unloaded s = None"
| "q_advance ok Q_Failed s = None"

inductive q_step :: "qmodule \<Rightarrow> qmodule \<Rightarrow> bool" where
  q_moves: "q_advance ok (q_at s) s = Some t \<Longrightarrow> q_step s t"
| q_interrupt: "q_irq s \<Longrightarrow> q_interrupt_handler IRQ_NUM s = Inr (h, t) \<Longrightarrow> q_step s t"
| q_work: "my_wq_function first s = Some t \<Longrightarrow> q_step s t"

text \<open>Runs in which the two works are never in \<open>my_wq_function\<close> at the same time.\<close>

definition in_function :: "qwork option \<Rightarrow> bool" where
  "in_function w = (case w of None \<Rightarrow> False | Some x \<Rightarrow> w_at x \<noteq> W_Idle)"

inductive q_turns :: "qmodule \<Rightarrow> qmodule \<Rightarrow> bool" where
  "q_step s t \<Longrightarrow> \<not> (in_function (work1 t) \<and> in_function (work2 t)) \<Longrightarrow> q_turns s t"

definition q_start :: qmodule where
  "q_start = \<lparr>q_at = Q_Request, q_irq = False, wq = Wq_Null, work1 = None, work2 = None,
     irq_call_count = 0, q_interrupts = 0\<rparr>"

section \<open>What the work queue counts\<close>

definition data_of :: "qwork option \<Rightarrow> nat" where
  "data_of w = (case w of None \<Rightarrow> 0 | Some x \<Rightarrow> w_data x)"

definition ready :: "qwork option \<Rightarrow> bool" where
  "ready w = (case w of None \<Rightarrow> True | Some x \<Rightarrow> w_init x)"

text \<open>
  How often a work has been queued and not yet counted, and how much of what it has counted is not yet in the
  shared counter.
\<close>

fun uncounted :: "wpc \<Rightarrow> nat" where
  "uncounted W_Data = 1" | "uncounted pc = 0"

fun unshared :: "wpc \<Rightarrow> nat" where
  "unshared W_Load = 1" | "unshared (W_Store r) = 1" | "unshared pc = 0"

definition work_bound :: "nat \<Rightarrow> qwork option \<Rightarrow> bool" where
  "work_bound n w =
     (case w of None \<Rightarrow> True | Some x \<Rightarrow> w_data x + (if w_pending x then 1 else 0) + uncounted (w_at x) \<le> n)"

definition shared_of :: "qwork option \<Rightarrow> nat" where
  "shared_of w = (case w of None \<Rightarrow> 0 | Some x \<Rightarrow> w_data x - unshared (w_at x))"

definition unshared_of :: "qwork option \<Rightarrow> nat" where
  "unshared_of w = (case w of None \<Rightarrow> 0 | Some x \<Rightarrow> unshared (w_at x))"

text \<open>What has been loaded is not more than what \<open>n\<close> tells; a work that has counted has data.\<close>

definition loaded_le :: "nat \<Rightarrow> qwork option \<Rightarrow> bool" where
  "loaded_le n w = (case w of None \<Rightarrow> True | Some x \<Rightarrow> unshared (w_at x) \<le> w_data x \<and>
     (case w_at x of W_Store r \<Rightarrow> r \<le> n | _ \<Rightarrow> True))"

definition loaded_eq :: "nat \<Rightarrow> qwork option \<Rightarrow> bool" where
  "loaded_eq n w = (case w of None \<Rightarrow> True | Some x \<Rightarrow> (case w_at x of W_Store r \<Rightarrow> r = n | _ \<Rightarrow> True))"

text \<open>Where the module is determines which objects exist.\<close>

fun q_place :: "qpc \<Rightarrow> qmodule \<Rightarrow> bool" where
  "q_place Q_Request s = (\<not> q_irq s \<and> wq s = Wq_Null \<and> work1 s = None \<and> work2 s = None)"
| "q_place Q_Create s = (q_irq s \<and> wq s = Wq_Null \<and> work1 s = None \<and> work2 s = None)"
| "q_place Q_Alloc1 s = (q_irq s \<and> wq s = Wq_Live \<and> work1 s = None \<and> work2 s = None)"
| "q_place Q_Init1 s = (q_irq s \<and> wq s = Wq_Live \<and> work1 s = Some (alloc_work 1) \<and> work2 s = None)"
| "q_place Q_Alloc2 s = (q_irq s \<and> wq s = Wq_Live \<and> ready (work1 s) \<and> work2 s = None)"
| "q_place Q_Init2 s = (q_irq s \<and> wq s = Wq_Live \<and> ready (work1 s) \<and> work2 s = Some (alloc_work 2))"
| "q_place Q_Loaded s = (q_irq s \<and> wq s = Wq_Live \<and> ready (work1 s) \<and> ready (work2 s))"
| "q_place Q_Flush s = (q_irq s \<and> wq s = Wq_Live \<and> ready (work1 s) \<and> ready (work2 s))"
| "q_place Q_Destroy s = (q_irq s \<and> wq s = Wq_Live \<and> ready (work1 s) \<and> ready (work2 s))"
| "q_place Q_Free_Irq s = (q_irq s \<and> wq s = Wq_Destroyed \<and> ready (work1 s) \<and> ready (work2 s) \<and>
     \<not> active (work1 s) \<and> \<not> active (work2 s))"
| "q_place Q_Kfree s = (\<not> q_irq s \<and> ready (work1 s) \<and> ready (work2 s) \<and> \<not> active (work1 s) \<and> \<not> active (work2 s))"
| "q_place Q_Unloaded s = (\<not> q_irq s \<and> work1 s = None \<and> work2 s = None)"
| "q_place Q_Failed s = (\<not> q_irq s \<and> work1 s = None \<and> work2 s = None)"

definition counter_le :: "qmodule \<Rightarrow> bool" where
  "counter_le s \<longleftrightarrow> (let n = shared_of (work1 s) + shared_of (work2 s) in
     irq_call_count s \<le> n \<and> loaded_le n (work1 s) \<and> loaded_le n (work2 s))"

definition q_inv :: "qmodule \<Rightarrow> bool" where
  "q_inv s \<longleftrightarrow> q_place (q_at s) s \<and> work_bound (q_interrupts s) (work1 s) \<and> work_bound (q_interrupts s) (work2 s) \<and>
     (q_at s \<noteq> Q_Unloaded \<longrightarrow> counter_le s)"

lemma q_simps [simp]:
  "\<not> active None" "active (Some x) = (w_pending x \<or> w_at x \<noteq> W_Idle)" "data_of None = 0" "data_of (Some x) = w_data x"
  "ready None" "ready (Some x) = w_init x" "\<not> in_function None" "in_function (Some x) = (w_at x \<noteq> W_Idle)"
  "\<not> w_pending (alloc_work n)" "\<not> w_init (alloc_work n)" "w_data (alloc_work n) = 0" "w_at (alloc_work n) = W_Idle"
  "w_init (INIT_WORK x)" "\<not> w_pending (INIT_WORK x)" "w_data (INIT_WORK x) = w_data x" "w_at (INIT_WORK x) = w_at x"
  "work_bound n None" "shared_of None = 0" "loaded_le n None" "loaded_eq n None" "unshared_of None = 0"
  "work_bound n (Some x) = (w_data x + (if w_pending x then 1 else 0) + uncounted (w_at x) \<le> n)"
  "shared_of (Some x) = w_data x - unshared (w_at x)" "unshared_of (Some x) = unshared (w_at x)"
  by (simp_all add: active_def data_of_def ready_def in_function_def alloc_work_def INIT_WORK_def work_bound_def shared_of_def
      unshared_of_def loaded_le_def loaded_eq_def)

lemma loaded_simps [simp]:
  "loaded_le n (Some x) = (unshared (w_at x) \<le> w_data x \<and> (case w_at x of W_Store r \<Rightarrow> r \<le> n | _ \<Rightarrow> True))"
  "loaded_eq n (Some x) = (case w_at x of W_Store r \<Rightarrow> r = n | _ \<Rightarrow> True)"
  by (simp_all add: loaded_le_def loaded_eq_def)

lemma q_inv_start: "q_inv q_start"
  by (simp add: q_inv_def q_start_def counter_le_def)

lemma q_inv_advance:
  assumes "q_inv s" "q_advance ok (q_at s) s = Some t" shows "q_inv t"
proof (cases "q_at s")
  case Q_Free_Irq
  then have "t = s\<lparr>q_irq := False, q_at := Q_Kfree\<rparr>" using assms(2) by simp
  with Q_Free_Irq assms(1) show ?thesis by (simp add: q_inv_def counter_le_def)
next
  case Q_Kfree
  then have "t = s\<lparr>work1 := None, work2 := None, q_at := Q_Unloaded\<rparr>" using assms(2) by simp
  with Q_Kfree assms(1) show ?thesis by (simp add: q_inv_def)
qed (use assms in \<open>cases ok; fastforce simp: q_inv_def counter_le_def split: if_splits\<close>)+

lemma queue_work_cases:
  assumes "queue_work q w = Inr v"
  shows "(w = None \<and> v = None) \<or> (\<exists>x. w = Some x \<and> w_init x \<and> q = Wq_Live \<and> v = Some (x\<lparr>w_pending := True\<rparr>))"
  using assms by (auto simp: queue_work_def split: option.splits if_splits wq_state.splits)

lemma handler_step:
  assumes "q_interrupt_handler IRQ_NUM s = Inr (h, t)"
  obtains w1 w2 where "queue_work (wq s) (work1 s) = Inr w1" "queue_work (wq s) (work2 s) = Inr w2"
    "t = s\<lparr>work1 := w1, work2 := w2, q_interrupts := Suc (q_interrupts s)\<rparr>"
  using assms by (auto simp: q_interrupt_handler_def SHARED_IRQ_def split: sum.splits)

lemma q_inv_interrupt:
  assumes inv: "q_inv s" and irq: "q_irq s" and h: "q_interrupt_handler IRQ_NUM s = Inr (h, t)"
  shows "q_inv t"
proof -
  obtain w1 w2 where w: "queue_work (wq s) (work1 s) = Inr w1" "queue_work (wq s) (work2 s) = Inr w2"
    and t: "t = s\<lparr>work1 := w1, work2 := w2, q_interrupts := Suc (q_interrupts s)\<rparr>"
    using h by (rule handler_step)
  from queue_work_cases [OF w(1)] queue_work_cases [OF w(2)] inv irq show ?thesis
    unfolding t by (cases "q_at s") (auto simp: q_inv_def counter_le_def)
qed

text \<open>A step of a work, which is active then.\<close>

lemma function_step:
  assumes "my_wq_function first s = Some t"
  obtains w v n where "(if first then work1 s else work2 s) = Some w" "work_step w (irq_call_count s) (w_at w) = Some (v, n)"
    "t = (if first then s\<lparr>work1 := Some v, irq_call_count := n\<rparr> else s\<lparr>work2 := Some v, irq_call_count := n\<rparr>)"
  using assms unfolding my_wq_function_def by (auto split: option.splits)

lemma work_step_keeps:
  assumes "work_step w n (w_at w) = Some (v, n')"
  shows "active (Some w)" "w_init v = w_init w" "work_bound k (Some w) \<Longrightarrow> work_bound k (Some v)"
  using assms by (cases "w_at w"; auto split: if_splits)+

lemma work_step_counter:
  assumes "work_step w n (w_at w) = Some (v, n')" "n \<le> shared_of (Some w) + c" "loaded_le (shared_of (Some w) + c) (Some w)"
  shows "n' \<le> shared_of (Some v) + c" "loaded_le (shared_of (Some v) + c) (Some v)" "shared_of (Some w) \<le> shared_of (Some v)"
  using assms by (cases "w_at w"; auto split: if_splits)+

lemma loaded_le_mono: "loaded_le m w \<Longrightarrow> m \<le> n \<Longrightarrow> loaded_le n w"
  by (cases w) (auto split: wpc.splits)

lemma q_inv_work:
  assumes inv: "q_inv s" and st: "my_wq_function first s = Some t"
  shows "q_inv t"
proof -
  obtain w v n where w: "(if first then work1 s else work2 s) = Some w" "work_step w (irq_call_count s) (w_at w) = Some (v, n)"
    and t: "t = (if first then s\<lparr>work1 := Some v, irq_call_count := n\<rparr> else s\<lparr>work2 := Some v, irq_call_count := n\<rparr>)"
    using st by (rule function_step)
  note keep = work_step_keeps [OF w(2)]
  have place: "q_place (q_at t) t" using inv w(1) keep(1,2) unfolding t
    by (cases "q_at s"; cases first) (auto simp: q_inv_def)
  have bound: "work_bound (q_interrupts t) (work1 t)" "work_bound (q_interrupts t) (work2 t)"
    using inv w(1) keep(3) by (auto simp: q_inv_def t)
  have "q_at s \<noteq> Q_Unloaded" using inv w(1) by (auto simp: q_inv_def split: if_splits)
  then have c: "counter_le s" using inv by (simp add: q_inv_def)
  have "counter_le t"
  proof (cases first)
    case True
    with c w work_step_counter [OF w(2), of "shared_of (work2 s)"] show ?thesis
      by (auto simp: counter_le_def Let_def t simp del: q_simps loaded_simps intro: loaded_le_mono)
  next
    case False
    with c w work_step_counter [OF w(2), of "shared_of (work1 s)"] show ?thesis
      by (auto simp: counter_le_def Let_def t add.commute simp del: q_simps loaded_simps intro: loaded_le_mono)
  qed
  with place bound show ?thesis by (simp add: q_inv_def)
qed

interpretation queue_module: invariant "\<lambda>s. s = q_start" q_step q_inv
proof unfold_locales
  show "q_inv t" if "q_inv s" "q_step s t" for s t
    using that(2) that(1)
    by cases (auto intro: q_inv_advance q_inv_interrupt q_inv_work)
qed (simp add: q_inv_start)

text \<open>When an interrupt faults.\<close>

lemma queue_work_live: "queue_work Wq_Live w = Inl e \<longleftrightarrow> \<not> ready w \<and> e = Uninitialised"
  by (cases w) (auto simp: queue_work_def)

lemma queue_work_none [simp]: "queue_work q None = Inr None"
  by (simp add: queue_work_def)

lemma queue_work_destroyed: "ready w \<Longrightarrow> queue_work Wq_Destroyed w = (if w = None then Inr None else Inl Use_After_Free)"
  by (cases w) (auto simp: queue_work_def)

lemma handler_live:
  assumes "wq s = Wq_Live"
  shows "(\<exists>e. q_interrupt_handler IRQ_NUM s = Inl e) \<longleftrightarrow> \<not> ready (work1 s) \<or> \<not> ready (work2 s)"
proof -
  have "\<exists>e. queue_work Wq_Live w = (if ready w then Inr e else Inl Uninitialised)" for w
    using queue_work_live [of w] by (cases "queue_work Wq_Live w") auto
  then obtain v1 v2 where "queue_work Wq_Live (work1 s) = (if ready (work1 s) then Inr v1 else Inl Uninitialised)"
    "queue_work Wq_Live (work2 s) = (if ready (work2 s) then Inr v2 else Inl Uninitialised)" by metis
  with assms show ?thesis by (auto simp: q_interrupt_handler_def SHARED_IRQ_def)
qed

lemma handler_destroyed:
  assumes "wq s = Wq_Destroyed" "ready (work1 s)" "ready (work2 s)"
  shows "(\<exists>e. q_interrupt_handler IRQ_NUM s = Inl e) \<longleftrightarrow> work1 s \<noteq> None \<or> work2 s \<noteq> None"
  using assms by (auto simp: q_interrupt_handler_def SHARED_IRQ_def queue_work_destroyed)

lemma handler_fault_iff:
  assumes "q_inv s"
  shows "(q_irq s \<and> (\<exists>e. q_interrupt_handler IRQ_NUM s = Inl e)) \<longleftrightarrow>
    q_at s \<in> {Q_Init1, Q_Init2} \<or> q_at s = Q_Free_Irq \<and> (work1 s \<noteq> None \<or> work2 s \<noteq> None)"
proof (cases "wq s = Wq_Live")
  case True
  with assms show ?thesis using handler_live [OF True]
    by (cases "q_at s") (auto simp: q_inv_def)
next
  case False
  show ?thesis
  proof (cases "q_at s = Q_Free_Irq")
    case True
    with assms show ?thesis using handler_destroyed [of s] by (auto simp: q_inv_def)
  next
    case no: False
    with assms False show ?thesis
      by (cases "q_at s") (auto simp: q_inv_def q_interrupt_handler_def SHARED_IRQ_def)
  qed
qed

text \<open>When the works take turns, the counter is what the two have counted and shared.\<close>

definition turns_inv :: "qmodule \<Rightarrow> bool" where
  "turns_inv s \<longleftrightarrow> q_inv s \<and> \<not> (in_function (work1 s) \<and> in_function (work2 s)) \<and>
     (q_at s \<noteq> Q_Unloaded \<longrightarrow> irq_call_count s = shared_of (work1 s) + shared_of (work2 s) \<and>
        loaded_eq (irq_call_count s) (work1 s) \<and> loaded_eq (irq_call_count s) (work2 s))"

lemma turn_advance:
  assumes "turns_inv s" "q_advance ok (q_at s) s = Some t" "q_at t \<noteq> Q_Unloaded"
  shows "irq_call_count t = shared_of (work1 t) + shared_of (work2 t) \<and>
    loaded_eq (irq_call_count t) (work1 t) \<and> loaded_eq (irq_call_count t) (work2 t)"
proof -
  have "q_at s \<noteq> Q_Unloaded" using assms(2) by auto
  then have c: "irq_call_count s = shared_of (work1 s) + shared_of (work2 s)"
    "loaded_eq (irq_call_count s) (work1 s)" "loaded_eq (irq_call_count s) (work2 s)" and place: "q_place (q_at s) s"
    using assms(1) unfolding turns_inv_def q_inv_def by blast+
  then show ?thesis using assms(2,3) by (cases "q_at s") (auto split: if_splits)
qed

lemma queue_work_keeps:
  assumes "queue_work q w = Inr v" shows "shared_of v = shared_of w" "loaded_eq n v = loaded_eq n w"
  using queue_work_cases [OF assms] by auto

lemma turn_interrupt:
  assumes inv: "turns_inv s" and h: "q_interrupt_handler IRQ_NUM s = Inr (h, t)" and at: "q_at t \<noteq> Q_Unloaded"
  shows "irq_call_count t = shared_of (work1 t) + shared_of (work2 t) \<and>
    loaded_eq (irq_call_count t) (work1 t) \<and> loaded_eq (irq_call_count t) (work2 t)"
proof -
  obtain w1 w2 where w: "queue_work (wq s) (work1 s) = Inr w1" "queue_work (wq s) (work2 s) = Inr w2"
    and t: "t = s\<lparr>work1 := w1, work2 := w2, q_interrupts := Suc (q_interrupts s)\<rparr>"
    using h by (rule handler_step)
  have "q_at s \<noteq> Q_Unloaded" using at by (simp add: t)
  then have "irq_call_count s = shared_of (work1 s) + shared_of (work2 s)"
    "loaded_eq (irq_call_count s) (work1 s)" "loaded_eq (irq_call_count s) (work2 s)"
    using inv unfolding turns_inv_def by blast+
  then show ?thesis using queue_work_keeps [OF w(1)] queue_work_keeps [OF w(2)] by (simp add: t)
qed

lemma work_step_turn:
  assumes "work_step w n (w_at w) = Some (v, n')" "n = shared_of (Some w) + c" "loaded_eq n (Some w)" "unshared (w_at w) \<le> w_data w"
  shows "n' = shared_of (Some v) + c \<and> loaded_eq n' (Some v) \<and> (\<not> in_function (Some v) \<longrightarrow> n' = n)"
  using assms by (cases "w_at w") (auto split: if_splits)

lemma loaded_eq_idle: "\<not> in_function w \<Longrightarrow> loaded_eq n w"
  by (cases w) auto

lemma turn_work:
  assumes inv: "turns_inv s" and st: "my_wq_function first s = Some t"
    and alone: "\<not> (in_function (work1 t) \<and> in_function (work2 t))"
  shows "irq_call_count t = shared_of (work1 t) + shared_of (work2 t) \<and>
    loaded_eq (irq_call_count t) (work1 t) \<and> loaded_eq (irq_call_count t) (work2 t)"
proof -
  obtain w v n where w: "(if first then work1 s else work2 s) = Some w" "work_step w (irq_call_count s) (w_at w) = Some (v, n)"
    and t: "t = (if first then s\<lparr>work1 := Some v, irq_call_count := n\<rparr> else s\<lparr>work2 := Some v, irq_call_count := n\<rparr>)"
    using st by (rule function_step)
  have "q_at s \<noteq> Q_Unloaded" using inv w(1) by (auto simp: turns_inv_def q_inv_def split: if_splits)
  then have c: "irq_call_count s = shared_of (work1 s) + shared_of (work2 s)"
    "loaded_eq (irq_call_count s) (work1 s)" "loaded_eq (irq_call_count s) (work2 s)" "unshared (w_at w) \<le> w_data w"
    using inv w(1) by (auto simp: turns_inv_def q_inv_def counter_le_def Let_def split: if_splits)
  let ?other = "if first then work2 s else work1 s"
  have v: "n = shared_of (Some v) + shared_of ?other \<and> loaded_eq n (Some v) \<and> (\<not> in_function (Some v) \<longrightarrow> n = irq_call_count s)"
  proof (rule work_step_turn [OF w(2)])
    show "irq_call_count s = shared_of (Some w) + shared_of ?other" using c(1) w(1) by (cases first) (simp_all del: q_simps)
    show "loaded_eq (irq_call_count s) (Some w)" using c(2,3) w(1) by (cases first) (simp_all del: q_simps loaded_simps)
  qed (rule c(4))
  have "loaded_eq n ?other"
  proof (cases "in_function (Some v)")
    case True
    then have "\<not> in_function ?other" using alone by (auto simp: t split: if_splits)
    then show ?thesis by (rule loaded_eq_idle)
  next
    case False
    with v c(2,3) show ?thesis by auto
  qed
  moreover from v have "n = shared_of ?other + shared_of (Some v)" by (simp only: add.commute)
  moreover have "irq_call_count t = n" "(if first then work1 t else work2 t) = Some v"
    "(if first then work2 t else work1 t) = ?other" by (simp_all add: t)
  ultimately show ?thesis using v by (cases first) (simp_all only: if_True if_False; metis)+
qed

interpretation turns_module: invariant "\<lambda>s. s = q_start" q_turns turns_inv
proof unfold_locales
  show "turns_inv t" if inv: "turns_inv s" and st: "q_turns s t" for s t
  proof -
    from st have q: "q_step s t" "\<not> (in_function (work1 t) \<and> in_function (work2 t))" by (auto elim: q_turns.cases)
    have "q_inv t" using queue_module.inv_step [OF _ q(1)] inv by (simp add: turns_inv_def)
    moreover have "irq_call_count t = shared_of (work1 t) + shared_of (work2 t) \<and>
        loaded_eq (irq_call_count t) (work1 t) \<and> loaded_eq (irq_call_count t) (work2 t)" if "q_at t \<noteq> Q_Unloaded"
      using q(1)
    proof cases
      case (q_moves ok)
      then show ?thesis using turn_advance [OF inv _ that] by blast
    next
      case (q_interrupt h)
      then show ?thesis using turn_interrupt [OF inv _ that] by blast
    next
      case (q_work first)
      then show ?thesis using turn_work [OF inv _ q(2)] by blast
    qed
    ultimately show ?thesis using q(2) unfolding turns_inv_def by blast
  qed
qed (simp add: turns_inv_def q_inv_start, simp add: q_start_def)

text \<open>Schedules: a step of the module with its outcome, an interrupt, or a step of a work; executable.\<close>

datatype q_choice = Q_Move bool | Q_Interrupt | Q_Work bool

fun q_sched :: "q_choice list \<Rightarrow> qmodule \<Rightarrow> qmodule option" where
  "q_sched [] s = Some s"
| "q_sched (Q_Move ok # cs) s = (case q_advance ok (q_at s) s of None \<Rightarrow> None | Some t \<Rightarrow> q_sched cs t)"
| "q_sched (Q_Interrupt # cs) s =
     (if q_irq s then (case q_interrupt_handler IRQ_NUM s of Inl e \<Rightarrow> None | Inr (h, t) \<Rightarrow> q_sched cs t) else None)"
| "q_sched (Q_Work first # cs) s = (case my_wq_function first s of None \<Rightarrow> None | Some t \<Rightarrow> q_sched cs t)"

lemma q_sched_reachable:
  "q_sched cs s = Some t \<Longrightarrow> reachable ini q_step s \<Longrightarrow> reachable ini q_step t"
proof (induction cs s rule: q_sched.induct)
  case (2 ok cs s)
  then obtain u where "q_advance ok (q_at s) s = Some u" "q_sched cs u = Some t" by (auto split: option.splits)
  with 2 show ?case by (blast intro: reach_step q_moves)
next
  case (3 cs s)
  then obtain h u where "q_irq s" "q_interrupt_handler IRQ_NUM s = Inr (h, u)" "q_sched cs u = Some t"
    by (auto split: sum.splits if_splits)
  with 3 show ?case by (blast intro: reach_step q_interrupt)
next
  case (4 first cs s)
  then obtain u where "my_wq_function first s = Some u" "q_sched cs u = Some t" by (auto split: option.splits)
  with 4 show ?case by (blast intro: reach_step q_work)
qed simp

text \<open>One interrupt starts both works on two processors; both load the counter before either stores it.\<close>

definition lost_run :: "q_choice list" where
  "lost_run = replicate 6 (Q_Move True) @ Q_Interrupt # map Q_Work [True, False, True, False, True, False, True, False, True, False]"

lemma lost_update:
  "\<exists>s. reachable (\<lambda>s. s = q_start) q_step s \<and> \<not> active (work1 s) \<and> \<not> active (work2 s) \<and>
     irq_call_count s = 1 \<and> data_of (work1 s) = 1 \<and> data_of (work2 s) = 1"
proof -
  have "\<exists>s. q_sched lost_run q_start = Some s \<and> \<not> active (work1 s) \<and> \<not> active (work2 s) \<and>
     irq_call_count s = 1 \<and> data_of (work1 s) = 1 \<and> data_of (work2 s) = 1"
    by (simp add: lost_run_def q_start_def numeral_eq_Suc q_interrupt_handler_def SHARED_IRQ_def queue_work_def
        my_wq_function_def alloc_work_def INIT_WORK_def)
  then obtain s where s: "q_sched lost_run q_start = Some s" "\<not> active (work1 s)" "\<not> active (work2 s)"
    "irq_call_count s = 1" "data_of (work1 s) = 1" "data_of (work2 s) = 1" by blast
  have "reachable (\<lambda>s. s = q_start) q_step s"
    by (rule q_sched_reachable [OF s(1)]) (rule reach_init, rule refl)
  with s show ?thesis by blast
qed

lemma data_shared: "loaded_le n w \<Longrightarrow> data_of w = shared_of w + unshared_of w"
  by (cases w) auto

text \<open>C38: the counters of \<open>queue.c\<close>. In every interleaving of loading, unloading, interrupts and the two works,
  each work counts at most one per interrupt, and the shared counter is never more than the sum of what the two
  works have counted. It is that sum, but for increments under way, as long as the works are never in
  \<open>my_wq_function\<close> at the same time; otherwise an increment can be lost for good. An
  interrupt faults exactly between the allocation and the initialisation of a
  work, and during unloading between \<open>destroy_workqueue\<close> and \<open>free_irq\<close> if there is a work.\<close>

theorem queue_interrupts:
  assumes "reachable (\<lambda>s. s = q_start) q_step s"
  shows "data_of (work1 s) \<le> q_interrupts s \<and> data_of (work2 s) \<le> q_interrupts s \<and>
    (q_at s \<noteq> Q_Unloaded \<longrightarrow> irq_call_count s \<le> data_of (work1 s) + data_of (work2 s)) \<and>
    (reachable (\<lambda>s. s = q_start) q_turns s \<and> q_at s \<noteq> Q_Unloaded \<longrightarrow>
       irq_call_count s + unshared_of (work1 s) + unshared_of (work2 s) = data_of (work1 s) + data_of (work2 s)) \<and>
    (\<exists>t. reachable (\<lambda>s. s = q_start) q_step t \<and> \<not> active (work1 t) \<and> \<not> active (work2 t) \<and>
       irq_call_count t < data_of (work1 t) + data_of (work2 t)) \<and>
    ((q_irq s \<and> (\<exists>e. q_interrupt_handler IRQ_NUM s = Inl e)) \<longleftrightarrow>
      q_at s \<in> {Q_Init1, Q_Init2} \<or> q_at s = Q_Free_Irq \<and> (work1 s \<noteq> None \<or> work2 s \<noteq> None))"
proof (intro conjI impI)
  have inv: "q_inv s" using assms by (rule queue_module.reachable_inv)
  have bound: "data_of w \<le> n" if "work_bound n w" for n w using that by (cases w) auto
  show "data_of (work1 s) \<le> q_interrupts s" "data_of (work2 s) \<le> q_interrupts s"
    using inv bound by (auto simp: q_inv_def)
  show "(q_irq s \<and> (\<exists>e. q_interrupt_handler IRQ_NUM s = Inl e)) \<longleftrightarrow>
      q_at s \<in> {Q_Init1, Q_Init2} \<or> q_at s = Q_Free_Irq \<and> (work1 s \<noteq> None \<or> work2 s \<noteq> None)"
    by (rule handler_fault_iff [OF inv])
  show "\<exists>t. reachable (\<lambda>s. s = q_start) q_step t \<and> \<not> active (work1 t) \<and> \<not> active (work2 t) \<and>
       irq_call_count t < data_of (work1 t) + data_of (work2 t)" using lost_update by fastforce
  have le: "irq_call_count s \<le> shared_of (work1 s) + shared_of (work2 s)"
    "data_of (work1 s) = shared_of (work1 s) + unshared_of (work1 s)"
    "data_of (work2 s) = shared_of (work2 s) + unshared_of (work2 s)" if "q_at s \<noteq> Q_Unloaded"
    using inv that data_shared by (auto simp: q_inv_def counter_le_def Let_def)
  show "irq_call_count s \<le> data_of (work1 s) + data_of (work2 s)" if "q_at s \<noteq> Q_Unloaded"
    using le [OF that] by simp
  show "irq_call_count s + unshared_of (work1 s) + unshared_of (work2 s) = data_of (work1 s) + data_of (work2 s)"
    if "reachable (\<lambda>s. s = q_start) q_turns s \<and> q_at s \<noteq> Q_Unloaded"
    using le that turns_module.reachable_inv [of s] by (simp add: turns_inv_def)
qed

text \<open>A run to the window of the unloading.\<close>

definition q_window :: qmodule where
  "q_window = \<lparr>q_at = Q_Free_Irq, q_irq = True, wq = Wq_Destroyed, work1 = Some (INIT_WORK (alloc_work 1)),
     work2 = Some (INIT_WORK (alloc_work 2)), irq_call_count = 0, q_interrupts = 0\<rparr>"

lemma q_window_run: "q_sched (replicate 9 (Q_Move True)) q_start = Some q_window"
  by (simp add: q_start_def q_window_def numeral_eq_Suc)

theorem queue_interrupts_witness:
  "reachable (\<lambda>s. s = q_start) q_step q_window \<and> (\<exists>e. q_interrupt_handler IRQ_NUM q_window = Inl e)"
proof -
  have r: "reachable (\<lambda>s. s = q_start) q_step q_window"
    by (rule q_sched_reachable [OF q_window_run]) (rule reach_init, rule refl)
  from queue_interrupts [OF r] have "q_interrupt_handler IRQ_NUM q_window \<noteq> Inr t" for t
    by (auto simp: q_window_def)
  then have "\<exists>e. q_interrupt_handler IRQ_NUM q_window = Inl e" by (cases "q_interrupt_handler IRQ_NUM q_window") auto
  with r show ?thesis by blast
qed

section \<open>\<open>tasklet.c\<close>\<close>

datatype tpc = T_Proc | T_Request | T_Loaded | T_Kill | T_Free_Irq | T_Remove | T_Unloaded | T_Failed

text \<open>The life of the module goes through these places in their order.\<close>

primrec phase :: "tpc \<Rightarrow> nat" where
  "phase T_Proc = 0" | "phase T_Request = 1" | "phase T_Loaded = 2" | "phase T_Kill = 3"
| "phase T_Free_Irq = 4" | "phase T_Remove = 5" | "phase T_Unloaded = 6" | "phase T_Failed = 7"

lemma phase_inject: "phase x = phase y \<Longrightarrow> x = y"
  by (cases x; cases y) simp_all

instantiation tpc :: linorder
begin

definition less_eq_tpc :: "tpc \<Rightarrow> tpc \<Rightarrow> bool" where
  "x \<le> y \<longleftrightarrow> phase x \<le> phase y"

definition less_tpc :: "tpc \<Rightarrow> tpc \<Rightarrow> bool" where
  "x < y \<longleftrightarrow> phase x < phase y"

instance
  by standard (auto simp: less_eq_tpc_def less_tpc_def intro: phase_inject)

end

lemmas phase_order = less_eq_tpc_def less_tpc_def

text \<open>\<open>t_sched\<close> and \<open>t_run\<close> are the bits 0 and 1 of \<open>my_tasklet.state\<close>.\<close>

record tmodule =
  t_at :: tpc
  proc_file :: bool
  t_irq :: bool
  t_sched :: bool
  t_run :: bool
  t_handled :: nat
  t_interrupts :: nat

definition my_tasklet_data :: nat where "my_tasklet_data = 123456"

fun t_advance :: "bool \<Rightarrow> tpc \<Rightarrow> tmodule \<Rightarrow> tmodule option" where
  "t_advance ok T_Proc s = Some (if ok then s\<lparr>proc_file := True, t_at := T_Request\<rparr> else s\<lparr>t_at := T_Failed\<rparr>)"
| "t_advance ok T_Request s = Some (if ok then s\<lparr>t_irq := True, t_at := T_Loaded\<rparr> else s\<lparr>t_at := T_Failed\<rparr>)"
| "t_advance ok T_Loaded s = Some (s\<lparr>t_at := T_Kill\<rparr>)"
| "t_advance ok T_Kill s = (if t_sched s \<or> t_run s then None else Some (s\<lparr>t_at := T_Free_Irq\<rparr>))"
| "t_advance ok T_Free_Irq s = Some (s\<lparr>t_irq := False, t_at := T_Remove\<rparr>)"
| "t_advance ok T_Remove s = Some (s\<lparr>proc_file := False, t_at := T_Unloaded\<rparr>)"
| "t_advance ok T_Unloaded s = None"
| "t_advance ok T_Failed s = None"

text \<open>The bits of \<open>my_tasklet.state\<close>, and a line of the log about the tasklet, whose \<open>count\<close> is never changed.\<close>

definition tasklet_state :: "tmodule \<Rightarrow> nat" where
  "tasklet_state s = (if t_sched s then 1 else 0) + (if t_run s then 2 else 0)"

definition printk_tasklet_info :: "string \<Rightarrow> tmodule \<Rightarrow> char list" where
  "printk_tasklet_info prefix s =
     ''/my_tasklet/ '' @ prefix @ '' -state: '' @ decimal (tasklet_state s) @ '', count: '' @ decimal 0 @
     '', data: '' @ decimal my_tasklet_data"

text \<open>
  \<open>my_interrupt_handler\<close>: what it logs, whether it handles the interrupt, and the state; a tasklet that is
  already scheduled is not scheduled again.
\<close>

definition t_interrupt_handler :: "tmodule \<Rightarrow> tmodule" where
  "t_interrupt_handler s = s\<lparr>t_sched := True, t_interrupts := Suc (t_interrupts s)\<rparr>"

definition my_interrupt_handler :: "nat \<Rightarrow> tmodule \<Rightarrow> char list list \<times> bool \<times> tmodule" where
  "my_interrupt_handler irq s =
     (if irq = IRQ_NUM
      then ([''/my_tasklet/ Called my_interrupt_handler'',
             printk_tasklet_info ''In interrupt handler'' (t_interrupt_handler s),
             ''/my_tasklet/ Tasklet scheduled''], True, t_interrupt_handler s)
      else ([''/my_tasklet/ Called my_interrupt_handler''], False, s))"

lemma handler_state: "my_interrupt_handler IRQ_NUM s = (lines, handled, t) \<Longrightarrow> t = t_interrupt_handler s"
  unfolding my_interrupt_handler_def if_P [OF refl] prod.inject by (erule conjE)+ (erule sym)

text \<open>
  The kernel runs \<open>my_tasklet_handler\<close>: the bit of the schedule is cleared first. The code of a module
  that is not in the kernel any more cannot be run, nor can its file be opened.
\<close>

definition t_gone :: "tmodule \<Rightarrow> bool" where
  "t_gone s \<longleftrightarrow> t_at s = T_Unloaded \<or> t_at s = T_Failed"

definition my_tasklet_handler :: "tmodule \<Rightarrow> c_fault + tmodule" where
  "my_tasklet_handler s =
     (if t_gone s then Inl Use_After_Free
      else Inr (s\<lparr>t_sched := False, t_run := True, t_handled := Suc (t_handled s)\<rparr>))"

definition my_tasklet_show :: "tmodule \<Rightarrow> char list" where
  "my_tasklet_show s =
     ''state: '' @ decimal (tasklet_state s) @ [CHR 0x0A] @
     ''count: '' @ decimal 0 @ [CHR 0x0A] @ ''data: '' @ decimal my_tasklet_data @ [CHR 0x0A]"

definition my_tasklet_open :: "tmodule \<Rightarrow> c_fault + char list option" where
  "my_tasklet_open s =
     (if \<not> proc_file s then Inr None
      else if t_gone s then Inl Use_After_Free
      else Inr (Some (my_tasklet_show s)))"

inductive t_step :: "tmodule \<Rightarrow> tmodule \<Rightarrow> bool" where
  t_moves: "t_advance ok (t_at s) s = Some t \<Longrightarrow> t_step s t"
| t_interrupt: "t_irq s \<Longrightarrow> my_interrupt_handler IRQ_NUM s = (lines, handled, t) \<Longrightarrow> t_step s t"
| t_starts: "t_sched s \<Longrightarrow> \<not> t_run s \<Longrightarrow> my_tasklet_handler s = Inr t \<Longrightarrow> t_step s t"
| t_returns: "t_run s \<Longrightarrow> t_step s (s\<lparr>t_run := False\<rparr>)"

definition t_start :: tmodule where
  "t_start = \<lparr>t_at = T_Proc, proc_file = False, t_irq = False, t_sched = False, t_run = False,
     t_handled = 0, t_interrupts = 0\<rparr>"

definition t_inv :: "tmodule \<Rightarrow> bool" where
  "t_inv s \<longleftrightarrow>
     t_handled s + (if t_sched s then 1 else 0) \<le> t_interrupts s \<and>
     (t_irq s \<longleftrightarrow> t_at s \<in> {T_Loaded..T_Free_Irq}) \<and>
     (t_at s \<in> {T_Request..T_Remove} \<longrightarrow> proc_file s)"

fun_cases t_advanceE: "t_advance ok pc s = Some t"

lemma t_inv_advance:
  assumes "t_inv s" "t_advance ok (t_at s) s = Some t" shows "t_inv t"
  using assms(2,1) by (elim t_advanceE) (auto simp: t_inv_def phase_order split: if_splits)

interpretation tasklet_module: invariant "\<lambda>s. s = t_start" t_step t_inv
proof unfold_locales
  show "t_inv t" if "t_inv s" "t_step s t" for s t
    using that(2) that(1)
  proof cases
    case (t_moves ok)
    with that(1) show ?thesis by (blast intro: t_inv_advance)
  next
    case t_interrupt
    with that(1) handler_state [OF t_interrupt(2)] show ?thesis by (simp add: t_inv_def t_interrupt_handler_def)
  next
    case t_starts
    then have "t = s\<lparr>t_sched := False, t_run := True, t_handled := Suc (t_handled s)\<rparr>"
      by (simp add: my_tasklet_handler_def split: if_splits)
    with t_starts(1) that(1) show ?thesis by (simp add: t_inv_def)
  next
    case t_returns
    with that(1) show ?thesis by (simp add: t_inv_def)
  qed
qed (simp add: t_inv_def t_start_def phase_order)

text \<open>The module never goes back to an earlier place.\<close>

lemma t_step_phase:
  assumes "t_step s t" shows "t_at s \<le> t_at t"
  using assms
proof cases
  case (t_moves ok)
  then show ?thesis by (elim t_advanceE) (auto simp: phase_order split: if_splits)
next
  case t_interrupt
  then show ?thesis using handler_state [OF t_interrupt(2)] by (simp add: t_interrupt_handler_def)
qed (auto simp: my_tasklet_handler_def split: if_splits)

text \<open>The handler never runs more often than there were interrupts.\<close>

lemma tasklet_handled: "reachable (\<lambda>s. s = t_start) t_step s \<Longrightarrow> t_handled s \<le> t_interrupts s"
  using tasklet_module.reachable_inv by (force simp: t_inv_def)

text \<open>
  An interrupt between \<open>tasklet_kill\<close> and \<open>free_irq\<close> schedules the tasklet of a module that is then
  removed; after a failed \<open>request_irq\<close> the file of the removed module stays in \<open>/proc\<close>.
\<close>

datatype t_choice = Move bool | Interrupt

fun t_sched_run :: "t_choice list \<Rightarrow> tmodule \<Rightarrow> tmodule option" where
  "t_sched_run [] s = Some s"
| "t_sched_run (Move ok # cs) s = (case t_advance ok (t_at s) s of None \<Rightarrow> None | Some t \<Rightarrow> t_sched_run cs t)"
| "t_sched_run (Interrupt # cs) s = (if t_irq s then t_sched_run cs (t_interrupt_handler s) else None)"

lemma interrupt_step: "t_irq s \<Longrightarrow> t_step s (t_interrupt_handler s)"
  by (rule t_interrupt [of s], assumption) (simp only: my_interrupt_handler_def refl if_True)

lemma t_sched_reachable:
  "t_sched_run cs s = Some t \<Longrightarrow> reachable ini t_step s \<Longrightarrow> reachable ini t_step t"
proof (induction cs s rule: t_sched_run.induct)
  case (2 ok cs s)
  then obtain u where u: "t_advance ok (t_at s) s = Some u" "t_sched_run cs u = Some t" by (auto split: option.splits)
  then have "reachable ini t_step u" using "2.prems"(2) by (blast intro: reach_step t_moves)
  with 2 u show ?case by blast
next
  case (3 cs s)
  then have "t_irq s" "t_sched_run cs (t_interrupt_handler s) = Some t" by (auto split: if_splits)
  moreover from this 3 have "reachable ini t_step (t_interrupt_handler s)" using interrupt_step by (blast intro: reach_step)
  ultimately show ?case using 3 by blast
qed simp

lemma tasklet_after_unload:
  "\<exists>s. reachable (\<lambda>s. s = t_start) t_step s \<and> t_sched s \<and> my_tasklet_handler s = Inl Use_After_Free"
proof -
  have "\<exists>s. t_sched_run [Move True, Move True, Move True, Move True, Interrupt, Move True, Move True] t_start = Some s \<and>
      t_sched s \<and> my_tasklet_handler s = Inl Use_After_Free"
    by (simp add: t_start_def t_interrupt_handler_def my_tasklet_handler_def t_gone_def)
  then obtain s where s: "t_sched_run [Move True, Move True, Move True, Move True, Interrupt, Move True, Move True] t_start = Some s"
    "t_sched s" "my_tasklet_handler s = Inl Use_After_Free" by blast
  have "reachable (\<lambda>s. s = t_start) t_step s"
    by (rule t_sched_reachable [OF s(1)]) (rule reach_init, rule refl)
  with s(2,3) show ?thesis by blast
qed

lemma tasklet_file_left:
  "\<exists>s. reachable (\<lambda>s. s = t_start) t_step s \<and> my_tasklet_open s = Inl Use_After_Free"
proof -
  have "\<exists>s. t_sched_run [Move True, Move False] t_start = Some s \<and> my_tasklet_open s = Inl Use_After_Free"
    by (simp add: t_start_def my_tasklet_open_def t_gone_def)
  then obtain s where s: "t_sched_run [Move True, Move False] t_start = Some s"
    "my_tasklet_open s = Inl Use_After_Free" by blast
  have "reachable (\<lambda>s. s = t_start) t_step s"
    by (rule t_sched_reachable [OF s(1)]) (rule reach_init, rule refl)
  with s(2) show ?thesis by blast
qed

end
