(* ===== verification/Datagrams.thy ===== *)
theory Datagrams
  imports C_Strings
begin

text \<open>
  The datagram server and client of \<open>6-semestr/lab6/part_01\<close>: the client sends each word it reads to
  the socket \<open>socket.soc\<close>, the server prints what it receives. The bytes on their stacks, the input and
  the results of the system calls are parameters.
\<close>

section \<open>\<open>client.c\<close>\<close>

definition DGRAM_BUFFER :: nat where "DGRAM_BUFFER = 100"

definition is_space :: "char \<Rightarrow> bool" where
  "is_space c \<longleftrightarrow> c = CHR '' '' \<or> (9 \<le> (of_char c :: nat) \<and> (of_char c :: nat) \<le> 13)"

text \<open>\<open>scanf ("%s", message)\<close>: the next word and the rest of the input; \<open>None\<close> at its end.\<close>

definition scan_word :: "char list \<Rightarrow> (char list \<times> char list) option" where
  "scan_word inp =
     (let t = dropWhile is_space inp in
      if t = [] then None else Some (takeWhile (\<lambda>c. \<not> is_space c) t, dropWhile (\<lambda>c. \<not> is_space c) t))"

record dclient =
  typed_message :: "char list"
  stdin :: "char list"
  stdout :: "char list"

definition newline :: char where "newline = CHR 0x0A"

text \<open>
  One turn of the loop: the datagram sent and the next state. The result of \<open>scanf\<close> is not looked at:
  at the end of the input the last message is sent again.
\<close>

definition client_turn :: "nat \<Rightarrow> dclient \<Rightarrow> c_fault + (char list \<times> dclient)" where
  "client_turn pid s =
     (case (case scan_word (stdin s) of
              None \<Rightarrow> Inr (typed_message s, stdin s)
            | Some (w, r) \<Rightarrow> map_sum (\<lambda>x. x) (\<lambda>m. (m, r)) (store_block (typed_message s) 0 (w @ [nul]))) of
        Inl e \<Rightarrow> Inl e
      | Inr (m, r) \<Rightarrow>
         (case c_strlen m of
            Inl e \<Rightarrow> Inl e
          | Inr n \<Rightarrow> Inr (take n m, s\<lparr>typed_message := m, stdin := r,
              stdout := stdout s @ ''Type message: PID: ['' @ decimal pid @ ''] : '' @ take n m @ [newline]\<rparr>)))"

fun client_turns :: "nat \<Rightarrow> nat \<Rightarrow> dclient \<Rightarrow> c_fault + (char list list \<times> dclient)" where
  "client_turns pid 0 s = Inr ([], s)"
| "client_turns pid (Suc n) s =
     (case client_turn pid s of
        Inl e \<Rightarrow> Inl e
      | Inr (d, t) \<Rightarrow>
         (case client_turns pid n t of
            Inl e \<Rightarrow> Inl e
          | Inr (ds, u) \<Rightarrow> Inr (d # ds, u)))"

section \<open>\<open>server.c\<close>\<close>

text \<open>
  How the server stops: a write outside its buffer, or an error of \<open>recvfrom\<close>, whose number \<open>main\<close> returns.
  \<open>recvfrom\<close> is a parameter of each turn, an error or a datagram: it can fail for reasons of the network, and
  because \<open>recv_len\<close>, which is never given a value, may be refused with \<open>EINVAL\<close>.
\<close>

datatype dgram_stop = Dgram_Fault c_fault | Dgram_Error int

text \<open>
  One turn of the server: \<open>recvfrom\<close> cuts a datagram off at the size of the buffer, and its result is
  used as the index of the zero byte.
\<close>

definition recv_turn :: "char list \<Rightarrow> int + char list \<Rightarrow> dgram_stop + (char list \<times> char list)" where
  "recv_turn buf received =
     (case received of
        Inl errno \<Rightarrow> Inl (Dgram_Error errno)
      | Inr d \<Rightarrow>
         (let r = take DGRAM_BUFFER d in
          case store (r @ drop (length r) buf) (int (length r)) nul of
            Inl e \<Rightarrow> Inl (Dgram_Fault e)
          | Inr b \<Rightarrow> Inr (newline # c_str b, b)))"

text \<open>The lines printed, and how the server has stopped, if it has, before it waits again.\<close>

fun recv_turns :: "(int + char list) list \<Rightarrow> char list \<Rightarrow> char list \<times> dgram_stop option" where
  "recv_turns [] buf = ([], None)"
| "recv_turns (d # ds) buf =
     (case recv_turn buf d of
        Inl e \<Rightarrow> ([], Some e)
      | Inr (out, b) \<Rightarrow> (case recv_turns ds b of (rest, st) \<Rightarrow> (out @ rest, st)))"

text \<open>
  The start of \<open>main\<close>: the result of \<open>bind\<close> is judged by \<open>errno\<close>, which a successful call need not clear.
  \<open>close_app\<close>, the handler of SIGINT, gives the code the server exits with.
\<close>

record dserver_env =
  socket_fd :: int
  bind_errno :: int
  errno_before :: int
  close_gives :: int
  unlink_gives :: int
  errno_after :: int

definition dgram_server_start :: "dserver_env \<Rightarrow> int option" where
  "dgram_server_start e =
     (if socket_fd e < 0 then Some (errno_before e)
      else let errno = (if bind_errno e \<noteq> 0 then bind_errno e else errno_before e) in
        if errno \<noteq> 0 then Some errno else None)"

definition close_app :: "dserver_env \<Rightarrow> int" where
  "close_app e = (if close_gives e < 0 \<or> unlink_gives e < 0 then errno_after e else 0)"

text \<open>The start of the client and its handler of SIGINT.\<close>

definition dgram_client_start :: "int \<Rightarrow> int \<Rightarrow> int option" where
  "dgram_client_start sockfd errno = (if sockfd < 0 then Some errno else None)"

definition client_close_app :: "int \<Rightarrow> int \<Rightarrow> int" where
  "client_close_app closed errno = (if closed < 0 then errno else 0)"

section \<open>Words through the socket\<close>

definition word_ok :: "char list \<Rightarrow> bool" where
  "word_ok w \<longleftrightarrow> w \<noteq> [] \<and> (\<forall>c \<in> set w. \<not> is_space c) \<and> nul \<notin> set w \<and> length w < DGRAM_BUFFER"

fun typed :: "char list list \<Rightarrow> char list" where
  "typed [] = []"
| "typed (w # ws) = w @ newline # typed ws"

lemma newline_space: "is_space newline"
  by (simp add: is_space_def newline_def)

lemma scan_typed:
  assumes "word_ok w" "inp = [] \<or> inp = [newline]"
  shows "scan_word (inp @ w @ newline # r) = Some (w, newline # r)"
proof -
  from assms(1) obtain c w' where w: "w = c # w'" "\<not> is_space c" by (cases w) (auto simp: word_ok_def)
  have "dropWhile is_space (inp @ w @ newline # r) = w @ newline # r"
    using assms(2) w newline_space by auto
  moreover have "takeWhile (\<lambda>c. \<not> is_space c) (w @ newline # r) = w"
    "dropWhile (\<lambda>c. \<not> is_space c) (w @ newline # r) = newline # r"
    using assms(1) newline_space by (simp_all add: word_ok_def takeWhile_append2 dropWhile_append2)
  ultimately show ?thesis using w by (simp add: scan_word_def)
qed

lemma client_turn_word:
  assumes "word_ok w" "length (typed_message s) = DGRAM_BUFFER" "inp = [] \<or> inp = [newline]"
    and "stdin s = inp @ w @ newline # r"
  obtains t where "client_turn pid s = Inr (w, t)" "stdin t = newline # r" "length (typed_message t) = DGRAM_BUFFER"
proof -
  let ?m = "w @ nul # drop (Suc (length w)) (typed_message s)"
  have b: "store_block (typed_message s) 0 (w @ [nul]) = Inr ?m"
    using assms(1,2) by (simp add: store_block_def word_ok_def)
  have n: "c_strlen ?m = Inr (length w)"
    using assms(1) by (intro c_strlen_append) (simp add: word_ok_def)
  have "length ?m = DGRAM_BUFFER" using assms(1,2) by (simp add: word_ok_def)
  then show thesis
    using that scan_typed [OF assms(1,3), of r] assms(4) b n by (auto simp: client_turn_def)
qed

lemma client_turns_words:
  assumes "\<forall>w \<in> set ws. word_ok w" "length (typed_message s) = DGRAM_BUFFER" "inp = [] \<or> inp = [newline]"
    and "stdin s = inp @ typed ws"
  shows "\<exists>t. client_turns pid (length ws) s = Inr (ws, t)"
  using assms
proof (induction ws arbitrary: s inp)
  case (Cons w ws)
  from Cons.prems have "word_ok w" "stdin s = inp @ w @ newline # typed ws" by simp_all
  from client_turn_word [OF this(1) Cons.prems(2,3) this(2)] obtain t where
    t: "client_turn pid s = Inr (w, t)" "stdin t = [newline] @ typed ws" "length (typed_message t) = DGRAM_BUFFER"
    by auto
  from Cons.IH [of t "[newline]"] Cons.prems t obtain u where "client_turns pid (length ws) t = Inr (ws, u)" by auto
  with t show ?case by simp
qed simp

lemma recv_turn_word:
  assumes "word_ok w" "length buf = DGRAM_BUFFER"
  shows "\<exists>b. recv_turn buf (Inr w) = Inr (newline # w, b) \<and> length b = DGRAM_BUFFER"
proof -
  have l: "length w < DGRAM_BUFFER" "take DGRAM_BUFFER w = w" using assms(1) by (simp_all add: word_ok_def)
  let ?b = "w @ nul # drop (Suc (length w)) buf"
  have "store (w @ drop (length w) buf) (int (length w)) nul = Inr ?b"
    using l assms(2) by (simp add: store_def list_update_append flip: Cons_nth_drop_Suc)
  moreover have "c_str ?b = w" using assms(1) by (intro c_str_append) (simp add: word_ok_def)
  ultimately show ?thesis using l assms(2) by (simp add: recv_turn_def)
qed

lemma recv_turns_words:
  "\<forall>w \<in> set ws. word_ok w \<Longrightarrow> length buf = DGRAM_BUFFER \<Longrightarrow>
     \<exists>b. recv_turns (map Inr ws @ later) buf =
       (case recv_turns later b of (out, st) \<Rightarrow> (concat (map (\<lambda>w. newline # w) ws) @ out, st))"
proof (induction ws arbitrary: buf)
  case Nil
  show ?case by (rule exI [of _ buf]) (simp split: prod.split)
next
  case (Cons w ws)
  then obtain b where b: "recv_turn buf (Inr w) = Inr (newline # w, b)" "length b = DGRAM_BUFFER"
    using recv_turn_word [of w buf] by auto
  from Cons.IH [OF _ b(2)] Cons.prems(1) obtain b' where "recv_turns (map Inr ws @ later) b =
      (case recv_turns later b' of (out, st) \<Rightarrow> (concat (map (\<lambda>w. newline # w) ws) @ out, st))" by auto
  with b(1) show ?case by (intro exI [of _ b']) (simp split: prod.split)
qed

text \<open>A datagram of 100 bytes or more makes the server write behind its buffer.\<close>

lemma recv_turn_long:
  "DGRAM_BUFFER \<le> length d \<Longrightarrow> length buf = DGRAM_BUFFER \<Longrightarrow> recv_turn buf (Inr d) = Inl (Dgram_Fault Out_Of_Bounds)"
  by (simp add: recv_turn_def store_def)

lemma client_turn_long:
  "scan_word (stdin s) = Some (w, r) \<Longrightarrow> DGRAM_BUFFER \<le> length w \<Longrightarrow> length (typed_message s) = DGRAM_BUFFER \<Longrightarrow>
     client_turn pid s = Inl Out_Of_Bounds"
  by (simp add: client_turn_def store_block_def)

text \<open>C39: The words typed into the client, each shorter than 100 bytes, are sent one by one, and the server
  that receives these datagrams in their order prints each of them behind a newline and waits for the next one. If
  \<open>recvfrom\<close> fails after \<open>k\<close> of them, the server has printed these and stops with the error.\<close>

theorem words_arrive:
  assumes "\<forall>w \<in> set ws. word_ok w" "length stack1 = DGRAM_BUFFER" "length stack2 = DGRAM_BUFFER"
  shows "\<exists>ds t. client_turns pid (length ws) \<lparr>typed_message = stack1, stdin = typed ws, stdout = []\<rparr> = Inr (ds, t) \<and>
    recv_turns (map Inr ds) stack2 = (concat (map (\<lambda>w. newline # w) ws), None) \<and>
    (\<forall>k errno. recv_turns (map Inr (take k ds) @ [Inl errno]) stack2 =
       (concat (map (\<lambda>w. newline # w) (take k ws)), Some (Dgram_Error errno)))"
proof -
  obtain t where "client_turns pid (length ws) \<lparr>typed_message = stack1, stdin = typed ws, stdout = []\<rparr> = Inr (ws, t)"
    using client_turns_words [of ws "\<lparr>typed_message = stack1, stdin = typed ws, stdout = []\<rparr>" "[]" pid] assms(1,2)
    by auto
  moreover have "recv_turns (map Inr ws) stack2 = (concat (map (\<lambda>w. newline # w) ws), None)"
    using recv_turns_words [OF assms(1,3), of "[]"] by simp
  moreover have "recv_turns (map Inr (take k ws) @ [Inl errno]) stack2 =
      (concat (map (\<lambda>w. newline # w) (take k ws)), Some (Dgram_Error errno))" for k errno
    using recv_turns_words [of "take k ws" stack2 "[Inl errno]"] assms(1,3)
    by (auto simp: recv_turn_def dest: in_set_takeD)
  ultimately show ?thesis by blast
qed

theorem words_arrive_witness:
  "\<exists>ds t. client_turns 7 (length [''ab'', ''c'']) \<lparr>typed_message = replicate DGRAM_BUFFER nul, stdin = typed [''ab'', ''c''], stdout = []\<rparr> = Inr (ds, t) \<and>
     recv_turns (map Inr ds) (replicate DGRAM_BUFFER nul) = (newline # ''ab'' @ newline # ''c'', None)"
  using words_arrive [of "[''ab'', ''c'']" "replicate DGRAM_BUFFER nul" "replicate DGRAM_BUFFER nul" 7]
  by (simp add: word_ok_def is_space_def nul_def DGRAM_BUFFER_def) blast

end
