(* ===== verification/Md_Modules.thy ===== *)
theory Md_Modules
  imports C_Strings
begin

text \<open>
  The first kernel modules: \<open>6-semestr/lab3/part1/md.c\<close>, which logs all tasks, and \<open>md1.c\<close>, \<open>md2.c\<close> and
  \<open>md3.c\<close> of \<open>6-semestr/lab3/part2\<close>, which use names that another module exports; and what the kernel does
  when modules are loaded and unloaded in any order.
\<close>

section \<open>\<open>md.c\<close>\<close>

text \<open>
  The tasks of the kernel form a ring that starts at \<open>init_task\<close>, position 0; \<open>t_parent\<close> is the
  position of the parent.
\<close>

record task =
  comm :: string
  task_pid :: nat
  t_parent :: nat

definition next_task :: "task list \<Rightarrow> nat \<Rightarrow> nat" where
  "next_task ring i = (if Suc i < length ring then Suc i else 0)"

definition task_line :: "task list \<Rightarrow> nat \<Rightarrow> char list" where
  "task_line ring i =
     (let t = ring ! i; p = ring ! t_parent t in
      ''! process: '' @ comm t @ '' - '' @ decimal (task_pid t) @ '', parent: '' @ comm p @ '' - '' @ decimal (task_pid p))"

text \<open>The loop: it ends when the next task is the one it began with.\<close>

function ring_loop :: "task list \<Rightarrow> nat \<Rightarrow> char list list \<Rightarrow> char list list" where
  "ring_loop ring i out =
     (let out' = out @ [task_line ring i] in
      if next_task ring i = 0 then out' else ring_loop ring (next_task ring i) out')"
  by pat_completeness auto

termination
  by (relation "measure (\<lambda>(ring, i, out). length ring - i)") (auto simp: next_task_def split: if_splits)

declare ring_loop.simps [simp del]

definition md_init :: "task list \<Rightarrow> nat \<Rightarrow> char list list" where
  "md_init ring current = ring_loop ring 0 [''! Module is loaded.''] @ [task_line ring current]"

lemma ring_loop_all:
  "i < length ring \<Longrightarrow> ring_loop ring i out = out @ map (task_line ring) [i..<length ring]"
proof (induction ring i out rule: ring_loop.induct)
  case (1 ring i out)
  show ?case
  proof (cases "Suc i < length ring")
    case True
    then have "next_task ring i = Suc i" by (simp add: next_task_def)
    with 1 True show ?thesis by (simp add: ring_loop.simps [of ring i] upt_rec [of i])
  next
    case False
    with "1.prems" have "length ring = Suc i" by simp
    then show ?thesis by (simp add: ring_loop.simps [of ring i] next_task_def)
  qed
qed

text \<open>Every task is logged once, in the order of the ring, and the current one again.\<close>

lemma md_init_logs:
  "ring \<noteq> [] \<Longrightarrow> md_init ring current =
     ''! Module is loaded.'' # map (task_line ring) [0..<length ring] @ [task_line ring current]"
  by (simp add: md_init_def ring_loop_all)

text \<open>\<open>md_exit\<close> logs one line.\<close>

definition md_exit :: "char list list" where
  "md_exit = [''! Module is unloaded.'']"

section \<open>Loading and unloading\<close>

text \<open>
  A module: the names it needs and exports, what its initialisation logs and returns, and what its
  exit function logs, if it has one.
\<close>

record kmodule =
  mod_name :: string
  needs :: "string list"
  exports :: "string list"
  init_log :: "char list list"
  init_returns :: int
  exit_log :: "char list list option"

record modules =
  loaded :: "kmodule list"
  klog :: "char list list"

definition ENOENT :: int where "ENOENT = 2"
definition EWOULDBLOCK :: int where "EWOULDBLOCK = 11"
definition EBUSY :: int where "EBUSY = 16"
definition EEXIST :: int where "EEXIST = 17"

definition exported :: "modules \<Rightarrow> string set" where
  "exported s = set (concat (map exports (loaded s)))"

text \<open>
  \<open>insmod\<close>: a module with an unresolved name is not linked; one whose initialisation fails is removed
  again, after its code has run.
\<close>

definition load_module :: "kmodule \<Rightarrow> modules \<Rightarrow> int \<times> modules" where
  "load_module m s =
     (if mod_name m \<in> set (map mod_name (loaded s)) then (- EEXIST, s)
      else if \<not> set (needs m) \<subseteq> exported s then (- ENOENT, s)
      else if init_returns m < 0 then (init_returns m, s\<lparr>klog := klog s @ init_log m\<rparr>)
      else (0, s\<lparr>klog := klog s @ init_log m, loaded := loaded s @ [m]\<rparr>))"

definition uses :: "kmodule \<Rightarrow> kmodule \<Rightarrow> bool" where
  "uses m m' \<longleftrightarrow> set (needs m) \<inter> set (exports m') \<noteq> {}"

text \<open>\<open>rmmod\<close>: a module that another one uses stays, and so does one without an exit function.\<close>

definition unload_module :: "string \<Rightarrow> modules \<Rightarrow> int \<times> modules" where
  "unload_module name s =
     (case find (\<lambda>m. mod_name m = name) (loaded s) of
        None \<Rightarrow> (- ENOENT, s)
      | Some m \<Rightarrow>
         if list_ex (\<lambda>m'. mod_name m' \<noteq> name \<and> uses m' m) (loaded s) then (- EWOULDBLOCK, s)
         else case exit_log m of
             None \<Rightarrow> (- EBUSY, s)
           | Some l \<Rightarrow> (0, s\<lparr>klog := klog s @ l, loaded := filter (\<lambda>m'. mod_name m' \<noteq> name) (loaded s)\<rparr>))"

datatype module_op = Insmod kmodule | Rmmod string

fun module_do :: "module_op \<Rightarrow> modules \<Rightarrow> int \<times> modules" where
  "module_do (Insmod m) s = load_module m s"
| "module_do (Rmmod name) s = unload_module name s"

inductive modules_step :: "kmodule set \<Rightarrow> modules \<Rightarrow> modules \<Rightarrow> bool" for M where
  inserted: "m \<in> M \<Longrightarrow> modules_step M s (snd (module_do (Insmod m) s))"
| removed: "modules_step M s (snd (module_do (Rmmod name) s))"

inductive_simps modules_step_iff: "modules_step M s t"

definition modules_start :: modules where
  "modules_start = \<lparr>loaded = [], klog = []\<rparr>"

text \<open>
  What the kernel keeps, whatever the modules do: each name is loaded once, comes from \<open>M\<close> and has not
  failed, and the names a module needs are exported by modules that are loaded with it.
\<close>

definition modules_ok :: "kmodule set \<Rightarrow> modules \<Rightarrow> bool" where
  "modules_ok M s \<longleftrightarrow> distinct (map mod_name (loaded s)) \<and> set (loaded s) \<subseteq> M \<and>
     (\<forall>m \<in> set (loaded s). 0 \<le> init_returns m \<and> set (needs m) \<subseteq> exported s)"

lemma find_name:
  assumes "distinct (map mod_name ms)" "m \<in> set ms"
  shows "find (\<lambda>m'. mod_name m' = mod_name m) ms = Some m"
  using assms by (induction ms) auto

lemma name_unique:
  assumes "modules_ok M s" "m \<in> set (loaded s)" "m' \<in> set (loaded s)" "mod_name m = mod_name m'"
  shows "m = m'"
proof -
  have "distinct (map mod_name (loaded s))" using assms(1) by (simp add: modules_ok_def)
  then have "inj_on mod_name (set (loaded s))" by (simp add: distinct_map)
  then show ?thesis using assms(4,2,3) by (rule inj_onD)
qed

lemma modules_ok_load:
  assumes "modules_ok M s" "m \<in> M" shows "modules_ok M (snd (load_module m s))"
  using assms by (auto simp: load_module_def modules_ok_def exported_def)

lemma modules_ok_unload:
  assumes ok: "modules_ok M s" shows "modules_ok M (snd (unload_module name s))"
proof (cases "find (\<lambda>m. mod_name m = name) (loaded s)")
  case (Some m)
  then have m: "mod_name m = name" "m \<in> set (loaded s)" by (auto simp: find_Some_iff)
  let ?ms = "filter (\<lambda>m'. mod_name m' \<noteq> name) (loaded s)"
  show ?thesis
  proof (cases "list_ex (\<lambda>m'. mod_name m' \<noteq> name \<and> uses m' m) (loaded s) \<or> exit_log m = None")
    case False
    then obtain l where l: "exit_log m = Some l" and
      free: "\<And>m'. m' \<in> set ?ms \<Longrightarrow> set (needs m') \<inter> set (exports m) = {}"
      by (auto simp: list_ex_iff uses_def)
    have t: "snd (unload_module name s) = s\<lparr>klog := klog s @ l, loaded := ?ms\<rparr>"
      using Some False l by (auto simp: unload_module_def)
    have "set (needs m') \<subseteq> set (concat (map exports ?ms))" if m': "m' \<in> set ?ms" for m'
    proof
      fix x assume x: "x \<in> set (needs m')"
      then obtain p where p: "p \<in> set (loaded s)" "x \<in> set (exports p)"
        using ok m' by (fastforce simp: modules_ok_def exported_def)
      with x free [OF m'] have "p \<noteq> m" by blast
      with p m name_unique [OF ok, of p m] have "mod_name p \<noteq> name" by auto
      with p show "x \<in> set (concat (map exports ?ms))" by auto
    qed
    with ok show ?thesis unfolding t by (auto simp: modules_ok_def exported_def distinct_map_filter)
  qed (use Some ok in \<open>auto simp: unload_module_def split: option.splits\<close>)
qed (use ok in \<open>simp add: unload_module_def\<close>)

interpretation linked: invariant "\<lambda>s. s = modules_start" "modules_step M" "modules_ok M" for M
proof unfold_locales
  show "modules_ok M t" if "modules_ok M s" "modules_step M s t" for s t
    using that by (auto simp: modules_step_iff modules_ok_load modules_ok_unload)
qed (simp add: modules_ok_def modules_start_def)

section \<open>\<open>md.c\<close>, \<open>md1.c\<close>, \<open>md2.c\<close>, \<open>md3.c\<close>\<close>

text \<open>
  The text behind \<open>md1_data\<close> is a parameter. \<open>md1_local\<close> is static, so only \<open>md1.c\<close> could call it, and
  \<open>md1_noexport\<close> is not exported; nothing calls either of them but the exit function of \<open>md2.c\<close>.
  \<open>md2\<close> is the module a build gives that leaves unresolved names to the loader, with a header \<open>md.h\<close> (which the
  repository lacks) that declares the three names. The comments of \<open>md2.c\<close> and \<open>md1.c\<close> tell of builds that stop at an undeclared
  or unresolved name; after such a build there is no module \<open>md2\<close>, and its loading never comes up.
\<close>

definition md1_proc :: "char list \<Rightarrow> char list" where "md1_proc md1_data = md1_data"
definition md1_local :: "char list \<Rightarrow> char list" where "md1_local md1_data = md1_data"
definition md1_noexport :: "char list \<Rightarrow> char list" where "md1_noexport md1_data = md1_data"

definition md1 :: kmodule where
  "md1 = \<lparr>mod_name = ''md1'', needs = [], exports = [''md1_data'', ''md1_proc''],
     init_log = [''+ Module md1 start.''], init_returns = 0, exit_log = Some [''+ Module md1 exit.'']\<rparr>"

definition md2 :: "char list \<Rightarrow> kmodule" where
  "md2 md1_data = \<lparr>mod_name = ''md2'', needs = [''md1_data'', ''md1_proc'', ''md1_noexport''], exports = [],
     init_log = [''+ Module md2 start.'',
       ''+ In md2: Data md1_data exported from md1 contains: '' @ md1_data,
       ''+ In md2: Proc md1_proc() exported from md1 returns: '' @ md1_proc md1_data],
     init_returns = 0,
     exit_log = Some [''+ In md2: Proc md1_noexport returns: '' @ md1_noexport md1_data, ''+ Module md2 exit.'']\<rparr>"

definition md3 :: "char list \<Rightarrow> kmodule" where
  "md3 md1_data = \<lparr>mod_name = ''md3'', needs = [''md1_data'', ''md1_proc''], exports = [],
     init_log = [''+ Module md3 start.'',
       ''+ In md3: Data md1_data exported from md1 contains: '' @ md1_data,
       ''+ In md3: Proc md1_proc() exported from md1 returns: '' @ md1_proc md1_data],
     init_returns = - 1, exit_log = None\<rparr>"

definition md :: "task list \<Rightarrow> nat \<Rightarrow> kmodule" where
  "md ring current = \<lparr>mod_name = ''md'', needs = [], exports = [], init_log = md_init ring current,
     init_returns = 0, exit_log = Some md_exit\<rparr>"

text \<open>The modules of \<open>lab3\<close>; the tasks are those at the time \<open>md.c\<close> is loaded.\<close>

definition lab3_modules :: "char list \<Rightarrow> kmodule set" where
  "lab3_modules d = insert md1 (insert (md2 d) (insert (md3 d) (range (\<lambda>(ring, current). md ring current))))"

lemma lab3_cases:
  assumes "m \<in> lab3_modules d"
  obtains "m = md1" | "m = md2 d" | "m = md3 d" | ring current where "m = md ring current"
  using assms by (auto simp: lab3_modules_def)

lemma module_names [simp]:
  "mod_name md1 = ''md1''" "mod_name (md2 d) = ''md2''" "mod_name (md3 d) = ''md3''" "mod_name (md r c) = ''md''"
  by (simp_all add: md1_def md2_def md3_def md_def)

lemma module_exports [simp]:
  "exports md1 = [''md1_data'', ''md1_proc'']" "exports (md2 d) = []" "exports (md3 d) = []" "exports (md r c) = []"
  by (simp_all add: md1_def md2_def md3_def md_def)

lemma module_needs [simp]:
  "needs md1 = []" "needs (md2 d) = [''md1_data'', ''md1_proc'', ''md1_noexport'']"
  "needs (md3 d) = [''md1_data'', ''md1_proc'']" "needs (md r c) = []"
  by (simp_all add: md1_def md2_def md3_def md_def)

lemma module_returns [simp]:
  "init_returns md1 = 0" "init_returns (md2 d) = 0" "init_returns (md3 d) = - 1" "init_returns (md r c) = 0"
  "exit_log md1 = Some [''+ Module md1 exit.'']" "exit_log (md r c) = Some md_exit"
  by (simp_all add: md1_def md2_def md3_def md_def)

lemma lab3_exported:
  assumes "set (loaded s) \<subseteq> lab3_modules d"
  shows "exported s = (if md1 \<in> set (loaded s) then {''md1_data'', ''md1_proc''} else {})"
proof -
  have "set (exports m) = (if m = md1 then {''md1_data'', ''md1_proc''} else {})" if "m \<in> set (loaded s)" for m
    using assms that by (auto elim!: lab3_cases dest: arg_cong [of _ _ mod_name])
  then show ?thesis by (auto simp: exported_def split: if_splits)
qed

text \<open>Only \<open>md1\<close> and \<open>md\<close> are ever loaded.\<close>

lemma lab3_loaded:
  assumes ok: "modules_ok (lab3_modules d) s" and m: "m \<in> set (loaded s)"
  shows "m = md1 \<or> (\<exists>ring current. m = md ring current)"
proof -
  have "m \<in> lab3_modules d" "0 \<le> init_returns m" "set (needs m) \<subseteq> exported s" "set (loaded s) \<subseteq> lab3_modules d"
    using ok m by (auto simp: modules_ok_def)
  then show ?thesis by (elim lab3_cases) (auto simp: lab3_exported split: if_splits)
qed

lemma md1_loaded_iff:
  assumes "modules_ok (lab3_modules d) s"
  shows "''md1'' \<in> set (map mod_name (loaded s)) \<longleftrightarrow> md1 \<in> set (loaded s)"
proof
  assume "''md1'' \<in> set (map mod_name (loaded s))"
  then obtain m where m: "m \<in> set (loaded s)" "mod_name m = ''md1''" by auto
  from lab3_loaded [OF assms m(1)] m(2) have "m = md1" by auto
  with m(1) show "md1 \<in> set (loaded s)" by simp
qed force

text \<open>C40: the modules of \<open>lab3\<close>, loaded and unloaded in any order. Only \<open>md1\<close> and \<open>md\<close> are ever in the
  kernel, so what is loaded can always be unloaded. \<open>md2\<close> is never linked, because of the one name that
  \<open>md1.c\<close> does not export; \<open>md3\<close> is linked when \<open>md1\<close> is there, its code runs and logs the string of \<open>md1\<close>
  twice, and it is removed again with -1.\<close>

theorem lab3_loading:
  assumes "reachable (\<lambda>s. s = modules_start) (modules_step (lab3_modules d)) s"
  shows "set (map mod_name (loaded s)) \<subseteq> {''md'', ''md1''} \<and> distinct (map mod_name (loaded s)) \<and>
    load_module (md2 d) s = (- ENOENT, s) \<and>
    load_module (md3 d) s =
      (if ''md1'' \<in> set (map mod_name (loaded s)) then (- 1, s\<lparr>klog := klog s @ init_log (md3 d)\<rparr>) else (- ENOENT, s)) \<and>
    (\<forall>m \<in> set (loaded s). \<exists>l. exit_log m = Some l \<and>
       unload_module (mod_name m) s =
         (0, s\<lparr>klog := klog s @ l, loaded := filter (\<lambda>m'. mod_name m' \<noteq> mod_name m) (loaded s)\<rparr>))"
proof -
  have ok: "modules_ok (lab3_modules d) s" using assms by (rule linked.reachable_inv)
  then have in3: "set (loaded s) \<subseteq> lab3_modules d" and dist: "distinct (map mod_name (loaded s))"
    by (auto simp: modules_ok_def)
  have names: "set (map mod_name (loaded s)) \<subseteq> {''md'', ''md1''}" using lab3_loaded [OF ok] by fastforce
  then have not: "''md2'' \<notin> set (map mod_name (loaded s))" "''md3'' \<notin> set (map mod_name (loaded s))" by auto
  have two: "load_module (md2 d) s = (- ENOENT, s)"
    using not(1) lab3_exported [OF in3] by (auto simp: load_module_def)
  have three: "load_module (md3 d) s =
      (if ''md1'' \<in> set (map mod_name (loaded s)) then (- 1, s\<lparr>klog := klog s @ init_log (md3 d)\<rparr>) else (- ENOENT, s))"
    unfolding md1_loaded_iff [OF ok] using not(2) lab3_exported [OF in3] by (auto simp: load_module_def)
  have "\<exists>l. exit_log m = Some l \<and> unload_module (mod_name m) s =
      (0, s\<lparr>klog := klog s @ l, loaded := filter (\<lambda>m'. mod_name m' \<noteq> mod_name m) (loaded s)\<rparr>)"
    if m: "m \<in> set (loaded s)" for m
  proof -
    have "\<not> uses m' m" if "m' \<in> set (loaded s)" for m'
      using lab3_loaded [OF ok that] by (auto simp: uses_def)
    then have "\<not> list_ex (\<lambda>m'. mod_name m' \<noteq> mod_name m \<and> uses m' m) (loaded s)" by (auto simp: list_ex_iff)
    with find_name [OF dist m] lab3_loaded [OF ok m] show ?thesis by (auto simp: unload_module_def)
  qed
  with names dist two three show ?thesis by blast
qed

lemma md1_alone:
  "reachable (\<lambda>s. s = modules_start) (modules_step (lab3_modules d)) \<lparr>loaded = [md1], klog = init_log md1\<rparr>"
proof -
  have "snd (module_do (Insmod md1) modules_start) = \<lparr>loaded = [md1], klog = init_log md1\<rparr>"
    by (simp add: load_module_def modules_start_def)
  moreover have "md1 \<in> lab3_modules d" by (simp add: lab3_modules_def)
  ultimately show ?thesis
    by (metis (mono_tags, lifting) inserted reach_init reach_step)
qed

theorem lab3_loading_witness:
  "load_module (md3 ''Hello'') \<lparr>loaded = [md1], klog = [''+ Module md1 start.'']\<rparr> =
     (- 1, \<lparr>loaded = [md1], klog = [''+ Module md1 start.'', ''+ Module md3 start.'',
        ''+ In md3: Data md1_data exported from md1 contains: Hello'',
        ''+ In md3: Proc md1_proc() exported from md1 returns: Hello'']\<rparr>)"
proof -
  have s: "init_log md1 = [''+ Module md1 start.'']"
    "init_log (md3 ''Hello'') = [''+ Module md3 start.'',
        ''+ In md3: Data md1_data exported from md1 contains: Hello'',
        ''+ In md3: Proc md1_proc() exported from md1 returns: Hello'']"
    by (simp_all add: md1_def md3_def md1_proc_def)
  show ?thesis using lab3_loading [OF md1_alone [of "''Hello''"]] by (simp add: s)
qed

end
