(* ===== verification/Spec2Isabelle.thy ===== *)
theory Spec2Isabelle
  imports Readers_Writers Producer_Consumer_Facts Producer_Consumer_V2 Fortune
    Cookie_Files Directory_Walk Select_Server Select_Client Monitor_Win32 Monitor_Cpp_Facts Fork_Tasks Signal_Tasks
    Log_Daemon Buffered_Io
    Virtual_Fs Interrupt_Modules Datagrams Md_Modules
begin

text \<open>
  The laboratory programs of the repository \<open>os-unix\<close>: independent C programs and kernel modules on
  processes, semaphores, shared memory, pipes, signals, sockets, files, daemons and modules. All paths
  below are relative to \<open>src/\<close>.

  \<^bold>\<open>How the programs are modelled.\<close> A program that runs alone is a function on an explicit state; a
  program of several processes or threads is a step relation in which one access to shared state (or the accesses of
  one statement, where a lock is held), one system call or one interrupt is one step, and every interleaving is a run. \<open>Prelude\<close> has the reachable
  states of such a relation, the contract of an invariant (locale \<open>invariant\<close>) and of a measure that
  bounds every run (locale \<open>terminating\<close>), sums over the processes, and C objects whose accesses can
  fault: an access outside an object is a value of \<open>c_fault\<close> that ends the run. \<open>C_Strings\<close> has the string
  functions of the C library that several programs call. What the system calls return, and what lies
  in memory that a program has not initialised, are parameters, and so are the functions of the kernel that
  hold more than a result: their documented behaviour is then a hypothesis (\<open>seq_ops_ok\<close>, \<open>seq_read_ok\<close>).

  \<^bold>\<open>Semaphores and shared memory, \<open>5-semestr/lab5\<close>.\<close>
  \<^item> \<open>SysV_Sem\<close>: \<open>semop\<close> and \<open>semctl\<close> as POSIX describes them, and the contract \<open>semaphore_service\<close>.
  \<^item> \<open>Readers_Writers\<close> (\<open>task2.c\<close>): the tables of operations, \<open>writer\<close>, \<open>reader\<close>, the creation of the
    children and \<open>main\<close>. Shown: exclusion, no lost update, no deadlock, the counters of waiting processes
    are never seen, a writer can starve.
  \<^item> \<open>Producer_Consumer\<close> and \<open>Producer_Consumer_Facts\<close> (\<open>task1.c\<close>): the segment with its layout; the accesses
    of one statement are one step, an increment is two. Shown: exclusion, a first-in first-out buffer, no fault in a segment rounded up to a page
    and a fault in one of the requested size, at most 174 steps, the letters, a failed \<open>fork\<close>.
  \<^item> \<open>Producer_Consumer_V2\<close> (\<open>v2.c\<close>): it stores through a null pointer before it starts, so of what would
    follow only \<open>producer\<close> and \<open>consumer\<close> are modelled.

  \<^bold>\<open>Processes and pipes, \<open>5-semestr/lab4\<close>.\<close>
  \<^item> \<open>Processes\<close>: \<open>fork\<close>, \<open>exec\<close>, \<open>wait\<close>, \<open>exit\<close>, a pipe and SIGINT for programs given as control flow
    graphs; the contracts \<open>program_rank\<close> (every run ends), \<open>program_budget\<close> and \<open>program_account\<close> (what is printed at most and in all),
    \<open>program_progress\<close> (nothing gets stuck) and \<open>program_typing\<close> (each process keeps to its part of the
    program and has the right parent).
  \<^item> \<open>Fork_Tasks\<close> (\<open>task1.c\<close>, \<open>task2.c\<close>, \<open>task3.c\<close>): the number of processes and of lines, the parts of the
    processes, and that \<open>task3.c\<close> waits for both children.
  \<^item> \<open>Pipe_Tasks\<close>, \<open>Signals\<close> and \<open>Signal_Tasks\<close> (\<open>task4.c\<close>, \<open>task5.c\<close>, \<open>5.c\<close>), from the creation of the pipe on:
    \<open>task4.c\<close> reads both messages; with a signal at any time and calls of \<open>pipe\<close> and \<open>fork\<close> that may fail \<open>task5.c\<close>
    delivers a whole message or reports the failed call, and ends within
    99 actions, and \<open>5.c\<close> ends within 34 and prints only what was written, but can print it twice (the
    contracts \<open>signal_measure\<close>, \<open>parent_reads\<close> and \<open>block_pipe\<close>).

  \<^bold>\<open>Threads on Windows, \<open>5-semestr/lab6\<close>.\<close>
  \<^item> \<open>Monitor_Win32\<close> (\<open>a.c\<close>): what the counters of the monitor count, and runs without exclusion.
  \<^item> \<open>Monitor_Cpp\<close> and \<open>Monitor_Cpp_Facts\<close> (\<open>main.cpp\<close>): the main thread and nine threads with a mutex and two
    events, null handles included. Shown: exclusion and the history of the value, when the events are
    signalled, no deadlock, at most 1594 steps, the final state, and what is lost without the mutex.

  \<^bold>\<open>Files and directories.\<close>
  \<^item> \<open>Directory_Walk\<close> (\<open>6-semestr/lab2/main.c\<close>): the walk of a tree with permissions; preorder, counts,
    the percentages as \<open>double\<close> and \<open>%5.2f\<close> round them, and the endless descent when \<open>chdir\<close> fails, bounded by the free descriptors.
  \<^item> \<open>Buffered_Io\<close> (\<open>6-semestr/lab5\<close>): files read through two streams or descriptors, files written
    through two streams, with and without threads.
  \<^item> \<open>Proc_Files\<close> (\<open>6-semestr/lab4/part1/1.c\<close>, \<open>6-semestr/lab4/part11/main.c\<close>): the printing of files of
    \<open>/proc\<close>, with the buffers they overrun. The memory around a buffer of \<open>1.c\<close> is a parameter (\<open>frame\<close>): bytes that nobody
    uses may be overwritten, as in the build whose log is in the repository; a write elsewhere is a fault, behind
    which the behaviour is undefined. \<open>Log_Daemon\<close>: \<open>main\<close> of \<open>1.c\<close> with its \<open>daemonize\<close>, exactly when
    the log is completed, and what it then holds.

  \<^bold>\<open>Daemons.\<close> \<open>Daemons\<close> (\<open>6-semestr/lab1/daemon.c\<close>, \<open>6-semestr/lab4/part1/daemonize.c\<close>): what both
  functions \<open>daemonize\<close> establish, why more than one daemon can run, and that the error lines of
  \<open>daemonize.c\<close> fit their buffer.

  \<^bold>\<open>Sockets, \<open>6-semestr/lab6\<close>.\<close>
  \<^item> \<open>Select_Server\<close>, \<open>Select_Client\<close> (\<open>part_02\<close>): the table of clients, which only ever serves its first
    slot (a failed \<open>select\<close> ends the server after one more call of \<open>connection\<close>), and the client, which faults before it sends its first line.
  \<^item> \<open>Datagrams\<close> (\<open>part_01\<close>): words go from the client to the server, until \<open>recvfrom\<close> fails.

  \<^bold>\<open>Kernel modules.\<close>
  \<^item> \<open>Message_Store\<close>: copies between kernel and user memory, and the contract \<open>message_store\<close> of the two
    modules of \<open>6-semestr/lab4/part2\<close>: \<open>Fortune\<close> (\<open>fortune.c\<close>), a ring of messages, and \<open>Cookie_Queue\<close>
    (\<open>main.c\<close>), a queue of what is given to \<open>seq_printf\<close>. Shown: both refine their contract, when a line is lost for
    want of room, and exactly which writes leave the page. A call of a handler is one step.
    \<open>Cookie_Files\<close>: the file of \<open>main.c\<close> opened and read through the kernel's \<open>seq_read\<close>, which loses lines of a page or more.
  \<^item> \<open>Kernel_Modules\<close>: the contract \<open>kernel_module\<close> of loading and unloading, and the file system of
    \<open>6-semestr/lab8/virtual_fc.c\<close>, with what its error paths leave behind. \<open>Virtual_Fs\<close>: loading, unloading,
    mounting and unmounting in any order, and the three ways to run into freed memory.
  \<^item> \<open>Interrupt_Modules\<close> (\<open>6-semestr/lab9\<close>): a work queue and a tasklet that an interrupt may trigger between
    any two steps of loading and unloading. The two works of the queue run on two processors, with an increment of the
    shared counter as a load and a store; the names \<open>queue.c\<close> does not declare are taken for those it does.
  \<^item> \<open>Md_Modules\<close> (\<open>6-semestr/lab3\<close>): the list of tasks, and modules that use names of another one, loaded
    and unloaded in any order: what the kernel keeps, and that \<open>md2\<close> (if a build lets it become a module) and \<open>md3\<close> never stay.

  \<^bold>\<open>Bounds.\<close> No definition needs fuel: loops are structural or have a measure. The schedules in which a
  behaviour is exhibited are explicit lists that are run by simplification.

  \<^bold>\<open>Not modelled.\<close> The children of \<open>v2.c\<close>, which are never created, and calls of the handlers of the modules of \<open>lab4\<close> that
  overlap on several processors. \<open>5-semestr/lab2/main.asm\<close> is assembly; \<open>TEMP.LST\<close> of
  \<open>5-semestr/lab1\<close> is a listing of the BIOS, \<open>virtual_fc.mod.c\<close> is generated. The texts of messages to
  the log and to the terminal are abbreviated, or left out where nothing depends on them, and \<open>sleep\<close> is
  a step that changes nothing. \<open>print_proc_mem\<close> and \<open>lockfile\<close> are
  modelled although nothing calls them.
\<close>

end
